(* ===== verification/Prelude.thy ===== *)
theory Prelude
  imports Main "HOL-Library.Word" "HOL-Library.Multiset" "HOL-Library.AList"
begin

text \<open>
  Shared vocabulary of the development: the machine integers of the Rust sources, the
  byte-addressed stores (process memory and device contents), the flow of fallible
  operations, decimal printing as \<open>format!\<close> does it, and the generic facts on
  lists, words and stores that the component theories rest on.

  Conventions used everywhere:
  \<^item> \<open>usize\<close> and \<open>u64\<close> are 64-bit words: \<open>+\<close> and \<open>*\<close> wrap, as in
    the release profile of the crate (no overflow checks);
  \<^item> a raw pointer is a natural number (an address); pointer offsets never wrap, since
    leaving the allocation is undefined behaviour in Rust;
  \<^item> \<open>Result<T, CacheError>\<close> is \<open>cache_error + 't\<close> with \<open>Inl\<close> the
    error, and an operation that mutates state returns the result together with the
    state it leaves behind, on the error path too;
  \<^item> \<open>None\<close> of an \<open>option\<close>-valued operation means that the process dies
    (a panic, which aborts in the release profile, or a CPU fault).
\<close>

section \<open>Machine integers\<close>

type_synonym u8 = "8 word"
type_synonym i32 = "32 word"
type_synonym u64 = "64 word"
type_synonym i64 = "64 word"
type_synonym usize = "64 word"

named_theorems store_simps \<open>loads and stores on byte-addressed stores\<close>
named_theorems word_nat \<open>transfer of word arithmetic to natural numbers\<close>

text \<open>\<open>usize::is_multiple_of\<close>: a zero divisor divides only zero, which is also what
  \<open>mod\<close> on words gives.\<close>

definition is_multiple_of :: "usize \<Rightarrow> usize \<Rightarrow> bool" where
  "is_multiple_of a b \<longleftrightarrow> a mod b = 0"

lemma is_multiple_of_dvd [word_nat]: "is_multiple_of a b \<longleftrightarrow> unat b dvd unat a"
proof -
  have "is_multiple_of a b \<longleftrightarrow> unat (a mod b) = 0"
    by (simp only: is_multiple_of_def unat_eq_0)
  then show ?thesis
    by (simp only: unat_mod dvd_eq_mod_eq_0)
qed

text \<open>\<open>u64::saturating_add\<close> of one.\<close>

definition saturating_inc :: "u64 \<Rightarrow> u64" where
  "saturating_inc x = (if x = - 1 then x else x + 1)"

lemma unat_mult_no_wrap [word_nat]:
  fixes a b :: "64 word"
  assumes "unat a * unat b < 2 ^ 64"
  shows "unat (a * b) = unat a * unat b"
  using assms by (simp add: unat_word_ariths)

lemma unat_add_no_wrap [word_nat]:
  fixes a b :: "64 word"
  assumes "unat a + unat b < 2 ^ 64"
  shows "unat (a + b) = unat a + unat b"
  using assms by (simp add: unat_word_ariths)

lemma unat_of_nat_small [word_nat]:
  "n < 2 ^ 64 \<Longrightarrow> unat (of_nat n :: 64 word) = n"
  by (simp add: unat_of_nat)

lemma unat_lt_2_64: "unat (x :: 64 word) < 2 ^ 64"
  using unsigned_less [of x, where ?'a = nat] by simp

lemma unat_add_of_nat:
  fixes a :: "64 word"
  assumes "unat a + k < 2 ^ 64"
  shows "unat (a + of_nat k) = unat a + k"
proof -
  have "unat (of_nat k :: 64 word) = k"
    using assms by (intro unat_of_nat_small) simp
  with assms show ?thesis
    by (simp add: unat_add_no_wrap)
qed

lemma of_nat_less_word: "n < unat c \<Longrightarrow> (of_nat n :: 64 word) < c"
  using unat_lt_2_64 [of c] by (simp add: word_less_nat_alt unat_of_nat_small)

lemma sint_small:
  fixes a :: "64 word"
  assumes "unat a < 2 ^ 63"
  shows "sint a = int (unat a)"
proof -
  have keep: "signed_take_bit 63 k = k" if "0 \<le> k" "k < 2 ^ 63" for k :: int
    using that by (simp add: signed_take_bit_int_eq_self_iff)
  have "uint a < 2 ^ 63"
    using assms by (metis of_nat_less_numeral_power_cancel_iff uint_nat)
  from keep [OF uint_ge_0 this] show ?thesis
    by (simp only: sint_uint uint_nat) simp
qed

lemma nat_sint_small [word_nat]:
  fixes a :: "64 word"
  assumes "unat a < 2 ^ 63"
  shows "nat (sint a) = unat a" and "0 \<le> sint a"
  by (simp_all only: sint_small [OF assms] nat_int of_nat_0_le_iff)

section \<open>Byte-addressed stores\<close>

type_synonym store = "nat \<Rightarrow> u8"

definition load_bytes :: "store \<Rightarrow> nat \<Rightarrow> nat \<Rightarrow> u8 list" where
  "load_bytes m p n = map m [p..<p + n]"

definition store_bytes :: "store \<Rightarrow> nat \<Rightarrow> u8 list \<Rightarrow> store" where
  "store_bytes m p bs = (\<lambda>a. if p \<le> a \<and> a < p + length bs then bs ! (a - p) else m a)"

text \<open>Two stores agree outside the range of \<open>n\<close> bytes at \<open>p\<close>.\<close>

definition agree_outside :: "nat \<Rightarrow> nat \<Rightarrow> store \<Rightarrow> store \<Rightarrow> bool" where
  "agree_outside p n m m' \<longleftrightarrow> (\<forall>a. a < p \<or> p + n \<le> a \<longrightarrow> m' a = m a)"

definition disjoint_ranges :: "nat \<Rightarrow> nat \<Rightarrow> nat \<Rightarrow> nat \<Rightarrow> bool" where
  "disjoint_ranges p n q k \<longleftrightarrow> p + n \<le> q \<or> q + k \<le> p"

lemma length_load [simp]: "length (load_bytes m p n) = n"
  by (simp add: load_bytes_def)

lemma nth_load [simp]: "i < n \<Longrightarrow> load_bytes m p n ! i = m (p + i)"
  by (simp add: load_bytes_def)

lemma load_0 [simp]: "load_bytes m p 0 = []"
  by (simp add: load_bytes_def)

lemma store_Nil [simp]: "store_bytes m p [] = m"
  by (auto simp: store_bytes_def fun_eq_iff)

lemma load_cong: "(\<And>a. p \<le> a \<Longrightarrow> a < p + n \<Longrightarrow> m a = m' a) \<Longrightarrow> load_bytes m p n = load_bytes m' p n"
  by (simp add: load_bytes_def)

lemma load_const [store_simps]: "load_bytes (\<lambda>_. b) p n = replicate n b"
  by (intro nth_equalityI) simp_all

lemma load_store_same [store_simps]: "n = length bs \<Longrightarrow> load_bytes (store_bytes m p bs) p n = bs"
  by (intro nth_equalityI) (simp_all add: store_bytes_def)

lemma load_store_disjoint [store_simps]:
  "disjoint_ranges p n q (length bs) \<Longrightarrow> load_bytes (store_bytes m q bs) p n = load_bytes m p n"
  by (rule load_cong) (auto simp: store_bytes_def disjoint_ranges_def)

lemma load_agree:
  "agree_outside q k m m' \<Longrightarrow> disjoint_ranges p n q k \<Longrightarrow> load_bytes m' p n = load_bytes m p n"
  by (rule load_cong) (auto simp: agree_outside_def disjoint_ranges_def)

lemma agree_outside_refl [simp, intro]: "agree_outside p n m m"
  by (simp add: agree_outside_def)

lemma agree_outside_trans:
  "agree_outside p n m m' \<Longrightarrow> agree_outside p n m' m'' \<Longrightarrow> agree_outside p n m m''"
  by (simp add: agree_outside_def)

lemma agree_outside_mono:
  "agree_outside q k m m' \<Longrightarrow> p \<le> q \<Longrightarrow> q + k \<le> p + n \<Longrightarrow> agree_outside p n m m'"
  by (auto simp: agree_outside_def)

lemma agree_outside_store: "length bs \<le> n \<Longrightarrow> agree_outside p n m (store_bytes m p bs)"
  by (auto simp: agree_outside_def store_bytes_def)

lemma load_append: "load_bytes m p (a + b) = load_bytes m p a @ load_bytes m (p + a) b"
  by (intro nth_equalityI) (auto simp: nth_append)

lemma store_append:
  "store_bytes (store_bytes m p xs) (p + length xs) ys = store_bytes m p (xs @ ys)"
  by (auto simp: store_bytes_def nth_append fun_eq_iff)

lemma take_load [simp]: "take k (load_bytes m p n) = load_bytes m p (min k n)"
  by (intro nth_equalityI) simp_all

lemma drop_load [simp]: "drop k (load_bytes m p n) = load_bytes m (p + k) (n - k)"
  by (intro nth_equalityI) (simp_all add: ac_simps)

lemma store_load_id: "store_bytes m p (load_bytes m p n) = m"
  by (auto simp: store_bytes_def fun_eq_iff)

lemma disjoint_ranges_sym: "disjoint_ranges p n q k \<longleftrightarrow> disjoint_ranges q k p n"
  by (auto simp: disjoint_ranges_def)

lemma disjoint_ranges_mono:
  "disjoint_ranges p n q k \<Longrightarrow> p \<le> p' \<Longrightarrow> p' + n' \<le> p + n \<Longrightarrow> disjoint_ranges p' n' q k"
  by (auto simp: disjoint_ranges_def)

lemma disjoint_ranges_le: "disjoint_ranges p n q n \<Longrightarrow> k \<le> n \<Longrightarrow> disjoint_ranges p k q k"
  by (auto simp: disjoint_ranges_def)

text \<open>Blocks of one size at distinct indices never share a byte.\<close>

lemma blocks_disjoint:
  assumes "i \<noteq> (j :: nat)"
  shows "disjoint_ranges (base + i * bs) bs (base + j * bs) bs"
proof (cases "i < j")
  case True
  then have "(i + 1) * bs \<le> j * bs" by (intro mult_le_mono1) simp
  then show ?thesis by (simp add: disjoint_ranges_def)
next
  case False
  with assms have "(j + 1) * bs \<le> i * bs" by (intro mult_le_mono1) simp
  then show ?thesis by (simp add: disjoint_ranges_def)
qed

section \<open>Decimal printing\<close>

text \<open>What \<open>format!\<close> writes for an unsigned integer.\<close>

definition digit_char :: "nat \<Rightarrow> char" where
  "digit_char d = char_of (48 + d)"

fun show_nat :: "nat \<Rightarrow> string" where
  "show_nat n = (if n < 10 then [digit_char n] else show_nat (n div 10) @ [digit_char (n mod 10)])"

declare show_nat.simps [simp del]

definition show_word :: "64 word \<Rightarrow> string" where
  "show_word x = show_nat (unat x)"

section \<open>Lists and association lists\<close>

lemma distinct_butlast_last:
  "distinct xs \<Longrightarrow> xs \<noteq> [] \<Longrightarrow> last xs \<notin> set (butlast xs)"
  by (induction xs) (auto split: if_splits)

lemma set_butlast_last: "xs \<noteq> [] \<Longrightarrow> set xs = insert (last xs) (set (butlast xs))"
  by (induction xs) auto

lemma map_of_update [simp]: "map_of (AList.update k v xs) = (map_of xs)(k \<mapsto> v)"
  by (simp add: update_conv')

lemma map_of_delete [simp]: "map_of (AList.delete k xs) = (map_of xs)(k := None)"
  by (simp add: delete_conv')

lemma keys_map_entry [simp]: "map fst (AList.map_entry k f xs) = map fst xs"
  by (induction xs) auto

lemma map_of_map_entry [simp]:
  "map_of (AList.map_entry k f xs) = (map_of xs)(k := map_option f (map_of xs k))"
  by (induction xs) (auto simp: fun_eq_iff)

lemma distinct_keys_delete: "distinct (map fst xs) \<Longrightarrow> distinct (map fst (AList.delete k xs))"
  by (rule distinct_delete)

lemma length_delete_present:
  "distinct (map fst xs) \<Longrightarrow> map_of xs k = Some v \<Longrightarrow> length xs = Suc (length (AList.delete k xs))"
  by (induction xs) (auto split: if_splits simp: delete_keys delete_id image_iff)

lemma length_update_fresh:
  "map_of xs k = None \<Longrightarrow> length (AList.update k v xs) = Suc (length xs)"
  by (induction xs) (auto split: if_splits)

end
