(* ===== verification/Errors.thy ===== *)
theory Errors
  imports Prelude
begin

text \<open>
  The crate's single error type (\<open>src/src/error/types.rs\<close>) and the two pure functions the
  command line uses to classify an error (\<open>src/src/cli/emit.rs\<close>): its diagnostic code and
  the pseudo path shown after the arrow. \<open>std::io::Error\<close> is a kind together with the text
  its \<open>Display\<close> prints.
\<close>

datatype io_error_kind = PermissionDeniedKind | UnexpectedEofKind | WriteZeroKind | OtherKind string

record io_error =
  ie_kind :: io_error_kind
  ie_text :: string

datatype cache_error =
    Config string
  | DeviceNotFound string
  | NotBlockDevice string
  | Allocation string
  | Alignment usize usize
  | PoolExhausted usize usize
  | Io string io_error
  | Ioctl string string
  | FlushThread string
  | Internal string
  | LbaOutOfRange u64 u64
  | PermissionDenied string

type_synonym 'a cache_result = "cache_error + 'a"

section \<open>Constructors\<close>

text \<open>\<open>CacheError::io\<close>: an access error is promoted to its own variant.\<close>

definition io_err :: "string \<Rightarrow> io_error \<Rightarrow> cache_error" where
  "io_err operation source =
     (if ie_kind source = PermissionDeniedKind
      then PermissionDenied (operation @ '': '' @ ie_text source)
      else Io operation source)"

definition config_err :: "string \<Rightarrow> cache_error" where
  "config_err msg = Config msg"

definition internal_err :: "string \<Rightarrow> cache_error" where
  "internal_err msg = Internal msg"

text \<open>The \<open>Display\<close> text that \<open>thiserror\<close> derives from the \<open>#[error(..)]\<close> attributes.\<close>

fun error_display :: "cache_error \<Rightarrow> string" where
  "error_display (Config message) = ''Configuration error: '' @ message"
| "error_display (DeviceNotFound path) = ''Device path does not exist: '' @ path"
| "error_display (NotBlockDevice path) = ''Path is not a block device: '' @ path"
| "error_display (Allocation reason) = ''Memory allocation failed: '' @ reason"
| "error_display (Alignment expected actual) =
     ''Alignment violation: expected '' @ show_word expected @
     ''-byte alignment, got offset '' @ show_word actual"
| "error_display (PoolExhausted in_use capacity) =
     ''Cache pool exhausted ('' @ show_word in_use @ '' of '' @ show_word capacity @ '' blocks in use)''"
| "error_display (Io operation source) = ''I/O error on '' @ operation @ '': '' @ ie_text source"
| "error_display (Ioctl name detail) = ''ioctl '' @ name @ '' failed: '' @ detail"
| "error_display (FlushThread reason) = ''Flush thread error: '' @ reason"
| "error_display (Internal message) = ''Internal error: '' @ message"
| "error_display (LbaOutOfRange lba max_lba) =
     ''LBA '' @ show_word lba @ '' is out of range (device has '' @ show_word max_lba @ '' blocks)''"
| "error_display (PermissionDenied detail) =
     ''Permission denied: '' @ detail @ ''. Try running with sudo or CAP_SYS_RAWIO.''"

section \<open>Classification for diagnostics\<close>

fun get_error_code :: "cache_error \<Rightarrow> string" where
  "get_error_code (Config _) = ''E0001''"
| "get_error_code (DeviceNotFound _) = ''E0002''"
| "get_error_code (NotBlockDevice _) = ''E0003''"
| "get_error_code (Allocation _) = ''E0004''"
| "get_error_code (Alignment _ _) = ''E0005''"
| "get_error_code (PoolExhausted _ _) = ''E0006''"
| "get_error_code (Io _ _) = ''E0007''"
| "get_error_code (Ioctl _ _) = ''E0008''"
| "get_error_code (FlushThread _) = ''E0009''"
| "get_error_code (Internal _) = ''E0010''"
| "get_error_code (LbaOutOfRange _ _) = ''E0011''"
| "get_error_code (PermissionDenied _) = ''E0012''"

fun get_error_path :: "cache_error \<Rightarrow> string" where
  "get_error_path (DeviceNotFound path) = path"
| "get_error_path (NotBlockDevice path) = path"
| "get_error_path (PermissionDenied _) = ''device''"
| "get_error_path (Config _) = ''config''"
| "get_error_path (Allocation _) = ''memory''"
| "get_error_path (Alignment _ _) = ''memory''"
| "get_error_path (PoolExhausted _ _) = ''cache''"
| "get_error_path (Io _ _) = ''io''"
| "get_error_path (Ioctl _ _) = ''io''"
| "get_error_path (FlushThread _) = ''flush''"
| "get_error_path (Internal _) = ''internal''"
| "get_error_path (LbaOutOfRange _ _) = ''io''"

section \<open>Facts\<close>

lemma io_err_cases:
  "io_err opr e = PermissionDenied (opr @ '': '' @ ie_text e) \<or> io_err opr e = Io opr e"
  by (simp add: io_err_def)

lemma io_err_code: "get_error_code (io_err opr e) \<in> {''E0007'', ''E0012''}"
  by (simp add: io_err_def)

end
