(* ===== verification/Runtime_Env.thy ===== *)
theory Runtime_Env
  imports Errors
begin

text \<open>
  Everything the crate calls but does not contain, as one parameter of the model: the
  kernel's system calls (through \<open>libc\<close> and \<open>std::fs\<close>), the global allocator, the clock
  behind \<open>Instant::now\<close>, the \<open>crossbeam\<close> channel, the iteration order of \<open>HashMap\<close> and
  the CPU feature test. The state of all of it is one value of the type variable \<open>'w\<close>
  (the world), threaded through every call.

  What the code relies on is stated by the predicates of the last section, in terms of
  an abstraction function \<open>disk\<close> that reads the bytes of the block device off the world.
  They are hypotheses of the theorems that need them, never part of a definition.
\<close>

section \<open>The environment\<close>

datatype open_flags = O_RDONLY_plain | O_RDONLY_DIRECT | O_RDWR_DIRECT

datatype flush_signal = Wake | Shutdown

text \<open>\<open>RecvTimeoutError\<close> of \<open>crossbeam::channel\<close>.\<close>

datatype recv_timeout_error = Timeout | Disconnected

record 'w env =
  env_pread :: "i32 \<Rightarrow> usize \<Rightarrow> i64 \<Rightarrow> 'w \<Rightarrow> (io_error + u8 list) \<times> 'w"
  env_pwrite :: "i32 \<Rightarrow> u8 list \<Rightarrow> i64 \<Rightarrow> 'w \<Rightarrow> (io_error + nat) \<times> 'w"
  env_fsync :: "i32 \<Rightarrow> 'w \<Rightarrow> (io_error + unit) \<times> 'w"
  env_open :: "string \<Rightarrow> open_flags \<Rightarrow> 'w \<Rightarrow> (io_error + i32) \<times> 'w"
  env_close :: "i32 \<Rightarrow> 'w \<Rightarrow> 'w"
  env_exists :: "string \<Rightarrow> 'w \<Rightarrow> bool"
  env_metadata :: "string \<Rightarrow> 'w \<Rightarrow> io_error + bool"
  env_blkgetsize64 :: "i32 \<Rightarrow> 'w \<Rightarrow> io_error + u64"
  env_blksszget :: "i32 \<Rightarrow> 'w \<Rightarrow> io_error + i32"
  env_read_to_string :: "string \<Rightarrow> 'w \<Rightarrow> io_error + string"
  env_alloc_zeroed :: "usize \<Rightarrow> usize \<Rightarrow> 'w \<Rightarrow> nat \<times> 'w"
  env_now :: "'w \<Rightarrow> nat \<times> 'w"
  env_try_send :: "nat \<Rightarrow> flush_signal \<Rightarrow> 'w \<Rightarrow> 'w"
  env_recv_timeout :: "nat \<Rightarrow> nat \<Rightarrow> 'w \<Rightarrow> (recv_timeout_error + flush_signal) \<times> 'w"
  env_bounded1 :: "'w \<Rightarrow> nat \<times> 'w"
  env_hash_order :: "u64 list \<Rightarrow> u64 list"
  env_erms :: bool

text \<open>
  The bytes of the device, read off the world. Byte \<open>a\<close> of the device is \<open>disk w a\<close>.
\<close>

type_synonym 'w disk_view = "'w \<Rightarrow> store"

section \<open>What the code relies on\<close>

text \<open>
  \<open>pread(2)\<close>: at most the requested count of bytes is returned, they are the device's
  bytes at the offset, and the device does not change.
\<close>

definition pread_ok :: "'w env \<Rightarrow> 'w disk_view \<Rightarrow> i32 \<Rightarrow> bool" where
  "pread_ok E disk fd \<longleftrightarrow>
     (\<forall>len off w r w'. env_pread E fd len off w = (r, w') \<longrightarrow>
        disk w' = disk w \<and>
        (\<forall>bs. r = Inr bs \<longrightarrow>
           length bs \<le> unat len \<and>
           (0 \<le> sint off \<longrightarrow> bs = load_bytes (disk w) (nat (sint off)) (length bs))))"

text \<open>
  \<open>pwrite(2)\<close>: a returned count \<open>n\<close> is at most the length of the buffer and says that
  exactly its first \<open>n\<close> bytes reached the device. After an error the contents of the
  addressed range are unknown; nothing outside it changes.
\<close>

definition pwrite_ok :: "'w env \<Rightarrow> 'w disk_view \<Rightarrow> i32 \<Rightarrow> bool" where
  "pwrite_ok E disk fd \<longleftrightarrow>
     (\<forall>bs off w r w'. env_pwrite E fd bs off w = (r, w') \<longrightarrow> 0 \<le> sint off \<longrightarrow>
        (case r of
           Inr n \<Rightarrow> n \<le> length bs \<and> disk w' = store_bytes (disk w) (nat (sint off)) (take n bs)
         | Inl e \<Rightarrow> agree_outside (nat (sint off)) (length bs) (disk w) (disk w')))"

text \<open>The calls that do not write to the device leave its bytes alone.\<close>

definition quiet_ok :: "'w env \<Rightarrow> 'w disk_view \<Rightarrow> bool" where
  "quiet_ok E disk \<longleftrightarrow>
     (\<forall>w. disk (snd (env_now E w)) = disk w) \<and>
     (\<forall>c s w. disk (env_try_send E c s w) = disk w) \<and>
     (\<forall>c d w. disk (snd (env_recv_timeout E c d w)) = disk w) \<and>
     (\<forall>w. disk (snd (env_bounded1 E w)) = disk w) \<and>
     (\<forall>fd w. disk (snd (env_fsync E fd w)) = disk w) \<and>
     (\<forall>p f w. disk (snd (env_open E p f w)) = disk w) \<and>
     (\<forall>fd w. disk (env_close E fd w) = disk w) \<and>
     (\<forall>n a w. disk (snd (env_alloc_zeroed E n a w)) = disk w)"

text \<open>\<open>HashMap\<close> iteration visits every key once, in an arbitrary order.\<close>

definition hash_ok :: "'w env \<Rightarrow> bool" where
  "hash_ok E \<longleftrightarrow> (\<forall>ks. mset (env_hash_order E ks) = mset ks)"

definition env_ok :: "'w env \<Rightarrow> 'w disk_view \<Rightarrow> i32 \<Rightarrow> bool" where
  "env_ok E disk fd \<longleftrightarrow>
     pread_ok E disk fd \<and> pwrite_ok E disk fd \<and> quiet_ok E disk \<and> hash_ok E"

text \<open>The device serves requests: every transfer inside the device makes progress.\<close>

definition pread_live :: "'w env \<Rightarrow> i32 \<Rightarrow> nat \<Rightarrow> bool" where
  "pread_live E fd dev_size \<longleftrightarrow>
     (\<forall>len off w. 0 < len \<longrightarrow> 0 \<le> sint off \<longrightarrow> nat (sint off) + unat len \<le> dev_size \<longrightarrow>
        (\<exists>bs w'. env_pread E fd len off w = (Inr bs, w') \<and> bs \<noteq> []))"

definition pwrite_live :: "'w env \<Rightarrow> i32 \<Rightarrow> nat \<Rightarrow> bool" where
  "pwrite_live E fd dev_size \<longleftrightarrow>
     (\<forall>bs off w. bs \<noteq> [] \<longrightarrow> 0 \<le> sint off \<longrightarrow> nat (sint off) + length bs \<le> dev_size \<longrightarrow>
        (\<exists>n w'. env_pwrite E fd bs off w = (Inr n, w') \<and> 0 < n))"

text \<open>A descriptor on which every \<open>pwrite\<close> fails: closed, or opened read-only (\<open>EBADF\<close>).\<close>

definition pwrite_refused :: "'w env \<Rightarrow> i32 \<Rightarrow> bool" where
  "pwrite_refused E fd \<longleftrightarrow> (\<forall>bs off w. \<exists>e. env_pwrite E fd bs off w = (Inl e, w))"

text \<open>
  Descriptors: \<open>opened w\<close> are the descriptors the process holds. \<open>open(2)\<close> returns a fresh
  one or changes nothing, \<open>close(2)\<close> releases its argument, \<open>pwrite(2)\<close> on a descriptor
  that is not open fails with \<open>EBADF\<close> and has no effect, and no other call opens or closes.
\<close>

definition fd_ok :: "'w env \<Rightarrow> ('w \<Rightarrow> i32 set) \<Rightarrow> bool" where
  "fd_ok E opened \<longleftrightarrow>
     (\<forall>p f w fd w'. env_open E p f w = (Inr fd, w') \<longrightarrow>
        fd \<notin> opened w \<and> opened w' = insert fd (opened w)) \<and>
     (\<forall>p f w e w'. env_open E p f w = (Inl e, w') \<longrightarrow> opened w' = opened w) \<and>
     (\<forall>fd w. opened (env_close E fd w) = opened w - {fd}) \<and>
     (\<forall>fd bs off w. fd \<notin> opened w \<longrightarrow> (\<exists>e. env_pwrite E fd bs off w = (Inl e, w))) \<and>
     (\<forall>c s w. opened (env_try_send E c s w) = opened w) \<and>
     (\<forall>c d w. opened (snd (env_recv_timeout E c d w)) = opened w)"

text \<open>
  \<open>Instant::now\<close> never goes back: \<open>clk\<close> reads the latest instant handed out.
\<close>

definition clock_ok :: "'w env \<Rightarrow> ('w \<Rightarrow> nat) \<Rightarrow> bool" where
  "clock_ok E clk \<longleftrightarrow>
     (\<forall>w t w'. env_now E w = (t, w') \<longrightarrow> clk w \<le> t \<and> clk w' = t)"

section \<open>Consequences used by the components\<close>

lemma env_okD:
  assumes "env_ok E disk fd"
  shows "pread_ok E disk fd" "pwrite_ok E disk fd" "quiet_ok E disk" "hash_ok E"
  using assms by (simp_all add: env_ok_def)

lemma pread_okD:
  assumes "pread_ok E disk fd" "env_pread E fd len off w = (r, w')"
  shows "disk w' = disk w"
    and "r = Inr bs \<Longrightarrow> length bs \<le> unat len"
    and "r = Inr bs \<Longrightarrow> 0 \<le> sint off \<Longrightarrow> bs = load_bytes (disk w) (nat (sint off)) (length bs)"
  using assms unfolding pread_ok_def by blast+

lemma pwrite_ok_Inr:
  assumes "pwrite_ok E disk fd" "env_pwrite E fd bs off w = (Inr n, w')" "0 \<le> sint off"
  shows "n \<le> length bs" "disk w' = store_bytes (disk w) (nat (sint off)) (take n bs)"
  using assms(1) [unfolded pwrite_ok_def, rule_format, OF assms(2,3)] by simp_all

lemma pwrite_ok_Inl:
  assumes "pwrite_ok E disk fd" "env_pwrite E fd bs off w = (Inl e, w')" "0 \<le> sint off"
  shows "agree_outside (nat (sint off)) (length bs) (disk w) (disk w')"
  using assms(1) [unfolded pwrite_ok_def, rule_format, OF assms(2,3)] by simp

lemma quiet_okD:
  assumes "quiet_ok E disk"
  shows "disk (snd (env_now E w)) = disk w"
    and "disk (env_try_send E c s w) = disk w"
    and "disk (snd (env_recv_timeout E c d w)) = disk w"
    and "disk (snd (env_bounded1 E w)) = disk w"
    and "disk (snd (env_fsync E fd w)) = disk w"
    and "disk (snd (env_open E p f w)) = disk w"
    and "disk (env_close E fd w) = disk w"
    and "disk (snd (env_alloc_zeroed E n a w)) = disk w"
  using assms unfolding quiet_ok_def by simp_all

lemma hash_ok_set [simp]: "hash_ok E \<Longrightarrow> set (env_hash_order E ks) = set ks"
  unfolding hash_ok_def by (metis set_mset_mset)

lemma hash_ok_length [simp]: "hash_ok E \<Longrightarrow> length (env_hash_order E ks) = length ks"
  unfolding hash_ok_def by (metis size_mset)

lemma hash_ok_distinct [simp]: "hash_ok E \<Longrightarrow> distinct (env_hash_order E ks) = distinct ks"
  unfolding hash_ok_def by (metis mset_eq_imp_distinct_iff)

lemma fd_okD:
  assumes "fd_ok E opened"
  shows "env_open E p f w = (Inr fd, w') \<Longrightarrow> fd \<notin> opened w \<and> opened w' = insert fd (opened w)"
    "env_open E p f w = (Inl e, w') \<Longrightarrow> opened w' = opened w"
    "opened (env_close E fd w) = opened w - {fd}"
    "fd \<notin> opened w \<Longrightarrow> \<exists>e. env_pwrite E fd bs off w = (Inl e, w)"
    "opened (env_try_send E c s w) = opened w"
    "opened (snd (env_recv_timeout E c d w)) = opened w"
proof -
  note c = assms [unfolded fd_ok_def]
  show "env_open E p f w = (Inr fd, w') \<Longrightarrow> fd \<notin> opened w \<and> opened w' = insert fd (opened w)"
    using c [THEN conjunct1] by fast
  show "env_open E p f w = (Inl e, w') \<Longrightarrow> opened w' = opened w"
    using c [THEN conjunct2, THEN conjunct1] by fast
  note c = c [THEN conjunct2, THEN conjunct2]
  show "opened (env_close E fd w) = opened w - {fd}"
    using c [THEN conjunct1] by fast
  show "fd \<notin> opened w \<Longrightarrow> \<exists>e. env_pwrite E fd bs off w = (Inl e, w)"
    using c [THEN conjunct2, THEN conjunct1] by fast
  note c = c [THEN conjunct2, THEN conjunct2]
  show "opened (env_try_send E c s w) = opened w" "opened (snd (env_recv_timeout E c d w)) = opened w"
    using c by (fast dest: conjunct1, fast dest: conjunct2)
qed

end
