(* ===== verification/Sim_Env.thy ===== *)
theory Sim_Env
  imports Runtime_Env
begin

text \<open>
  A concrete environment on which the hypotheses about the kernel hold: a RAM disk with a
  clock, a one-place channel and switches that make reads or writes fail. It is not a model
  of any code of the crate; it shows that the hypotheses of the theorems can be met and is
  the input at which they are exercised.
\<close>

record sim_world =
  sim_disk :: store
  sim_clock :: nat
  sim_pending :: "flush_signal option"
  sim_fail_read :: bool
  sim_fail_write :: bool
  sim_closed :: "i32 list"
  sim_brk :: nat

definition eio :: io_error where
  "eio = \<lparr>ie_kind = OtherKind ''EIO'', ie_text = ''Input/output error (os error 5)''\<rparr>"

definition ebadf :: io_error where
  "ebadf = \<lparr>ie_kind = OtherKind ''EBADF'', ie_text = ''Bad file descriptor (os error 9)''\<rparr>"

definition sim_pread :: "i32 \<Rightarrow> usize \<Rightarrow> i64 \<Rightarrow> sim_world \<Rightarrow> (io_error + u8 list) \<times> sim_world" where
  "sim_pread fd len off w =
     (if sim_fail_read w then (Inl eio, w)
      else (Inr (load_bytes (sim_disk w) (nat (sint off)) (unat len)), w))"

definition sim_pwrite :: "i32 \<Rightarrow> u8 list \<Rightarrow> i64 \<Rightarrow> sim_world \<Rightarrow> (io_error + nat) \<times> sim_world" where
  "sim_pwrite fd bs off w =
     (if fd \<noteq> 3 \<or> fd \<in> set (sim_closed w) then (Inl ebadf, w)
      else if sim_fail_write w then (Inl eio, w)
      else (Inr (length bs), w\<lparr>sim_disk := store_bytes (sim_disk w) (nat (sint off)) bs\<rparr>))"

definition sim_try_send :: "nat \<Rightarrow> flush_signal \<Rightarrow> sim_world \<Rightarrow> sim_world" where
  "sim_try_send c s w = (if sim_pending w = None then w\<lparr>sim_pending := Some s\<rparr> else w)"

definition sim_recv_timeout ::
  "nat \<Rightarrow> nat \<Rightarrow> sim_world \<Rightarrow> (recv_timeout_error + flush_signal) \<times> sim_world" where
  "sim_recv_timeout c d w =
     (case sim_pending w of None \<Rightarrow> (Inl Timeout, w) | Some s \<Rightarrow> (Inr s, w\<lparr>sim_pending := None\<rparr>))"

definition emfile :: io_error where
  "emfile = \<lparr>ie_kind = OtherKind ''EMFILE'', ie_text = ''Too many open files (os error 24)''\<rparr>"

text \<open>There is one descriptor, 3.\<close>

definition sim_open :: "string \<Rightarrow> open_flags \<Rightarrow> sim_world \<Rightarrow> (io_error + i32) \<times> sim_world" where
  "sim_open p f w =
     (if 3 \<in> set (sim_closed w) then (Inr 3, w\<lparr>sim_closed := removeAll 3 (sim_closed w)\<rparr>)
      else (Inl emfile, w))"

definition sim_opened :: "sim_world \<Rightarrow> i32 set" where
  "sim_opened w = (if 3 \<in> set (sim_closed w) then {} else {3})"

definition sim_env :: "sim_world env" where
  "sim_env = \<lparr>
     env_pread = sim_pread,
     env_pwrite = sim_pwrite,
     env_fsync = (\<lambda>fd w. (Inr (), w)),
     env_open = sim_open,
     env_close = (\<lambda>fd w. w\<lparr>sim_closed := fd # sim_closed w\<rparr>),
     env_exists = (\<lambda>p w. p = ''/dev/sdb''),
     env_metadata = (\<lambda>p w. Inr True),
     env_blkgetsize64 = (\<lambda>fd w. Inr 1048576),
     env_blksszget = (\<lambda>fd w. Inr 512),
     env_read_to_string = (\<lambda>p w. Inr ''SIM''),
     env_alloc_zeroed = (\<lambda>n a w. let p = (sim_brk w + unat a - 1) div unat a * unat a
       in (p, w\<lparr>sim_brk := p + unat n\<rparr>)),
     env_now = (\<lambda>w. (sim_clock w + 1, w\<lparr>sim_clock := sim_clock w + 1\<rparr>)),
     env_try_send = sim_try_send,
     env_recv_timeout = sim_recv_timeout,
     env_bounded1 = (\<lambda>w. (0, w\<lparr>sim_pending := None\<rparr>)),
     env_hash_order = (\<lambda>ks. ks),
     env_erms = True \<rparr>"

text \<open>A fresh world: a zeroed disk of one MiB and an allocator that starts at 16 MiB.\<close>

definition sim_init :: sim_world where
  "sim_init = \<lparr>sim_disk = (\<lambda>_. 0), sim_clock = 0, sim_pending = None,
     sim_fail_read = False, sim_fail_write = False, sim_closed = [], sim_brk = 16777216\<rparr>"

lemmas sim_defs = sim_env_def sim_pread_def sim_pwrite_def sim_try_send_def sim_recv_timeout_def
  sim_open_def

lemma sim_pread_ok: "pread_ok sim_env sim_disk fd"
  by (auto simp: pread_ok_def sim_defs split: if_splits)

lemma sim_pwrite_ok: "pwrite_ok sim_env sim_disk fd"
  by (auto simp: pwrite_ok_def sim_defs split: if_splits)

lemma sim_quiet_ok: "quiet_ok sim_env sim_disk"
  by (auto simp: quiet_ok_def sim_defs Let_def split: option.splits)

lemma sim_hash_ok: "hash_ok sim_env"
  by (simp add: hash_ok_def sim_env_def)

lemma sim_fd_ok: "fd_ok sim_env sim_opened"
  by (auto simp: fd_ok_def sim_defs sim_opened_def split: if_splits option.splits)

lemma sim_env_ok: "env_ok sim_env sim_disk fd"
  by (simp add: env_ok_def sim_pread_ok sim_pwrite_ok sim_quiet_ok sim_hash_ok)

text \<open>The same environment with a device that never fails.\<close>

definition reliable_env :: "sim_world env" where
  "reliable_env = sim_env\<lparr>
     env_pread := (\<lambda>fd len off w.
       (Inr (load_bytes (sim_disk w) (nat (sint off)) (unat len)), w)),
     env_pwrite := (\<lambda>fd bs off w.
       (Inr (length bs), w\<lparr>sim_disk := store_bytes (sim_disk w) (nat (sint off)) bs\<rparr>))\<rparr>"

lemma reliable_env_ok: "env_ok reliable_env sim_disk fd"
proof -
  have "pread_ok reliable_env sim_disk fd"
    by (auto simp: pread_ok_def reliable_env_def)
  moreover have "pwrite_ok reliable_env sim_disk fd"
    by (auto simp: pwrite_ok_def reliable_env_def)
  moreover have "quiet_ok reliable_env sim_disk"
    using sim_quiet_ok by (simp add: quiet_ok_def reliable_env_def)
  moreover have "hash_ok reliable_env"
    using sim_hash_ok by (simp add: hash_ok_def reliable_env_def)
  ultimately show ?thesis by (simp add: env_ok_def)
qed

lemma reliable_pread_live: "pread_live reliable_env fd n"
  by (auto simp: pread_live_def reliable_env_def word_less_nat_alt simp flip: length_greater_0_conv)

lemma reliable_pwrite_live: "pwrite_live reliable_env fd n"
  by (auto simp: pwrite_live_def reliable_env_def)

lemma sim_clock_ok: "clock_ok sim_env sim_clock"
  by (auto simp: clock_ok_def sim_env_def)

end
