(* ===== verification/Memory.thy ===== *)
theory Memory
  imports Sim_Env
begin

text \<open>
  Process memory and the two buffer types of \<open>src/src/memory\<close>: the owning, page-aligned
  \<open>AlignedBuffer\<close> and the borrowed \<open>BlockBuffer\<close>. Memory is a flat byte store; a buffer is
  an address with a size. \<open>debug_assert!\<close> is off in the release profile, so it is no branch
  of an operation; each assertion is proved to hold where the operation is called.
\<close>

section \<open>Raw writes\<close>

text \<open>\<open>ptr::write_bytes\<close> and the zeroing of \<open>alloc_zeroed\<close>.\<close>

definition fill_bytes :: "store \<Rightarrow> nat \<Rightarrow> nat \<Rightarrow> u8 \<Rightarrow> store" where
  "fill_bytes m p n b = (\<lambda>a. if p \<le> a \<and> a < p + n then b else m a)"

lemma load_fill_same [store_simps]: "load_bytes (fill_bytes m p n b) p n = replicate n b"
  by (intro nth_equalityI) (simp_all add: fill_bytes_def)

lemma agree_fill: "agree_outside p n m (fill_bytes m p n b)"
  by (auto simp: agree_outside_def fill_bytes_def)

section \<open>AlignedBuffer\<close>

definition PAGE_ALIGNMENT :: usize where
  "PAGE_ALIGNMENT = 4096"

record aligned_buffer =
  ab_ptr :: nat
  ab_size :: usize
  ab_align :: usize

text \<open>
  \<open>Layout::from_size_align\<close> with a power-of-two alignment refuses a size that, rounded up
  to the alignment, exceeds \<open>isize::MAX\<close>.
\<close>

definition layout_valid :: "usize \<Rightarrow> usize \<Rightarrow> bool" where
  "layout_valid sz al \<longleftrightarrow> unat sz \<le> 2 ^ 63 - unat al"

definition aligned_buffer_new ::
  "'w env \<Rightarrow> usize \<Rightarrow> 'w \<Rightarrow> store \<Rightarrow> aligned_buffer cache_result \<times> 'w \<times> store" where
  "aligned_buffer_new E sz w m =
     (if sz = 0 then (Inl (Allocation ''requested size is zero''), w, m)
      else if \<not> is_multiple_of sz PAGE_ALIGNMENT then
        (Inl (Allocation (''size ('' @ show_word sz @ '') must be a multiple of '' @
           show_word PAGE_ALIGNMENT)), w, m)
      else if \<not> layout_valid sz PAGE_ALIGNMENT then
        (Inl (Allocation ''invalid layout: invalid parameters to Layout::from_size_align''), w, m)
      else (case env_alloc_zeroed E sz PAGE_ALIGNMENT w of (raw, w') \<Rightarrow>
        if raw = 0 then
          (Inl (Allocation (''allocator returned null for '' @ show_word sz @ '' bytes @ '' @
             show_word PAGE_ALIGNMENT @ ''-byte alignment'')), w', m)
        else
          (Inr \<lparr>ab_ptr = raw, ab_size = sz, ab_align = PAGE_ALIGNMENT\<rparr>, w',
           fill_bytes m raw (unat sz) 0)))"

definition aligned_buffer_len :: "aligned_buffer \<Rightarrow> usize" where
  "aligned_buffer_len b = ab_size b"

definition aligned_buffer_is_empty :: "aligned_buffer \<Rightarrow> bool" where
  "aligned_buffer_is_empty b \<longleftrightarrow> ab_size b = 0"

definition aligned_buffer_as_ptr :: "aligned_buffer \<Rightarrow> nat" where
  "aligned_buffer_as_ptr b = ab_ptr b"

definition aligned_buffer_as_mut_ptr :: "aligned_buffer \<Rightarrow> nat" where
  "aligned_buffer_as_mut_ptr b = ab_ptr b"

text \<open>\<open>AsRef<[u8]>\<close>: the bytes of the buffer.\<close>

definition aligned_buffer_as_ref :: "aligned_buffer \<Rightarrow> store \<Rightarrow> u8 list" where
  "aligned_buffer_as_ref b m = load_bytes m (ab_ptr b) (unat (ab_size b))"

text \<open>\<open>AsMut<[u8]>\<close>: the slice, as its address and length, and the loop
  \<open>for (i, byte) in slice.iter_mut().enumerate()\<close> with \<open>k\<close> bytes left from index \<open>i\<close>.\<close>

definition aligned_buffer_as_mut :: "aligned_buffer \<Rightarrow> nat \<times> nat" where
  "aligned_buffer_as_mut b = (ab_ptr b, unat (ab_size b))"

primrec enumerate_loop :: "(nat \<Rightarrow> u8) \<Rightarrow> nat \<Rightarrow> nat \<Rightarrow> nat \<Rightarrow> store \<Rightarrow> store" where
  "enumerate_loop f p i 0 m = m"
| "enumerate_loop f p i (Suc k) m = enumerate_loop f p (Suc i) k (m(p + i := f i))"

definition enumerate_mut :: "(nat \<Rightarrow> u8) \<Rightarrow> nat \<times> nat \<Rightarrow> store \<Rightarrow> store" where
  "enumerate_mut f sl m = enumerate_loop f (fst sl) 0 (snd sl) m"

text \<open>
  \<open>Drop\<close>: the request to the global allocator. \<open>live\<close> are the allocations that have not been
  freed, each with the layout it was made with; \<open>dealloc\<close> of anything else is undefined
  (\<open>None\<close>).
\<close>

definition dealloc :: "nat \<Rightarrow> usize \<Rightarrow> usize \<Rightarrow> (nat \<times> usize \<times> usize) set \<Rightarrow> (nat \<times> usize \<times> usize) set option" where
  "dealloc ptr sz al live = (if (ptr, sz, al) \<in> live then Some (live - {(ptr, sz, al)}) else None)"

definition aligned_buffer_drop :: "aligned_buffer \<Rightarrow> (nat \<times> usize \<times> usize) set \<Rightarrow> (nat \<times> usize \<times> usize) set option" where
  "aligned_buffer_drop b live = dealloc (ab_ptr b) (ab_size b) (ab_align b) live"

text \<open>\<open>alloc_zeroed\<close> returns null or a pointer aligned as the layout asks.\<close>

definition alloc_ok :: "'w env \<Rightarrow> bool" where
  "alloc_ok E \<longleftrightarrow> (\<forall>n a w. unat a dvd fst (env_alloc_zeroed E n a w))"

section \<open>BlockBuffer\<close>

record block_buffer =
  bb_ptr :: nat
  bb_size :: usize

definition block_buffer_from_raw :: "nat \<Rightarrow> usize \<Rightarrow> block_buffer" where
  "block_buffer_from_raw ptr sz = \<lparr>bb_ptr = ptr, bb_size = sz\<rparr>"

text \<open>The two assertions of \<open>from_raw\<close>: the pointer is not null and page-aligned.\<close>

definition from_raw_asserts :: "nat \<Rightarrow> bool" where
  "from_raw_asserts ptr \<longleftrightarrow> ptr \<noteq> 0 \<and> ptr mod unat PAGE_ALIGNMENT = 0"

definition block_buffer_as_ptr :: "block_buffer \<Rightarrow> nat" where
  "block_buffer_as_ptr b = bb_ptr b"

definition block_buffer_as_mut_ptr :: "block_buffer \<Rightarrow> nat" where
  "block_buffer_as_mut_ptr b = bb_ptr b"

definition block_buffer_len :: "block_buffer \<Rightarrow> usize" where
  "block_buffer_len b = bb_size b"

definition block_buffer_is_empty :: "block_buffer \<Rightarrow> bool" where
  "block_buffer_is_empty b \<longleftrightarrow> bb_size b = 0"

definition block_buffer_as_mut :: "block_buffer \<Rightarrow> nat \<times> nat" where
  "block_buffer_as_mut b = (bb_ptr b, unat (bb_size b))"

definition block_buffer_as_ref :: "block_buffer \<Rightarrow> store \<Rightarrow> u8 list" where
  "block_buffer_as_ref b m = load_bytes m (bb_ptr b) (unat (bb_size b))"

definition block_buffer_clear :: "block_buffer \<Rightarrow> store \<Rightarrow> store" where
  "block_buffer_clear b m = fill_bytes m (bb_ptr b) (unat (bb_size b)) 0"

text \<open>The \<open>Debug\<close> text, with the pointer in hexadecimal.\<close>

fun show_hex :: "nat \<Rightarrow> string" where
  "show_hex n =
     (if n < 16 then [''0123456789abcdef'' ! n] else show_hex (n div 16) @ [''0123456789abcdef'' ! (n mod 16)])"

declare show_hex.simps [simp del]

definition block_buffer_debug :: "block_buffer \<Rightarrow> string" where
  "block_buffer_debug b = ''BlockBuffer { ptr: 0x'' @ show_hex (bb_ptr b) @ '', size: '' @ show_word (bb_size b) @ '' }''"

section \<open>Facts\<close>

lemma show_hex_ne: "show_hex n \<noteq> []"
  by (subst show_hex.simps) simp

lemma unat_PAGE_ALIGNMENT [simp]: "unat PAGE_ALIGNMENT = 4096"
  by (simp add: PAGE_ALIGNMENT_def)

lemma aligned_buffer_new_Inr:
  assumes "aligned_buffer_new E sz w m = (Inr b, w', m')"
  shows "ab_size b = sz" "ab_ptr b \<noteq> 0" "sz \<noteq> 0" "4096 dvd unat sz" "unat sz \<le> 2 ^ 63 - 4096"
    "env_alloc_zeroed E sz PAGE_ALIGNMENT w = (ab_ptr b, w')"
    "m' = fill_bytes m (ab_ptr b) (unat sz) 0"
  using assms
  by (auto simp: aligned_buffer_new_def is_multiple_of_dvd layout_valid_def
      split: if_splits prod.splits)

lemma enumerate_loop_store: "enumerate_loop f p i k m = store_bytes m (p + i) (map f [i..<i + k])"
proof (induction k arbitrary: i m)
  case 0
  then show ?case by simp
next
  case (Suc k)
  have "m(p + i := f i) = store_bytes m (p + i) [f i]"
    by (auto simp: store_bytes_def fun_eq_iff)
  then show ?case
    using store_append [of m "p + i" "[f i]"] upt_conv_Cons [of i "i + Suc k"] by (simp add: Suc.IH del: upt_Suc)
qed

lemma enumerate_mut_store: "enumerate_mut f (p, n) m = store_bytes m p (map f [0..<n])"
  by (simp add: enumerate_mut_def enumerate_loop_store)

text \<open>What is written through \<open>as_mut\<close> is what \<open>as_ref\<close> shows, for both buffer types.\<close>

lemma as_mut_as_ref:
  "aligned_buffer_as_ref b (enumerate_mut f (aligned_buffer_as_mut b) m) = map f [0..<unat (aligned_buffer_len b)]"
  "block_buffer_as_ref c (enumerate_mut f (block_buffer_as_mut c) m) = map f [0..<unat (block_buffer_len c)]"
  by (simp_all add: load_store_same aligned_buffer_as_ref_def aligned_buffer_as_mut_def aligned_buffer_len_def
      block_buffer_as_ref_def block_buffer_as_mut_def block_buffer_len_def enumerate_mut_store)

text \<open>
  A buffer is freed with exactly the layout it was allocated with, which gives the allocator
  back what it had before; freeing it a second time would be undefined.
\<close>

lemma aligned_buffer_drop_frees:
  assumes "aligned_buffer_new E sz w m = (Inr b, w', m')"
    and "(ab_ptr b, sz, PAGE_ALIGNMENT) \<notin> live"
  shows "aligned_buffer_drop b (insert (fst (env_alloc_zeroed E sz PAGE_ALIGNMENT w), sz, PAGE_ALIGNMENT) live) = Some live"
    "aligned_buffer_drop b live = None"
proof -
  have "ab_align b = PAGE_ALIGNMENT"
    using assms(1) by (auto simp: aligned_buffer_new_def split: if_splits prod.splits)
  then show "aligned_buffer_drop b (insert (fst (env_alloc_zeroed E sz PAGE_ALIGNMENT w), sz, PAGE_ALIGNMENT) live) = Some live"
    "aligned_buffer_drop b live = None"
    using aligned_buffer_new_Inr [OF assms(1)] assms(2) by (simp_all add: aligned_buffer_drop_def dealloc_def)
qed

text \<open>
  \<open>AlignedBuffer::new\<close> is all or nothing. Whenever it succeeds, the size was a non-zero
  multiple of the page size that a layout accepts, the buffer has exactly that size, its
  address is non-null and page-aligned, every byte of it reads zero and no byte outside it
  changed; whenever it fails, the error is an \<open>Allocation\<close> error and memory is as before.
\<close>

theorem aligned_buffer_new_spec:
  assumes "alloc_ok E"
  shows "case aligned_buffer_new E sz w m of
           (Inr b, w', m') \<Rightarrow>
             sz \<noteq> 0 \<and> 4096 dvd unat sz \<and> aligned_buffer_len b = sz \<and> \<not> aligned_buffer_is_empty b \<and>
             ab_ptr b \<noteq> 0 \<and> ab_ptr b mod 4096 = 0 \<and>
             aligned_buffer_as_ref b m' = replicate (unat sz) 0 \<and>
             agree_outside (ab_ptr b) (unat sz) m m'
         | (Inl e, w', m') \<Rightarrow> m' = m \<and> get_error_code e = ''E0004''"
proof (cases "aligned_buffer_new E sz w m")
  case (fields r w' m')
  show ?thesis
  proof (cases r)
    case (Inl e)
    then show ?thesis
      using fields by (auto simp: aligned_buffer_new_def split: if_splits prod.splits)
  next
    case (Inr b)
    note facts = aligned_buffer_new_Inr [OF fields [unfolded Inr]]
    have "ab_ptr b mod 4096 = 0"
      using assms [unfolded alloc_ok_def, rule_format, of PAGE_ALIGNMENT sz w] facts(6)
      by (simp add: mod_eq_0_iff_dvd)
    then show ?thesis
      using facts by (simp add: fields Inr aligned_buffer_len_def aligned_buffer_is_empty_def
          aligned_buffer_as_ref_def load_fill_same agree_fill)
  qed
qed

lemma sim_alloc_ok: "alloc_ok sim_env"
  by (auto simp: alloc_ok_def sim_env_def Let_def)

theorem aligned_buffer_new_spec_witness:
  "alloc_ok sim_env \<and>
   (case aligned_buffer_new sim_env 8192 sim_init (\<lambda>_. 7) of
      (Inr b, w', m') \<Rightarrow> ab_ptr b mod 4096 = 0 \<and> aligned_buffer_as_ref b m' = replicate 8192 0
    | (Inl e, w', m') \<Rightarrow> False)"
proof -
  have "aligned_buffer_new sim_env 8192 sim_init (\<lambda>_. 7) =
    (Inr \<lparr>ab_ptr = 16777216, ab_size = 8192, ab_align = 4096\<rparr>, sim_init\<lparr>sim_brk := 16785408\<rparr>,
     fill_bytes (\<lambda>_. 7) 16777216 8192 0)"
    by (simp add: aligned_buffer_new_def is_multiple_of_def PAGE_ALIGNMENT_def layout_valid_def
        sim_env_def sim_init_def Let_def)
  then show ?thesis
    using sim_alloc_ok aligned_buffer_new_spec [OF sim_alloc_ok, where sz = 8192
        and w = sim_init and m = "\<lambda>_. 7"] by simp
qed

end
