(* ===== verification/Pool.thy ===== *)
theory Pool
  imports Memory
begin

text \<open>
  The fixed-capacity memory pool of \<open>src/src/memory/pool.rs\<close>: one page-aligned region cut
  into equal blocks, with a stack of free indices. The contract its client (the read and
  write paths) relies on is the locale \<open>slot_pool\<close>, interpreted on \<open>allocate\<close> and
  \<open>deallocate\<close>. The mutex around the free-list makes each method one atomic step.
\<close>

section \<open>State and operations\<close>

record memory_pool =
  mp_backing :: aligned_buffer
  mp_base_ptr :: nat
  mp_block_size :: usize
  mp_capacity :: usize
  mp_free_list :: "usize list"

definition pool_new ::
  "'w env \<Rightarrow> usize \<Rightarrow> usize \<Rightarrow> 'w \<Rightarrow> store \<Rightarrow> memory_pool cache_result \<times> 'w \<times> store" where
  "pool_new E total_size block_size w m =
     (if block_size = 0 \<or> \<not> is_multiple_of block_size PAGE_ALIGNMENT then
        (Inl (config_err (''block_size ('' @ show_word block_size @
           '') must be a non-zero multiple of '' @ show_word PAGE_ALIGNMENT)), w, m)
      else if total_size = 0 \<or> \<not> is_multiple_of total_size block_size then
        (Inl (config_err (''total_size ('' @ show_word total_size @
           '') must be a non-zero multiple of block_size ('' @ show_word block_size @ '')'')), w, m)
      else
        (let capacity = total_size div block_size
         in case aligned_buffer_new E total_size w m of
              (Inl e, w', m') \<Rightarrow> (Inl e, w', m')
            | (Inr backing, w', m') \<Rightarrow>
                (Inr \<lparr>mp_backing = backing, mp_base_ptr = ab_ptr backing,
                      mp_block_size = block_size, mp_capacity = capacity,
                      mp_free_list = map of_nat [0..<unat capacity]\<rparr>, w', m')))"

text \<open>\<open>base_ptr.add(index * block_size)\<close>; the product is a \<open>usize\<close> and may wrap.\<close>

definition buffer_for_index :: "memory_pool \<Rightarrow> usize \<Rightarrow> block_buffer" where
  "buffer_for_index P index =
     (let offset = index * mp_block_size P
      in block_buffer_from_raw (mp_base_ptr P + unat offset) (mp_block_size P))"

definition pool_allocate :: "memory_pool \<Rightarrow> (usize \<times> block_buffer) cache_result \<times> memory_pool" where
  "pool_allocate P =
     (if mp_free_list P = [] then (Inl (PoolExhausted (mp_capacity P) (mp_capacity P)), P)
      else
        (let index = last (mp_free_list P)
         in (Inr (index, buffer_for_index P index), P\<lparr>mp_free_list := butlast (mp_free_list P)\<rparr>)))"

definition pool_deallocate :: "memory_pool \<Rightarrow> usize \<Rightarrow> memory_pool" where
  "pool_deallocate P index = P\<lparr>mp_free_list := mp_free_list P @ [index]\<rparr>"

definition get_block :: "memory_pool \<Rightarrow> usize \<Rightarrow> block_buffer" where
  "get_block P index = buffer_for_index P index"

definition free_count :: "memory_pool \<Rightarrow> usize" where
  "free_count P = of_nat (length (mp_free_list P))"

definition used_count :: "memory_pool \<Rightarrow> usize" where
  "used_count P = mp_capacity P - free_count P"

definition pool_capacity :: "memory_pool \<Rightarrow> usize" where
  "pool_capacity P = mp_capacity P"

definition pool_block_size :: "memory_pool \<Rightarrow> usize" where
  "pool_block_size P = mp_block_size P"

definition pool_base_ptr :: "memory_pool \<Rightarrow> nat" where
  "pool_base_ptr P = mp_base_ptr P"

text \<open>The assertion in \<open>deallocate\<close> and \<open>get_block\<close>.\<close>

definition index_assert :: "memory_pool \<Rightarrow> usize \<Rightarrow> bool" where
  "index_assert P index \<longleftrightarrow> index < mp_capacity P"

section \<open>Invariant\<close>

definition pool_size :: "memory_pool \<Rightarrow> nat" where
  "pool_size P = unat (mp_capacity P) * unat (mp_block_size P)"

definition pool_shape :: "memory_pool \<Rightarrow> bool" where
  "pool_shape P \<longleftrightarrow>
     mp_block_size P \<noteq> 0 \<and> 4096 dvd unat (mp_block_size P) \<and>
     mp_capacity P \<noteq> 0 \<and> pool_size P < 2 ^ 63 \<and>
     mp_base_ptr P \<noteq> 0 \<and> 4096 dvd mp_base_ptr P"

definition pool_inv :: "memory_pool \<Rightarrow> bool" where
  "pool_inv P \<longleftrightarrow> pool_shape P \<and> distinct (mp_free_list P) \<and>
     (\<forall>i \<in> set (mp_free_list P). i < mp_capacity P)"

text \<open>Address of a block and the bytes in it.\<close>

definition block_addr :: "memory_pool \<Rightarrow> usize \<Rightarrow> nat" where
  "block_addr P i = mp_base_ptr P + unat i * unat (mp_block_size P)"

definition block_data :: "memory_pool \<Rightarrow> store \<Rightarrow> usize \<Rightarrow> u8 list" where
  "block_data P m i = load_bytes m (block_addr P i) (unat (mp_block_size P))"

section \<open>The slot contract\<close>

text \<open>Taking \<open>n\<close> slots in a row.\<close>

fun take_many :: "('p \<Rightarrow> ('i \<times> 'p) option) \<Rightarrow> nat \<Rightarrow> 'p \<Rightarrow> ('i list \<times> 'p) option" where
  "take_many take_slot 0 p = Some ([], p)"
| "take_many take_slot (Suc n) p =
     (case take_slot p of None \<Rightarrow> None
      | Some (i, p') \<Rightarrow> map_option (\<lambda>(is, q). (i # is, q)) (take_many take_slot n p'))"

text \<open>
  What a client of a pool of slots may rely on, with the set of free slots as the
  abstraction: taking removes one free slot and fails only when there is none, giving a
  slot back makes it free again, and neither changes which slots exist.
\<close>

locale slot_pool =
  fixes inv :: "'p \<Rightarrow> bool"
    and slots :: "'p \<Rightarrow> 'i set"
    and free :: "'p \<Rightarrow> 'i set"
    and take_slot :: "'p \<Rightarrow> ('i \<times> 'p) option"
    and give_slot :: "'i \<Rightarrow> 'p \<Rightarrow> 'p"
  assumes slots_finite: "finite (slots p)"
    and free_slots: "inv p \<Longrightarrow> free p \<subseteq> slots p"
    and take_None: "inv p \<Longrightarrow> take_slot p = None \<longleftrightarrow> free p = {}"
    and take_Some: "inv p \<Longrightarrow> take_slot p = Some (i, p') \<Longrightarrow>
      i \<in> free p \<and> free p' = free p - {i} \<and> slots p' = slots p \<and> inv p'"
    and give_ok: "inv p \<Longrightarrow> i \<in> slots p \<Longrightarrow> i \<notin> free p \<Longrightarrow>
      inv (give_slot i p) \<and> free (give_slot i p) = insert i (free p) \<and> slots (give_slot i p) = slots p"
begin

lemma take_many_Some:
  "inv p \<Longrightarrow> take_many take_slot n p = Some (is, q) \<Longrightarrow>
   length is = n \<and> distinct is \<and> set is \<subseteq> free p \<and> free q = free p - set is \<and>
   slots q = slots p \<and> inv q"
proof (induction n arbitrary: p "is" q)
  case 0
  then show ?case by simp
next
  case (Suc n)
  from Suc.prems(2) obtain i p' js where
    t: "take_slot p = Some (i, p')" "take_many take_slot n p' = Some (js, q)" "is = i # js"
    by (auto split: option.splits)
  note s = take_Some [OF Suc.prems(1) t(1)]
  from s have "inv p'" by simp
  from Suc.IH [OF this t(2)] s t(3) show ?case by auto
qed

lemma take_many_possible: "inv p \<Longrightarrow> n \<le> card (free p) \<Longrightarrow> \<exists>is q. take_many take_slot n p = Some (is, q)"
proof (induction n arbitrary: p)
  case 0
  then show ?case by simp
next
  case (Suc n)
  have fin: "finite (free p)"
    using free_slots [OF Suc.prems(1)] slots_finite finite_subset by blast
  from Suc.prems(2) have "free p \<noteq> {}" by auto
  with take_None [OF Suc.prems(1)] obtain i p' where t: "take_slot p = Some (i, p')" by fastforce
  note s = take_Some [OF Suc.prems(1) t]
  with Suc.prems(2) fin have "n \<le> card (free p')" by simp
  with Suc.IH [of p'] s obtain "is" q where "take_many take_slot n p' = Some (is, q)" by blast
  with t show ?case by simp
qed

text \<open>Exactly as many slots as are free can be taken, and they are all different.\<close>

lemma take_many_iff: "inv p \<Longrightarrow> (\<exists>is q. take_many take_slot n p = Some (is, q)) \<longleftrightarrow> n \<le> card (free p)"
proof
  assume inv: "inv p" and "\<exists>is q. take_many take_slot n p = Some (is, q)"
  then obtain "is" q where t: "take_many take_slot n p = Some (is, q)" by blast
  note s = take_many_Some [OF inv t]
  have "finite (free p)"
    using free_slots [OF inv] slots_finite finite_subset by blast
  with s show "n \<le> card (free p)"
    by (metis card_mono distinct_card)
qed (rule take_many_possible)

text \<open>A slot just given back can be taken, whatever the pool held before.\<close>

lemma give_then_take:
  assumes "inv p" "i \<in> slots p" "i \<notin> free p"
  shows "\<exists>j p'. take_slot (give_slot i p) = Some (j, p') \<and> inv p' \<and> slots p' = slots p \<and>
    j \<in> insert i (free p) \<and> free p' = insert i (free p) - {j}"
proof -
  note g = give_ok [OF assms]
  then obtain j p' where t: "take_slot (give_slot i p) = Some (j, p')"
    using take_None by fastforce
  with take_Some [OF _ t] g show ?thesis by auto
qed

end

section \<open>The pool meets it\<close>

definition pool_slots :: "memory_pool \<Rightarrow> usize set" where
  "pool_slots P = {i. i < mp_capacity P}"

definition pool_free :: "memory_pool \<Rightarrow> usize set" where
  "pool_free P = set (mp_free_list P)"

text \<open>\<open>allocate().ok()\<close> without the buffer handle.\<close>

definition pool_take :: "memory_pool \<Rightarrow> (usize \<times> memory_pool) option" where
  "pool_take P = (case pool_allocate P of (Inl _, _) \<Rightarrow> None | (Inr (i, _), P') \<Rightarrow> Some (i, P'))"

lemma pool_shape_free_list [simp]: "pool_shape (P\<lparr>mp_free_list := fl\<rparr>) = pool_shape P"
  by (simp add: pool_shape_def pool_size_def)

interpretation mp: slot_pool pool_inv pool_slots pool_free pool_take "\<lambda>i P. pool_deallocate P i"
proof (unfold_locales, goal_cases)
  case (1 p)
  then show ?case by simp
next
  case (2 p)
  then show ?case by (auto simp: pool_inv_def pool_free_def pool_slots_def)
next
  case (3 p)
  then show ?case by (simp add: pool_take_def pool_allocate_def pool_free_def Let_def)
next
  case (4 p i p')
  then show ?case
    using distinct_butlast_last [of "mp_free_list p"] set_butlast_last [of "mp_free_list p"]
    by (auto simp: pool_take_def pool_allocate_def pool_free_def pool_slots_def pool_inv_def
        Let_def distinct_butlast split: if_splits)
next
  case (5 p i)
  then show ?case by (auto simp: pool_deallocate_def pool_inv_def pool_free_def pool_slots_def)
qed

section \<open>Addresses\<close>

lemma pool_shapeD:
  assumes "pool_shape P"
  shows "0 < unat (mp_block_size P)" "4096 dvd unat (mp_block_size P)" "4096 dvd mp_base_ptr P"
    "0 < unat (mp_capacity P)" "pool_size P < 2 ^ 63"
  using assms unat_gt_0 [of "mp_block_size P"] unat_gt_0 [of "mp_capacity P"]
  by (auto simp: pool_shape_def)

lemma block_offset_bound:
  assumes "i < mp_capacity P"
  shows "unat i * unat (mp_block_size P) + unat (mp_block_size P) \<le> pool_size P"
proof -
  have "Suc (unat i) \<le> unat (mp_capacity P)"
    using assms by (simp add: word_less_nat_alt)
  then have "Suc (unat i) * unat (mp_block_size P) \<le> pool_size P"
    unfolding pool_size_def by (rule mult_le_mono1)
  then show ?thesis by simp
qed

lemma buffer_for_index_eq:
  assumes "pool_shape P" "i < mp_capacity P"
  shows "buffer_for_index P i = \<lparr>bb_ptr = block_addr P i, bb_size = mp_block_size P\<rparr>"
proof -
  have "unat i * unat (mp_block_size P) < 2 ^ 64"
    using block_offset_bound [OF assms(2)] pool_shapeD(5) [OF assms(1)] by simp
  then show ?thesis
    by (simp add: buffer_for_index_def block_buffer_from_raw_def block_addr_def unat_mult_no_wrap)
qed

lemma get_block_eq:
  "pool_shape P \<Longrightarrow> i < mp_capacity P \<Longrightarrow>
   get_block P i = \<lparr>bb_ptr = block_addr P i, bb_size = mp_block_size P\<rparr>"
  by (simp add: get_block_def buffer_for_index_eq)

lemma block_addr_aligned: "pool_shape P \<Longrightarrow> 4096 dvd block_addr P i"
  by (simp add: block_addr_def pool_shape_def)

lemma block_addr_disjoint:
  "i \<noteq> j \<Longrightarrow> disjoint_ranges (block_addr P i) (unat (mp_block_size P))
     (block_addr P j) (unat (mp_block_size P))"
  unfolding block_addr_def by (rule blocks_disjoint) (simp add: word_unat_eq_iff)

lemma block_addr_range:
  assumes "i < mp_capacity P"
  shows "mp_base_ptr P \<le> block_addr P i"
    "block_addr P i + unat (mp_block_size P) \<le> mp_base_ptr P + pool_size P"
  using block_offset_bound [OF assms] by (simp_all add: block_addr_def)

lemma length_block_data [simp]: "length (block_data P m i) = unat (mp_block_size P)"
  by (simp add: block_data_def)

lemma block_data_free_list [simp]: "block_data (P\<lparr>mp_free_list := fl\<rparr>) = block_data P"
  by (simp add: block_data_def block_addr_def fun_eq_iff)

lemma block_data_store_same [store_simps]:
  "length bs = unat (mp_block_size P) \<Longrightarrow> block_data P (store_bytes m (block_addr P i) bs) i = bs"
  by (simp add: block_data_def load_store_same)

lemma block_data_store_other [store_simps]:
  "i \<noteq> j \<Longrightarrow> length bs = unat (mp_block_size P) \<Longrightarrow>
   block_data P (store_bytes m (block_addr P j) bs) i = block_data P m i"
  by (simp add: block_data_def load_store_disjoint block_addr_disjoint)

lemma block_data_outside:
  assumes "agree_outside p n m m'" "disjoint_ranges p n (mp_base_ptr P) (pool_size P)"
    "i < mp_capacity P"
  shows "block_data P m' i = block_data P m i"
proof -
  have "disjoint_ranges (block_addr P i) (unat (mp_block_size P)) p n"
    using assms(2) block_addr_range [OF assms(3)] by (auto simp: disjoint_ranges_def)
  with assms(1) show ?thesis
    unfolding block_data_def by (rule load_agree)
qed

section \<open>Properties\<close>

lemma pool_new_Inr:
  assumes "pool_new E tot bs w m = (Inr P, w', m')"
  shows "mp_block_size P = bs" "mp_capacity P = tot div bs" "bs \<noteq> 0" "4096 dvd unat bs"
    "tot \<noteq> 0" "unat bs dvd unat tot" "mp_base_ptr P = ab_ptr (mp_backing P)"
    "mp_free_list P = map of_nat [0..<unat (tot div bs)]"
    "aligned_buffer_new E tot w m = (Inr (mp_backing P), w', m')"
  using assms
  by (auto simp: pool_new_def is_multiple_of_dvd Let_def split: if_splits prod.splits sum.splits)

lemma index_list_distinct: "n \<le> 2 ^ 64 \<Longrightarrow> distinct (map of_nat [0..<n] :: usize list)"
  by (auto simp: distinct_map inj_on_def word_unat_eq_iff unat_of_nat)

lemma index_list_set:
  "set (map of_nat [0..<unat c] :: usize list) = {i. i < c}"
proof -
  have "x \<in> of_nat ` {0..<unat c}" if "x < c" for x :: usize
    using that by (intro image_eqI [of _ _ "unat x"]) (simp_all add: word_less_nat_alt)
  then show ?thesis using of_nat_less_word by auto
qed

lemma pool_new_inv:
  assumes "alloc_ok E" "pool_new E tot bs w m = (Inr P, w', m')"
  shows "pool_inv P" "pool_size P = unat tot" "pool_free P = pool_slots P"
proof -
  note n = pool_new_Inr [OF assms(2)]
  note a = aligned_buffer_new_Inr [OF n(9)]
  show size: "pool_size P = unat tot"
    using n(6) by (simp add: pool_size_def n(1,2) unat_div)
  have "4096 dvd mp_base_ptr P"
    using assms(1) [unfolded alloc_ok_def, rule_format, of PAGE_ALIGNMENT tot w] a(6)
    by (simp add: n(7))
  moreover have "mp_capacity P \<noteq> 0"
  proof
    assume "mp_capacity P = 0"
    with size have "unat tot = 0" by (simp add: pool_size_def)
    with n(5) show False by (simp add: unat_eq_0)
  qed
  ultimately have "pool_shape P"
    using n a size by (simp add: pool_shape_def)
  moreover have "distinct (mp_free_list P)"
    unfolding n(8) by (rule index_list_distinct) (use unat_lt_2_64 [of "tot div bs"] in simp)
  ultimately show "pool_inv P"
    unfolding pool_inv_def n(2,8) index_list_set by simp
  show "pool_free P = pool_slots P"
    unfolding pool_free_def pool_slots_def n(2,8) index_list_set ..
qed

lemma card_pool_slots: "card (pool_slots P) = unat (mp_capacity P)"
proof -
  let ?l = "map of_nat [0..<unat (mp_capacity P)] :: usize list"
  have "card (set ?l) = length ?l"
    by (rule distinct_card, rule index_list_distinct) (use unat_lt_2_64 in \<open>simp add: less_imp_le\<close>)
  then show ?thesis
    unfolding index_list_set by (simp add: pool_slots_def)
qed

lemma free_list_length:
  assumes "pool_inv P"
  shows "length (mp_free_list P) = card (pool_free P)" "length (mp_free_list P) \<le> unat (mp_capacity P)"
proof -
  show len: "length (mp_free_list P) = card (pool_free P)"
    using assms by (simp add: pool_inv_def pool_free_def distinct_card)
  have "card (pool_free P) \<le> card (pool_slots P)"
    by (rule card_mono [OF mp.slots_finite mp.free_slots [OF assms]])
  then show "length (mp_free_list P) \<le> unat (mp_capacity P)"
    by (simp add: len card_pool_slots)
qed

lemma unat_free_count: "pool_inv P \<Longrightarrow> unat (free_count P) = length (mp_free_list P)"
  using free_list_length(2) [of P] unat_lt_2_64 [of "mp_capacity P"]
  by (simp add: free_count_def unat_of_nat_small)

lemma pool_allocate_cases:
  assumes "pool_inv P"
  obtains (full) "mp_free_list P = []" "pool_free P = {}"
      "pool_allocate P = (Inl (PoolExhausted (mp_capacity P) (mp_capacity P)), P)"
  | (slot) i fl where "mp_free_list P = fl @ [i]" "i < mp_capacity P"
      "pool_allocate P = (Inr (i, \<lparr>bb_ptr = block_addr P i, bb_size = mp_block_size P\<rparr>),
         P\<lparr>mp_free_list := fl\<rparr>)"
proof (cases "mp_free_list P" rule: rev_cases)
  case Nil
  then show ?thesis
    by (intro full) (simp_all add: pool_free_def pool_allocate_def)
next
  case (snoc fl i)
  then show ?thesis
    using assms by (intro slot) (simp_all add: pool_inv_def pool_allocate_def buffer_for_index_eq)
qed

lemma sample_pool_new:
  "\<exists>P w' m'. pool_new sim_env 8192 4096 sim_init (\<lambda>_. 7) = (Inr P, w', m') \<and> mp_capacity P = 2 \<and> mp_block_size P = 4096"
  by (simp add: pool_new_def aligned_buffer_new_def is_multiple_of_dvd PAGE_ALIGNMENT_def layout_valid_def
      sim_env_def sim_init_def Let_def)

text \<open>
  \<open>MemoryPool::new\<close>: a pool that is built satisfies the pool invariant, its blocks fill
  the requested size exactly, all of them are free and read zero; a pool that is refused
  leaves memory alone, with a configuration error exactly when a size is zero or not the
  required multiple and an allocation error otherwise.
\<close>

theorem pool_new_spec:
  assumes "alloc_ok E"
  shows "case pool_new E tot bs w m of
      (Inr P, w', m') \<Rightarrow>
        pool_inv P \<and> unat (mp_capacity P) * unat bs = unat tot \<and>
        free_count P = mp_capacity P \<and> used_count P = 0 \<and>
        (\<forall>i < mp_capacity P. block_data P m' i = replicate (unat bs) 0)
    | (Inl e, w', m') \<Rightarrow>
        m' = m \<and>
        get_error_code e =
          (if bs = 0 \<or> \<not> 4096 dvd unat bs \<or> tot = 0 \<or> \<not> unat bs dvd unat tot
           then ''E0001'' else ''E0004'')"
proof (cases "pool_new E tot bs w m")
  case (fields r w' m')
  show ?thesis
  proof (cases r)
    case (Inl e)
    have "e \<in> range Allocation \<and> m' = m" if "aligned_buffer_new E tot w m = (Inl e, w', m')"
      using that by (auto simp: aligned_buffer_new_def split: if_splits prod.splits)
    then show ?thesis
      using fields Inl
      by (auto simp: pool_new_def config_err_def is_multiple_of_dvd Let_def
          split: if_splits prod.splits sum.splits)
  next
    case (Inr P)
    note n = fields [unfolded Inr]
    note facts = pool_new_Inr [OF n] and inv = pool_new_inv [OF assms n]
    have "length (mp_free_list P) = unat (mp_capacity P)"
      by (simp add: facts)
    then have fc: "free_count P = mp_capacity P"
      by (simp add: free_count_def)
    have zero: "block_data P m' i = replicate (unat bs) 0" if "i < mp_capacity P" for i
    proof (rule nth_equalityI)
      fix k assume "k < length (block_data P m' i)"
      then show "block_data P m' i ! k = replicate (unat bs) 0 ! k"
        using block_addr_range [OF that] inv(2) facts(1,7) aligned_buffer_new_Inr(7) [OF facts(9)]
        by (simp add: block_data_def fill_bytes_def)
    qed (simp add: facts)
    show ?thesis
      using inv fc zero facts(1) by (simp add: n used_count_def pool_size_def)
  qed
qed

theorem pool_new_spec_witness:
  "alloc_ok sim_env \<and>
   (case pool_new sim_env 8192 4096 sim_init (\<lambda>_. 7) of
      (Inr P, w', m') \<Rightarrow> pool_inv P \<and> mp_capacity P = 2 \<and> block_data P m' 1 = replicate 4096 0
    | (Inl e, w', m') \<Rightarrow> False)"
proof -
  obtain P w' m' where p: "pool_new sim_env 8192 4096 sim_init (\<lambda>_. 7) = (Inr P, w', m')" "mp_capacity P = 2"
    using sample_pool_new by blast
  then show ?thesis
    using sim_alloc_ok pool_new_spec [OF sim_alloc_ok, where tot = 8192 and bs = 4096 and w = sim_init and m = "\<lambda>_. 7"]
    by simp
qed

text \<open>
  C24. A fresh pool of \<open>n\<close> blocks serves exactly \<open>n\<close> allocations: any number up to the
  capacity succeeds with pairwise different indices below the capacity, and after the last
  one \<open>allocate\<close> answers \<open>PoolExhausted\<close> with the capacity in both fields.
\<close>

theorem pool_serves_capacity:
  assumes "alloc_ok E" "pool_new E tot bs w m = (Inr P, w', m')"
  shows "((\<exists>is Q. take_many pool_take n P = Some (is, Q)) \<longleftrightarrow> n \<le> unat (mp_capacity P)) \<and>
    (\<forall>is Q. take_many pool_take n P = Some (is, Q) \<longrightarrow>
       length is = n \<and> distinct is \<and> (\<forall>i \<in> set is. i < mp_capacity P) \<and>
       (n = unat (mp_capacity P) \<longrightarrow>
          pool_allocate Q = (Inl (PoolExhausted (mp_capacity Q) (mp_capacity Q)), Q)))"
proof (intro conjI allI impI, goal_cases)
  case 1
  note inv = pool_new_inv [OF assms]
  show ?case
    using mp.take_many_iff [OF inv(1), of n] by (simp add: inv(3) card_pool_slots)
next
  case (2 "is" Q)
  show ?case using mp.take_many_Some [OF pool_new_inv(1) [OF assms] 2] by simp
next
  case (3 "is" Q)
  show ?case using mp.take_many_Some [OF pool_new_inv(1) [OF assms] 3] by simp
next
  case (4 "is" Q)
  show ?case
    using mp.take_many_Some [OF pool_new_inv(1) [OF assms] 4] pool_new_inv(3) [OF assms]
    by (auto simp: pool_slots_def)
next
  case (5 "is" Q)
  note inv = pool_new_inv [OF assms]
  note t = mp.take_many_Some [OF inv(1) 5(1)]
  have "pool_free P = set is"
    using t inv(3) 5(2)
    by (metis card_pool_slots card_subset_eq distinct_card mp.slots_finite)
  with t have "pool_free Q = {}" by simp
  then show ?case
    by (simp add: pool_free_def pool_allocate_def)
qed

theorem pool_serves_capacity_witness:
  "\<exists>P w' m'. pool_new sim_env 8192 4096 sim_init (\<lambda>_. 7) = (Inr P, w', m') \<and>
     (\<exists>is Q. take_many pool_take 2 P = Some (is, Q)) \<and> \<not> (\<exists>is Q. take_many pool_take 3 P = Some (is, Q))"
proof -
  obtain P w' m' where p: "pool_new sim_env 8192 4096 sim_init (\<lambda>_. 7) = (Inr P, w', m')" "mp_capacity P = 2"
    using sample_pool_new by blast
  show ?thesis
    using p pool_serves_capacity [OF sim_alloc_ok p(1), of 2] pool_serves_capacity [OF sim_alloc_ok p(1), of 3]
    by auto
qed

text \<open>
  Blocks of a pool never alias: for any two different indices below the capacity the
  handles \<open>get_block\<close> hands out are page-aligned, non-null, inside the backing region and
  share no byte, so a store through one is invisible through the other.
\<close>

theorem pool_blocks_separate:
  assumes "pool_inv P" "i < mp_capacity P" "j < mp_capacity P" "i \<noteq> j"
    and "length bs = unat (mp_block_size P)"
  shows "from_raw_asserts (bb_ptr (get_block P i)) \<and>
    mp_base_ptr P \<le> bb_ptr (get_block P i) \<and>
    bb_ptr (get_block P i) + unat (bb_size (get_block P i)) \<le> mp_base_ptr P + pool_size P \<and>
    disjoint_ranges (bb_ptr (get_block P i)) (unat (bb_size (get_block P i)))
      (bb_ptr (get_block P j)) (unat (bb_size (get_block P j))) \<and>
    block_buffer_as_ref (get_block P i) (store_bytes m (bb_ptr (get_block P j)) bs) =
      block_buffer_as_ref (get_block P i) m"
proof -
  have shape: "pool_shape P" using assms(1) by (simp add: pool_inv_def)
  have "mp_base_ptr P \<noteq> 0" using shape by (simp add: pool_shape_def)
  then show ?thesis
    using block_addr_range [OF assms(2)] block_addr_disjoint [OF assms(4), of P]
      block_addr_aligned [OF shape, of i] assms(5)
    by (simp add: get_block_eq shape assms(2,3) from_raw_asserts_def block_buffer_as_ref_def
        load_store_disjoint mod_eq_0_iff_dvd)
qed

theorem pool_blocks_separate_witness:
  "\<exists>P w' m'. pool_new sim_env 8192 4096 sim_init (\<lambda>_. 7) = (Inr P, w', m') \<and>
     block_buffer_as_ref (get_block P 0) (store_bytes m' (bb_ptr (get_block P 1)) (replicate 4096 5)) =
       block_buffer_as_ref (get_block P 0) m'"
proof -
  obtain P w' m' where p: "pool_new sim_env 8192 4096 sim_init (\<lambda>_. 7) = (Inr P, w', m')" "mp_capacity P = 2"
    "mp_block_size P = 4096"
    using sample_pool_new by blast
  show ?thesis
    using p pool_blocks_separate [OF pool_new_inv(1) [OF sim_alloc_ok p(1)], of 0 1 "replicate 4096 5" m'] by auto
qed

end
