(* ===== verification/Lba_Table.thy ===== *)
theory Lba_Table
  imports Sim_Env
begin

text \<open>
  Cache entries (\<open>src/src/cache/entry.rs\<close>) and the LBA lookup table
  (\<open>src/src/cache/lba_table.rs\<close>). The \<open>HashMap\<close> is an association list with distinct keys;
  the order in which \<open>values()\<close> visits it is the environment's \<open>env_hash_order\<close>, so no fact
  here depends on a particular order. An \<open>Instant\<close> is a natural number. The lock around the
  map makes each method one atomic step. The laws a client needs are the locale \<open>entry_map\<close>.
\<close>

section \<open>Entries\<close>

record cache_entry =
  ce_lba :: u64
  ce_pool_index :: usize
  ce_dirty :: bool
  ce_last_access :: nat
  ce_access_count :: u64

definition entry_new :: "'w env \<Rightarrow> u64 \<Rightarrow> usize \<Rightarrow> 'w \<Rightarrow> cache_entry \<times> 'w" where
  "entry_new E lba pool_index w =
     (case env_now E w of (t, w') \<Rightarrow>
        (\<lparr>ce_lba = lba, ce_pool_index = pool_index, ce_dirty = False,
          ce_last_access = t, ce_access_count = 1\<rparr>, w'))"

definition entry_touch :: "'w env \<Rightarrow> cache_entry \<Rightarrow> 'w \<Rightarrow> cache_entry \<times> 'w" where
  "entry_touch E e w =
     (case env_now E w of (t, w') \<Rightarrow>
        (e\<lparr>ce_last_access := t, ce_access_count := saturating_inc (ce_access_count e)\<rparr>, w'))"

definition entry_mark_dirty :: "'w env \<Rightarrow> cache_entry \<Rightarrow> 'w \<Rightarrow> cache_entry \<times> 'w" where
  "entry_mark_dirty E e w = entry_touch E (e\<lparr>ce_dirty := True\<rparr>) w"

definition entry_mark_clean :: "cache_entry \<Rightarrow> cache_entry" where
  "entry_mark_clean e = e\<lparr>ce_dirty := False\<rparr>"

definition entry_is_dirty :: "cache_entry \<Rightarrow> bool" where
  "entry_is_dirty e = ce_dirty e"

section \<open>The table\<close>

record lba_table =
  lt_inner :: "(u64 \<times> cache_entry) list"

definition table_new :: "usize \<Rightarrow> lba_table" where
  "table_new capacity = \<lparr>lt_inner = []\<rparr>"

definition table_get :: "lba_table \<Rightarrow> u64 \<Rightarrow> cache_entry option" where
  "table_get t lba = map_of (lt_inner t) lba"

definition table_contains :: "lba_table \<Rightarrow> u64 \<Rightarrow> bool" where
  "table_contains t lba \<longleftrightarrow> lba \<in> set (map fst (lt_inner t))"

definition get_and_touch :: "'w env \<Rightarrow> lba_table \<Rightarrow> u64 \<Rightarrow> 'w \<Rightarrow> usize option \<times> lba_table \<times> 'w" where
  "get_and_touch E t lba w =
     (case map_of (lt_inner t) lba of
        Some entry \<Rightarrow>
          (case entry_touch E entry w of (entry', w') \<Rightarrow>
             (Some (ce_pool_index entry'), t\<lparr>lt_inner := AList.update lba entry' (lt_inner t)\<rparr>, w'))
      | None \<Rightarrow> (None, t, w))"

definition table_len :: "lba_table \<Rightarrow> usize" where
  "table_len t = of_nat (length (lt_inner t))"

definition table_is_empty :: "lba_table \<Rightarrow> bool" where
  "table_is_empty t \<longleftrightarrow> lt_inner t = []"

definition table_insert :: "lba_table \<Rightarrow> u64 \<Rightarrow> cache_entry \<Rightarrow> cache_entry option \<times> lba_table" where
  "table_insert t lba entry =
     (map_of (lt_inner t) lba, t\<lparr>lt_inner := AList.update lba entry (lt_inner t)\<rparr>)"

definition table_remove :: "lba_table \<Rightarrow> u64 \<Rightarrow> cache_entry option \<times> lba_table" where
  "table_remove t lba = (map_of (lt_inner t) lba, t\<lparr>lt_inner := AList.delete lba (lt_inner t)\<rparr>)"

definition table_mark_dirty :: "'w env \<Rightarrow> lba_table \<Rightarrow> u64 \<Rightarrow> 'w \<Rightarrow> lba_table \<times> 'w" where
  "table_mark_dirty E t lba w =
     (case map_of (lt_inner t) lba of
        Some entry \<Rightarrow>
          (case entry_mark_dirty E entry w of (entry', w') \<Rightarrow>
             (t\<lparr>lt_inner := AList.update lba entry' (lt_inner t)\<rparr>, w'))
      | None \<Rightarrow> (t, w))"

definition table_mark_clean :: "lba_table \<Rightarrow> u64 \<Rightarrow> lba_table" where
  "table_mark_clean t lba =
     (case map_of (lt_inner t) lba of
        Some entry \<Rightarrow> t\<lparr>lt_inner := AList.update lba (entry_mark_clean entry) (lt_inner t)\<rparr>
      | None \<Rightarrow> t)"

text \<open>\<open>HashMap::values\<close> in the environment's iteration order.\<close>

definition table_values :: "'w env \<Rightarrow> lba_table \<Rightarrow> cache_entry list" where
  "table_values E t =
     map (\<lambda>k. the (map_of (lt_inner t) k)) (env_hash_order E (map fst (lt_inner t)))"

definition dirty_entries :: "'w env \<Rightarrow> lba_table \<Rightarrow> (u64 \<times> usize) list" where
  "dirty_entries E t =
     map (\<lambda>e. (ce_lba e, ce_pool_index e)) (filter entry_is_dirty (table_values E t))"

text \<open>The stable sort of \<open>sort_by_key\<close>, oldest access first.\<close>

definition entries_by_lru :: "'w env \<Rightarrow> lba_table \<Rightarrow> cache_entry list" where
  "entries_by_lru E t = sort_key ce_last_access (table_values E t)"

record table_stats =
  ts_total_entries :: usize
  ts_dirty_entries :: usize
  ts_total_hits :: u64

definition stats :: "'w env \<Rightarrow> lba_table \<Rightarrow> table_stats" where
  "stats E t =
     \<lparr>ts_total_entries = of_nat (length (lt_inner t)),
      ts_dirty_entries = of_nat (length (filter entry_is_dirty (table_values E t))),
      ts_total_hits = sum_list (map ce_access_count (table_values E t))\<rparr>"

definition table_stats_display :: "table_stats \<Rightarrow> string" where
  "table_stats_display s =
     ''entries='' @ show_word (ts_total_entries s) @ '', dirty='' @ show_word (ts_dirty_entries s) @
     '', total_hits='' @ show_word (ts_total_hits s)"

section \<open>Invariant\<close>

text \<open>Keys are unique and every entry sits under its own address.\<close>

definition table_inv :: "lba_table \<Rightarrow> bool" where
  "table_inv t \<longleftrightarrow> distinct (map fst (lt_inner t)) \<and>
     (\<forall>k e. map_of (lt_inner t) k = Some e \<longrightarrow> ce_lba e = k)"

section \<open>The map contract\<close>

text \<open>
  A finite map with a well-formedness condition between a key and what is stored under it.
  \<open>put\<close> and \<open>del\<close> are the state changes of the code's \<open>insert\<close> and \<open>remove\<close>.
\<close>

locale entry_map =
  fixes inv :: "'t \<Rightarrow> bool"
    and lookup :: "'t \<Rightarrow> 'k \<Rightarrow> 'v option"
    and put :: "'k \<Rightarrow> 'v \<Rightarrow> 't \<Rightarrow> 't"
    and del :: "'k \<Rightarrow> 't \<Rightarrow> 't"
    and count :: "'t \<Rightarrow> nat"
    and fits :: "'k \<Rightarrow> 'v \<Rightarrow> bool"
  assumes lookup_put: "lookup (put k v t) = (lookup t)(k \<mapsto> v)"
    and lookup_del: "lookup (del k t) = (lookup t)(k := None)"
    and inv_put: "inv t \<Longrightarrow> fits k v \<Longrightarrow> inv (put k v t)"
    and inv_del: "inv t \<Longrightarrow> inv (del k t)"
    and inv_fits: "inv t \<Longrightarrow> lookup t k = Some v \<Longrightarrow> fits k v"
    and count_dom: "inv t \<Longrightarrow> count t = card (dom (lookup t))"
    and finite_dom: "finite (dom (lookup t))"
begin

lemma count_put_fresh:
  "inv t \<Longrightarrow> fits k v \<Longrightarrow> lookup t k = None \<Longrightarrow> count (put k v t) = Suc (count t)"
  using finite_dom [of t] by (simp add: count_dom inv_put lookup_put domIff)

lemma count_put_present:
  "inv t \<Longrightarrow> fits k v \<Longrightarrow> lookup t k \<noteq> None \<Longrightarrow> count (put k v t) = count t"
  by (auto simp: count_dom inv_put lookup_put insert_absorb domIff)

lemma count_del_present:
  "inv t \<Longrightarrow> lookup t k \<noteq> None \<Longrightarrow> Suc (count (del k t)) = count t"
  using finite_dom [of t] by (simp add: count_dom inv_del lookup_del card_Suc_Diff1 domIff del: card_Diff_insert)

text \<open>Replacing one key by another keeps the size: what an eviction followed by an insert does.\<close>

lemma count_replace:
  assumes "inv t" "lookup t k \<noteq> None" "lookup t k' = None" "fits k' v"
  shows "count (put k' v (del k t)) = count t"
  using assms count_put_fresh [of "del k t" k' v] count_del_present [of t k] inv_del [of t k]
  by (simp add: lookup_del)

text \<open>Round trips: what was put is found, and removing it restores every other lookup.\<close>

lemma put_get [simp]: "lookup (put k v t) k = Some v"
  by (simp add: lookup_put)

lemma del_put_lookup: "lookup t k = None \<Longrightarrow> lookup (del k (put k v t)) = lookup t"
  by (auto simp: lookup_put lookup_del fun_eq_iff)

end

lemma table_inv_get: "table_inv t \<Longrightarrow> table_get t lba = Some e \<Longrightarrow> ce_lba e = lba"
  by (simp add: table_inv_def table_get_def)

lemma get_insert [simp]: "table_get (snd (table_insert t k e)) = (table_get t)(k \<mapsto> e)"
  by (simp add: table_insert_def table_get_def fun_eq_iff)

lemma get_remove [simp]: "table_get (snd (table_remove t k)) = (table_get t)(k := None)"
  by (simp add: table_remove_def table_get_def fun_eq_iff)

lemma dom_table_get: "dom (table_get t) = set (map fst (lt_inner t))"
  by (simp add: table_get_def [abs_def] dom_map_of_conv_image_fst)

lemma length_inner: "distinct (map fst (lt_inner t)) \<Longrightarrow> length (lt_inner t) = card (dom (table_get t))"
  by (metis dom_table_get distinct_card length_map)

interpretation lt: entry_map table_inv table_get "\<lambda>k e t. snd (table_insert t k e)"
    "\<lambda>k t. snd (table_remove t k)" "\<lambda>t. length (lt_inner t)" "\<lambda>k e. ce_lba e = k"
proof (unfold_locales, goal_cases)
  case (3 t k v)
  then show ?case by (auto simp: table_inv_def table_insert_def distinct_update)
next
  case (4 t k)
  then show ?case by (auto simp: table_inv_def table_remove_def distinct_keys_delete)
next
  case (6 t)
  then show ?case by (simp add: table_inv_def length_inner)
qed (simp_all add: table_inv_get dom_table_get)

section \<open>Derived facts\<close>

lemma table_contains_get: "table_contains t lba \<longleftrightarrow> table_get t lba \<noteq> None"
  unfolding table_contains_def dom_table_get [symmetric] by (simp add: domIff)

lemma entry_new_simps [simp]:
  "ce_lba (fst (entry_new E lba i w)) = lba"
  "ce_pool_index (fst (entry_new E lba i w)) = i"
  "\<not> ce_dirty (fst (entry_new E lba i w))"
  "snd (entry_new E lba i w) = snd (env_now E w)"
  "ce_last_access (fst (entry_new E lba i w)) = fst (env_now E w)"
  by (simp_all add: entry_new_def split: prod.splits)

lemma entry_touch_simps [simp]:
  "ce_lba (fst (entry_touch E e w)) = ce_lba e"
  "ce_pool_index (fst (entry_touch E e w)) = ce_pool_index e"
  "ce_dirty (fst (entry_touch E e w)) = ce_dirty e"
  "snd (entry_touch E e w) = snd (env_now E w)"
  "ce_last_access (fst (entry_touch E e w)) = fst (env_now E w)"
  by (simp_all add: entry_touch_def split: prod.splits)

lemma entry_mark_dirty_simps [simp]:
  "ce_lba (fst (entry_mark_dirty E e w)) = ce_lba e"
  "ce_pool_index (fst (entry_mark_dirty E e w)) = ce_pool_index e"
  "ce_dirty (fst (entry_mark_dirty E e w))"
  "snd (entry_mark_dirty E e w) = snd (env_now E w)"
  by (simp_all add: entry_mark_dirty_def)

lemma entry_mark_clean_simps [simp]:
  "ce_lba (entry_mark_clean e) = ce_lba e"
  "ce_pool_index (entry_mark_clean e) = ce_pool_index e"
  "\<not> ce_dirty (entry_mark_clean e)"
  by (simp_all add: entry_mark_clean_def)

lemma table_insert_simps:
  "t\<lparr>lt_inner := AList.update k e (lt_inner t)\<rparr> = snd (table_insert t k e)"
  by (simp add: table_insert_def)

lemma get_and_touch_eq:
  "get_and_touch E t lba w =
     (case table_get t lba of
        None \<Rightarrow> (None, t, w)
      | Some e \<Rightarrow> (Some (ce_pool_index e), snd (table_insert t lba (fst (entry_touch E e w))),
                   snd (env_now E w)))"
  by (auto simp: get_and_touch_def table_get_def table_insert_def entry_touch_def
      split: option.splits prod.splits)

lemma table_mark_dirty_eq:
  "table_mark_dirty E t lba w =
     (case table_get t lba of
        None \<Rightarrow> (t, w)
      | Some e \<Rightarrow> (snd (table_insert t lba (fst (entry_mark_dirty E e w))), snd (env_now E w)))"
  by (auto simp: table_mark_dirty_def table_get_def table_insert_def entry_mark_dirty_def
      entry_touch_def split: option.splits prod.splits)

lemma table_mark_clean_eq:
  "table_mark_clean t lba =
     (case table_get t lba of None \<Rightarrow> t | Some e \<Rightarrow> snd (table_insert t lba (entry_mark_clean e)))"
  by (auto simp: table_mark_clean_def table_get_def table_insert_def split: option.splits)

lemma values_set:
  assumes "hash_ok E"
  shows "set (table_values E t) = ran (table_get t)"
proof -
  have "set (table_values E t) = (\<lambda>k. the (table_get t k)) ` dom (table_get t)"
    using assms by (simp add: table_values_def dom_table_get table_get_def image_image)
  also have "\<dots> = ran (table_get t)"
    by (force simp: ran_def dom_def image_iff)
  finally show ?thesis .
qed

lemma values_mset:
  assumes "hash_ok E" "table_inv t"
  shows "mset (table_values E t) = mset (map snd (lt_inner t))"
proof -
  have d: "distinct (map fst (lt_inner t))"
    using assms(2) by (simp add: table_inv_def)
  have "mset (table_values E t) =
      image_mset (\<lambda>k. the (map_of (lt_inner t) k)) (mset (map fst (lt_inner t)))"
    using assms(1) by (simp add: table_values_def hash_ok_def)
  also have "\<dots> = mset (map ((\<lambda>k. the (map_of (lt_inner t) k)) \<circ> fst) (lt_inner t))"
    by (simp add: image_mset.compositionality)
  also have "map ((\<lambda>k. the (map_of (lt_inner t) k)) \<circ> fst) (lt_inner t) = map snd (lt_inner t)"
    using d by (auto intro!: map_cong)
  finally show ?thesis .
qed

lemma dirty_entries_set:
  assumes "hash_ok E" "table_inv t"
  shows "set (dirty_entries E t) =
    {(lba, ce_pool_index e) | lba e. table_get t lba = Some e \<and> ce_dirty e}"
proof -
  have "set (dirty_entries E t) =
      (\<lambda>e. (ce_lba e, ce_pool_index e)) ` {e \<in> ran (table_get t). ce_dirty e}"
    using values_set [OF assms(1), of t] by (auto simp: dirty_entries_def entry_is_dirty_def)
  then show ?thesis
    using table_inv_get [OF assms(2)] by (force simp: ran_def image_iff)
qed

lemma values_distinct:
  assumes "hash_ok E" "table_inv t"
  shows "distinct (map ce_lba (table_values E t))"
proof -
  have "ce_lba (the (map_of (lt_inner t) k)) = k" if "k \<in> set (map fst (lt_inner t))" for k
    using that assms(2) unfolding table_inv_def
    by (metis (no_types, lifting) domIff dom_map_of_conv_image_fst list.set_map option.collapse)
  then have "map ce_lba (table_values E t) = env_hash_order E (map fst (lt_inner t))"
    unfolding table_values_def map_map using assms(1) by (intro map_idI) simp
  then show ?thesis using assms by (simp add: table_inv_def)
qed

lemma dirty_entries_distinct:
  "hash_ok E \<Longrightarrow> table_inv t \<Longrightarrow> distinct (map fst (dirty_entries E t))"
  using values_distinct [of E t] by (simp add: dirty_entries_def o_def distinct_map_filter)

lemma lru_distinct:
  assumes "hash_ok E" "table_inv t"
  shows "distinct (map ce_lba (entries_by_lru E t))"
proof -
  have "mset (map ce_lba (entries_by_lru E t)) = mset (map ce_lba (table_values E t))" by (simp add: entries_by_lru_def)
  then show ?thesis using values_distinct [OF assms] mset_eq_imp_distinct_iff by blast
qed

section \<open>Properties\<close>

text \<open>The dirty blocks, and the entry that an access at a given moment leaves.\<close>

definition dirty_blocks :: "lba_table \<Rightarrow> u64 set" where
  "dirty_blocks t = {lba. \<exists>e. table_get t lba = Some e \<and> ce_dirty e}"

definition accessed :: "nat \<Rightarrow> cache_entry \<Rightarrow> cache_entry" where
  "accessed now e = e\<lparr>ce_last_access := now,
     ce_access_count := (if ce_access_count e = - 1 then - 1 else ce_access_count e + 1)\<rparr>"

lemma dirty_count:
  assumes "hash_ok E" "table_inv t"
  shows "length (filter entry_is_dirty (table_values E t)) = card (dirty_blocks t)"
proof -
  have "fst ` set (dirty_entries E t) = dirty_blocks t"
    unfolding dirty_entries_set [OF assms] by (force simp: dirty_blocks_def)
  then have "card (dirty_blocks t) = length (map fst (dirty_entries E t))"
    using distinct_card [OF dirty_entries_distinct [OF assms]] by simp
  then show ?thesis by (simp add: dirty_entries_def)
qed

lemma dirty_count_le: "hash_ok E \<Longrightarrow> length (filter entry_is_dirty (table_values E t)) \<le> length (lt_inner t)"
  using length_filter_le [of entry_is_dirty "table_values E t"] by (simp add: table_values_def)

lemma touch_accessed: "fst (entry_touch E e w) = accessed (fst (env_now E w)) e"
  by (simp add: entry_touch_def accessed_def saturating_inc_def case_prod_unfold)

lemma mark_dirty_accessed: "fst (entry_mark_dirty E e w) = (accessed (fst (env_now E w)) e)\<lparr>ce_dirty := True\<rparr>"
  by (simp add: entry_mark_dirty_def entry_touch_def accessed_def saturating_inc_def case_prod_unfold)

text \<open>Marking and touching as updates of the map.\<close>

lemma table_updates:
  "table_get (fst (table_mark_dirty E t lba w)) =
     (table_get t)(lba := map_option (\<lambda>e. (accessed (fst (env_now E w)) e)\<lparr>ce_dirty := True\<rparr>) (table_get t lba))"
  "table_get (table_mark_clean t lba) = (table_get t)(lba := map_option (\<lambda>e. e\<lparr>ce_dirty := False\<rparr>) (table_get t lba))"
  "table_get (fst (snd (get_and_touch E t lba w))) =
     (table_get t)(lba := map_option (accessed (fst (env_now E w))) (table_get t lba))"
  by (auto simp: table_mark_dirty_eq table_mark_clean_eq get_and_touch_eq touch_accessed mark_dirty_accessed
      entry_mark_clean_def fun_eq_iff split: option.splits)

lemma table_updates_inv:
  assumes "table_inv t"
  shows "table_inv (fst (table_mark_dirty E t lba w))" "table_inv (table_mark_clean t lba)"
    "table_inv (fst (snd (get_and_touch E t lba w)))"
  using assms table_inv_get [OF assms]
  by (auto intro!: lt.inv_put [OF assms] simp: table_mark_dirty_eq table_mark_clean_eq get_and_touch_eq split: option.splits)

text \<open>
  C28. The table is a finite map from blocks to entries, and each operation is the change or the
  query of that map it is named after. \<open>insert\<close> and \<open>remove\<close> return the old entry and change
  one block; \<open>mark_dirty\<close>, \<open>mark_clean\<close> and \<open>get_and_touch\<close> change the entry of one block, if
  there is one: the flag, and but for \<open>mark_clean\<close> the time of the last access and the count,
  which saturates. \<open>dirty_entries\<close> lists every dirty block once with its slot,
  \<open>entries_by_lru\<close> every entry once by its last access, and the statistics are the numbers of
  blocks and of dirty blocks, as long as they fit a \<open>usize\<close>.
\<close>

theorem table_refines_map:
  assumes "table_inv t" "hash_ok E" "ce_lba e = lba"
  shows "table_inv (table_new n) \<and> table_get (table_new n) = Map.empty \<and>
    table_contains t l = (table_get t l \<noteq> None) \<and> table_is_empty t = (table_get t = Map.empty) \<and>
    table_inv (snd (table_insert t lba e)) \<and> fst (table_insert t lba e) = table_get t lba \<and>
    table_get (snd (table_insert t lba e)) = (table_get t)(lba \<mapsto> e) \<and>
    table_inv (snd (table_remove t lba)) \<and> fst (table_remove t lba) = table_get t lba \<and>
    table_get (snd (table_remove t lba)) = (table_get t)(lba := None) \<and>
    table_inv (fst (table_mark_dirty E t lba w)) \<and>
    table_get (fst (table_mark_dirty E t lba w)) =
      (table_get t)(lba := map_option (\<lambda>e. (accessed (fst (env_now E w)) e)\<lparr>ce_dirty := True\<rparr>) (table_get t lba)) \<and>
    table_inv (table_mark_clean t lba) \<and>
    table_get (table_mark_clean t lba) = (table_get t)(lba := map_option (\<lambda>e. e\<lparr>ce_dirty := False\<rparr>) (table_get t lba)) \<and>
    table_inv (fst (snd (get_and_touch E t lba w))) \<and>
    fst (get_and_touch E t lba w) = map_option ce_pool_index (table_get t lba) \<and>
    table_get (fst (snd (get_and_touch E t lba w))) =
      (table_get t)(lba := map_option (accessed (fst (env_now E w))) (table_get t lba)) \<and>
    distinct (map fst (dirty_entries E t)) \<and>
    set (dirty_entries E t) = {(l, ce_pool_index d) | l d. table_get t l = Some d \<and> ce_dirty d} \<and>
    sorted (map ce_last_access (entries_by_lru E t)) \<and> distinct (map ce_lba (entries_by_lru E t)) \<and>
    set (entries_by_lru E t) = ran (table_get t) \<and>
    (card (dom (table_get t)) < 2 ^ 64 \<longrightarrow>
       unat (ts_total_entries (stats E t)) = card (dom (table_get t)) \<and>
       unat (ts_dirty_entries (stats E t)) = card (dirty_blocks t))"
proof -
  note dirty = dirty_entries_set [OF assms(2,1)] dirty_entries_distinct [OF assms(2,1)]
  have len: "length (lt_inner t) = card (dom (table_get t))" using assms(1) by (simp add: table_inv_def length_inner)
  have new: "table_inv (table_new n)" "table_get (table_new n) = Map.empty"
    by (simp_all add: table_inv_def table_new_def table_get_def fun_eq_iff)
  have "table_is_empty t = (table_get t = Map.empty)"
    using dom_table_get [of t] by (cases "lt_inner t") (auto simp: table_is_empty_def)
  moreover have "fst (table_insert t lba e) = table_get t lba" "fst (table_remove t lba) = table_get t lba"
    by (simp_all add: table_insert_def table_remove_def table_get_def)
  moreover have "fst (get_and_touch E t lba w) = map_option ce_pool_index (table_get t lba)"
    by (simp add: get_and_touch_eq split: option.splits)
  moreover have "unat (ts_total_entries (stats E t)) = card (dom (table_get t)) \<and>
      unat (ts_dirty_entries (stats E t)) = card (dirty_blocks t)" if "card (dom (table_get t)) < 2 ^ 64"
  proof -
    have "length (filter entry_is_dirty (table_values E t)) < 2 ^ 64" "length (lt_inner t) < 2 ^ 64"
      using dirty_count_le [OF assms(2), of t] that len by simp_all
    then show ?thesis
      using unat_of_nat_small by (simp add: stats_def len dirty_count [OF assms(2,1)])
  qed
  ultimately show ?thesis
    using new lt.inv_put [OF assms(1,3)] lt.inv_del [OF assms(1)] table_updates_inv(1,3) [OF assms(1), where E = E] table_updates_inv(2) [OF assms(1)] dirty
      lru_distinct [OF assms(2,1)] values_set [OF assms(2), of t]
    by (simp add: table_updates table_contains_get entries_by_lru_def)
qed

theorem table_refines_map_witness:
  "table_get (fst (table_mark_dirty sim_env \<lparr>lt_inner = [(7, \<lparr>ce_lba = 7, ce_pool_index = 0, ce_dirty = False,
      ce_last_access = 5, ce_access_count = 1\<rparr>)]\<rparr> 7 sim_init)) 7 =
     Some \<lparr>ce_lba = 7, ce_pool_index = 0, ce_dirty = True, ce_last_access = fst (env_now sim_env sim_init), ce_access_count = 2\<rparr> \<and>
   unat (ts_dirty_entries (stats sim_env \<lparr>lt_inner = [(7, \<lparr>ce_lba = 7, ce_pool_index = 0, ce_dirty = False,
      ce_last_access = 5, ce_access_count = 1\<rparr>)]\<rparr>)) = 0"
proof -
  let ?e = "\<lparr>ce_lba = 7, ce_pool_index = 0, ce_dirty = False, ce_last_access = 5, ce_access_count = 1\<rparr>"
  let ?t = "\<lparr>lt_inner = [(7, ?e)]\<rparr>"
  have t: "table_inv ?t" "table_get ?t = [7 \<mapsto> ?e]" by (simp_all add: table_inv_def table_get_def fun_eq_iff)
  have "dirty_blocks ?t = {}" unfolding dirty_blocks_def t(2) by auto
  then show ?thesis
    using table_refines_map [OF t(1) sim_hash_ok, where lba = 7 and e = ?e and w = sim_init]
    by (simp add: t(2) accessed_def)
qed

end
