(* ===== verification/Eviction.thy ===== *)
theory Eviction
  imports Lba_Table
begin

text \<open>
  The eviction policy of \<open>src/src/cache/eviction.rs\<close>: among the clean entries the one
  accessed longest ago, and only when every entry is dirty the dirty one accessed longest ago.
\<close>

section \<open>Operations\<close>

record eviction_candidate =
  ec_lba :: u64
  ec_pool_index :: usize
  ec_needs_flush :: bool

definition find_oldest_clean :: "cache_entry list \<Rightarrow> eviction_candidate option" where
  "find_oldest_clean entries =
     map_option
       (\<lambda>e. \<lparr>ec_lba = ce_lba e, ec_pool_index = ce_pool_index e, ec_needs_flush = False\<rparr>)
       (List.find (\<lambda>e. \<not> entry_is_dirty e) entries)"

definition select_eviction_candidate :: "'w env \<Rightarrow> lba_table \<Rightarrow> eviction_candidate option" where
  "select_eviction_candidate E t =
     (case entries_by_lru E t of
        [] \<Rightarrow> None
      | oldest # _ \<Rightarrow>
          (case find_oldest_clean (entries_by_lru E t) of
             Some clean \<Rightarrow> Some clean
           | None \<Rightarrow> Some \<lparr>ec_lba = ce_lba oldest, ec_pool_index = ce_pool_index oldest,
                           ec_needs_flush = True\<rparr>))"

section \<open>Specification\<close>

text \<open>
  Which entry may be chosen, as a predicate on the set of entries: a dirty one only if there
  is no clean one, and among the entries of its kind one with the least access time.
\<close>

definition is_victim :: "cache_entry set \<Rightarrow> cache_entry \<Rightarrow> bool" where
  "is_victim S e \<longleftrightarrow> e \<in> S \<and>
     (if \<exists>c \<in> S. \<not> ce_dirty c
      then \<not> ce_dirty e \<and> (\<forall>c \<in> S. \<not> ce_dirty c \<longrightarrow> ce_last_access e \<le> ce_last_access c)
      else (\<forall>c \<in> S. ce_last_access e \<le> ce_last_access c))"

section \<open>Facts\<close>

lemma find_first_min:
  assumes "sorted (map f xs)" "List.find P xs = Some x"
  shows "x \<in> set xs" "P x" "\<And>y. y \<in> set xs \<Longrightarrow> P y \<Longrightarrow> f x \<le> f y"
proof -
  from assms(2) obtain i where i: "i < length xs" "P (xs ! i)" "x = xs ! i"
    "\<And>j. j < i \<Longrightarrow> \<not> P (xs ! j)"
    by (auto simp: find_Some_iff)
  then show "x \<in> set xs" "P x" by simp_all
  fix y assume "y \<in> set xs" "P y"
  then obtain j where j: "j < length xs" "y = xs ! j" by (auto simp: in_set_conv_nth)
  with \<open>P y\<close> i(4) [of j] have "i \<le> j" by (cases "j < i") auto
  with assms(1) i j show "f x \<le> f y"
    by (metis (no_types, lifting) length_map nth_map sorted_iff_nth_mono)
qed

lemma lru_set: "hash_ok E \<Longrightarrow> set (entries_by_lru E t) = ran (table_get t)"
  by (simp add: entries_by_lru_def values_set)

lemma lru_sorted: "sorted (map ce_last_access (entries_by_lru E t))"
  by (simp add: entries_by_lru_def)

lemma select_None_iff:
  assumes "hash_ok E"
  shows "select_eviction_candidate E t = None \<longleftrightarrow> table_get t = Map.empty"
proof -
  have "entries_by_lru E t = [] \<longleftrightarrow> ran (table_get t) = {}"
    using lru_set [OF assms, of t] by (metis empty_set set_empty)
  then show ?thesis
    by (auto simp: select_eviction_candidate_def ran_def fun_eq_iff split: list.splits option.splits)
      (metis option.exhaust)+
qed

lemma select_Some:
  assumes "hash_ok E" "select_eviction_candidate E t = Some c"
  obtains e where "is_victim (ran (table_get t)) e"
    "c = \<lparr>ec_lba = ce_lba e, ec_pool_index = ce_pool_index e, ec_needs_flush = ce_dirty e\<rparr>"
proof -
  let ?es = "entries_by_lru E t"
  note set = lru_set [OF assms(1), of t] and srt = lru_sorted [of E t]
  from assms(2) obtain x xs where ne: "?es = x # xs"
    by (auto simp: select_eviction_candidate_def split: list.splits)
  show ?thesis
  proof (cases "List.find (\<lambda>e. \<not> entry_is_dirty e) ?es")
    case (Some e)
    from find_first_min [OF srt Some] have "is_victim (ran (table_get t)) e" "\<not> ce_dirty e"
      unfolding is_victim_def set [symmetric] by (auto simp: entry_is_dirty_def)
    moreover from Some assms(2) have
      "c = \<lparr>ec_lba = ce_lba e, ec_pool_index = ce_pool_index e, ec_needs_flush = False\<rparr>"
      by (simp add: select_eviction_candidate_def find_oldest_clean_def ne)
    ultimately show ?thesis using that by simp
  next
    case None
    then have all: "\<forall>e \<in> ran (table_get t). ce_dirty e"
      unfolding set [symmetric] by (auto simp: find_None_iff entry_is_dirty_def)
    have "x \<in> ran (table_get t)" "\<forall>y \<in> ran (table_get t). ce_last_access x \<le> ce_last_access y"
      using srt unfolding set [symmetric] ne by auto
    with all have "is_victim (ran (table_get t)) x" "ce_dirty x"
      by (auto simp: is_victim_def)
    moreover from None assms(2) have
      "c = \<lparr>ec_lba = ce_lba x, ec_pool_index = ce_pool_index x, ec_needs_flush = True\<rparr>"
      by (simp add: select_eviction_candidate_def find_oldest_clean_def ne)
    ultimately show ?thesis using that by simp
  qed
qed

lemma select_Some_entry:
  assumes "hash_ok E" "table_inv t" "select_eviction_candidate E t = Some c"
  obtains e where "table_get t (ec_lba c) = Some e" "ec_pool_index c = ce_pool_index e"
    "ec_needs_flush c = ce_dirty e"
proof -
  from select_Some [OF assms(1,3)] obtain e where
    v: "is_victim (ran (table_get t)) e"
    and c: "c = \<lparr>ec_lba = ce_lba e, ec_pool_index = ce_pool_index e, ec_needs_flush = ce_dirty e\<rparr>" .
  from v obtain k where k: "table_get t k = Some e"
    by (auto simp: is_victim_def ran_def)
  with table_inv_get [OF assms(2)] have "table_get t (ec_lba c) = Some e" by (simp add: c)
  then show ?thesis by (rule that) (simp_all add: c)
qed

section \<open>Properties\<close>

text \<open>
  C23. The eviction decision, for every iteration order of the hash map: nothing is chosen
  exactly when the table is empty; otherwise the candidate names an entry of the table with
  its slot and its dirty flag, and that entry is a legal victim: the least recently used
  clean entry if there is a clean one, else the least recently used entry.
\<close>

theorem select_eviction_candidate_spec:
  assumes "hash_ok E" "table_inv t"
  shows "case select_eviction_candidate E t of
      None \<Rightarrow> (\<forall>lba. \<not> table_contains t lba)
    | Some c \<Rightarrow> (\<exists>e. table_get t (ec_lba c) = Some e \<and> is_victim (ran (table_get t)) e \<and>
        ec_pool_index c = ce_pool_index e \<and> ec_needs_flush c = ce_dirty e)"
proof (cases "select_eviction_candidate E t")
  case None
  then show ?thesis
    using select_None_iff [OF assms(1), of t] by (simp add: table_contains_get)
next
  case (Some c)
  from select_Some [OF assms(1) Some] obtain e where
    v: "is_victim (ran (table_get t)) e"
    and c: "c = \<lparr>ec_lba = ce_lba e, ec_pool_index = ce_pool_index e, ec_needs_flush = ce_dirty e\<rparr>" .
  from v obtain k where k: "table_get t k = Some e"
    by (auto simp: is_victim_def ran_def)
  with table_inv_get [OF assms(2)] v Some c show ?thesis by auto
qed

text \<open>Three entries as in the unit test of the policy: the oldest is dirty, the second clean.\<close>

definition sample_table :: lba_table where
  "sample_table = \<lparr>lt_inner =
     [(1, \<lparr>ce_lba = 1, ce_pool_index = 10, ce_dirty = True, ce_last_access = 1, ce_access_count = 1\<rparr>),
      (2, \<lparr>ce_lba = 2, ce_pool_index = 20, ce_dirty = False, ce_last_access = 2, ce_access_count = 1\<rparr>),
      (3, \<lparr>ce_lba = 3, ce_pool_index = 30, ce_dirty = False, ce_last_access = 3, ce_access_count = 1\<rparr>)]\<rparr>"

lemma sample_table_inv: "table_inv sample_table"
  by (simp add: table_inv_def sample_table_def)

theorem select_eviction_candidate_spec_witness:
  "hash_ok sim_env \<and> table_inv sample_table \<and>
   select_eviction_candidate sim_env sample_table =
     Some \<lparr>ec_lba = 2, ec_pool_index = 20, ec_needs_flush = False\<rparr> \<and>
   is_victim (ran (table_get sample_table)) (the (table_get sample_table 2))"
proof -
  have s: "select_eviction_candidate sim_env sample_table =
      Some \<lparr>ec_lba = 2, ec_pool_index = 20, ec_needs_flush = False\<rparr>"
    by (simp add: select_eviction_candidate_def entries_by_lru_def table_values_def sim_env_def
        sample_table_def find_oldest_clean_def entry_is_dirty_def)
  show ?thesis
    using s sim_hash_ok sample_table_inv
      select_eviction_candidate_spec [OF sim_hash_ok sample_table_inv] by auto
qed

end
