(* ===== verification/Block_IO.thy ===== *)
theory Block_IO
  imports Memory
begin

text \<open>
  Direct block transfers (\<open>src/src/io/reader.rs\<close>, \<open>src/src/io/writer.rs\<close>): the loops around
  \<open>pread\<close> and \<open>pwrite\<close> that cope with short transfers, and their LBA-addressed wrappers.
  A slice argument is an address with a length. The byte offset \<open>lba * block_size\<close> is a
  \<open>u64\<close> product and wraps; \<open>off_t\<close> is signed. The loops terminate for every kernel, since
  a transfer of zero bytes ends them with an error.
\<close>

section \<open>Operations\<close>

definition eof_error :: "u64 \<Rightarrow> nat \<Rightarrow> nat \<Rightarrow> cache_error" where
  "eof_error offset total_read len =
     Io ''pread'' \<lparr>ie_kind = UnexpectedEofKind,
       ie_text = ''unexpected EOF at offset '' @ show_word (offset + of_nat total_read) @
         '' (read '' @ show_nat total_read @ '' of '' @ show_nat len @ '' bytes)''\<rparr>"

definition write_zero_error :: "u64 \<Rightarrow> nat \<Rightarrow> nat \<Rightarrow> cache_error" where
  "write_zero_error offset total_written len =
     Io ''pwrite'' \<lparr>ie_kind = WriteZeroKind,
       ie_text = ''zero-length write at offset '' @ show_word (offset + of_nat total_written) @
         '' (wrote '' @ show_nat total_written @ '' of '' @ show_nat len @ '' bytes)''\<rparr>"

function read_loop ::
  "'w env \<Rightarrow> i32 \<Rightarrow> u64 \<Rightarrow> nat \<Rightarrow> nat \<Rightarrow> nat \<Rightarrow> 'w \<Rightarrow> store \<Rightarrow> unit cache_result \<times> 'w \<times> store" where
  "read_loop E fd offset ptr len total_read w m =
     (if total_read < len then
        (case env_pread E fd (of_nat (len - total_read)) (offset + of_nat total_read) w of
           (Inl e, w') \<Rightarrow> (Inl (io_err ''pread'' e), w', m)
         | (Inr bs, w') \<Rightarrow>
             if bs = [] then (Inl (eof_error offset total_read len), w', m)
             else read_loop E fd offset ptr len (total_read + length bs) w'
                    (store_bytes m (ptr + total_read) bs))
      else (Inr (), w, m))"
  by pat_completeness auto
termination
  by (relation "measure (\<lambda>(E, fd, offset, ptr, len, total_read, w, m). len - total_read)")
    (auto simp flip: length_greater_0_conv)

declare read_loop.simps [simp del]

definition read_block ::
  "'w env \<Rightarrow> i32 \<Rightarrow> u64 \<Rightarrow> nat \<Rightarrow> nat \<Rightarrow> 'w \<Rightarrow> store \<Rightarrow> unit cache_result \<times> 'w \<times> store" where
  "read_block E fd offset ptr len w m = read_loop E fd offset ptr len 0 w m"

definition read_lba ::
  "'w env \<Rightarrow> i32 \<Rightarrow> u64 \<Rightarrow> usize \<Rightarrow> nat \<Rightarrow> nat \<Rightarrow> 'w \<Rightarrow> store \<Rightarrow> unit cache_result \<times> 'w \<times> store" where
  "read_lba E fd lba block_size ptr len w m = read_block E fd (lba * block_size) ptr len w m"

function write_loop ::
  "'w env \<Rightarrow> i32 \<Rightarrow> u64 \<Rightarrow> u8 list \<Rightarrow> nat \<Rightarrow> 'w \<Rightarrow> unit cache_result \<times> 'w" where
  "write_loop E fd offset buf total_written w =
     (if total_written < length buf then
        (case env_pwrite E fd (drop total_written buf) (offset + of_nat total_written) w of
           (Inl e, w') \<Rightarrow> (Inl (io_err ''pwrite'' e), w')
         | (Inr n, w') \<Rightarrow>
             if n = 0 then (Inl (write_zero_error offset total_written (length buf)), w')
             else write_loop E fd offset buf (total_written + n) w')
      else (Inr (), w))"
  by pat_completeness auto
termination
  by (relation "measure (\<lambda>(E, fd, offset, buf, total_written, w). length buf - total_written)") auto

declare write_loop.simps [simp del]

definition write_block :: "'w env \<Rightarrow> i32 \<Rightarrow> u64 \<Rightarrow> u8 list \<Rightarrow> 'w \<Rightarrow> unit cache_result \<times> 'w" where
  "write_block E fd offset buf w = write_loop E fd offset buf 0 w"

definition write_lba ::
  "'w env \<Rightarrow> i32 \<Rightarrow> u64 \<Rightarrow> usize \<Rightarrow> u8 list \<Rightarrow> 'w \<Rightarrow> unit cache_result \<times> 'w" where
  "write_lba E fd lba block_size buf w = write_block E fd (lba * block_size) buf w"

definition sync_device :: "'w env \<Rightarrow> i32 \<Rightarrow> 'w \<Rightarrow> unit cache_result \<times> 'w" where
  "sync_device E fd w =
     (case env_fsync E fd w of
        (Inl e, w') \<Rightarrow> (Inl (io_err ''fsync'' e), w')
      | (Inr _, w') \<Rightarrow> (Inr (), w'))"

section \<open>The read loop\<close>

lemma transfer_offset:
  fixes offset :: u64
  assumes "unat offset + len < 2 ^ 63" "k < len"
  shows "nat (sint (offset + of_nat k)) = unat offset + k" "0 \<le> sint (offset + of_nat k)"
proof -
  have "unat (offset + of_nat k) = unat offset + k"
    using assms by (intro unat_add_of_nat) simp
  then show "nat (sint (offset + of_nat k)) = unat offset + k" "0 \<le> sint (offset + of_nat k)"
    using assms nat_sint_small [of "offset + of_nat k"] by simp_all
qed

lemma pread_step:
  assumes "pread_ok E disk fd" "unat offset + len < 2 ^ 63" "k < len"
    "env_pread E fd (of_nat (len - k)) (offset + of_nat k) w = (Inr bs, w')"
  shows "disk w' = disk w" "length bs \<le> len - k" "bs = load_bytes (disk w) (unat offset + k) (length bs)"
proof -
  note pos = transfer_offset [OF assms(2,3)]
  note p = pread_okD [OF assms(1,4)]
  show "disk w' = disk w" by (rule p(1))
  have "unat (of_nat (len - k) :: usize) = len - k"
    using assms(2) by (intro unat_of_nat_small) simp
  then show "length bs \<le> len - k" using p(2) by simp
  show "bs = load_bytes (disk w) (unat offset + k) (length bs)"
    using p(3) pos by simp
qed

lemma read_loop_post:
  assumes "pread_ok E disk fd" "unat offset + len < 2 ^ 63"
  shows "k \<le> len \<Longrightarrow> read_loop E fd offset ptr len k w m = (r, w', m') \<Longrightarrow>
    disk w' = disk w \<and> agree_outside (ptr + k) (len - k) m m' \<and>
    (r = Inr () \<longrightarrow> m' = store_bytes m (ptr + k) (load_bytes (disk w) (unat offset + k) (len - k)))"
  using assms
proof (induction E fd offset ptr len k w m rule: read_loop.induct)
  case (1 E fd offset ptr len k w m)
  note unfold = read_loop.simps [of E fd offset ptr len k w m]
  show ?case
  proof (cases "k < len")
    case False
    with "1.prems"(1) "1.prems"(2) [unfolded unfold] show ?thesis by auto
  next
    case True
    obtain r1 w1 where call:
      "env_pread E fd (of_nat (len - k)) (offset + of_nat k) w = (r1, w1)" by fastforce
    show ?thesis
    proof (cases r1)
      case (Inl e)
      with "1.prems" True call show ?thesis
        using pread_okD(1) [OF "1.prems"(3) call] by (auto simp: unfold)
    next
      case (Inr bs)
      note st = pread_step [OF "1.prems"(3,4) True call [unfolded Inr]]
      show ?thesis
      proof (cases "bs = []")
        case True
        with "1.prems" \<open>k < len\<close> call Inr st show ?thesis by (auto simp: unfold)
      next
        case False
        let ?m = "store_bytes m (ptr + k) bs"
        have rec: "read_loop E fd offset ptr len (k + length bs) w1 ?m = (r, w', m')"
          using "1.prems"(2) True call Inr False by (simp add: unfold)
        have le: "k + length bs \<le> len" using st(2) True by simp
        note IH = "1.IH" [OF True call [symmetric] Inr False le rec "1.prems"(3,4)]
        have "load_bytes (disk w) (unat offset + k) (len - k) =
            bs @ load_bytes (disk w) (unat offset + k + length bs) (len - (k + length bs))"
          using load_append [of "disk w" "unat offset + k" "length bs" "len - (k + length bs)"] st(3) le
          by simp
        moreover have "agree_outside (ptr + k) (len - k) m ?m"
          using st(2) by (intro agree_outside_store) simp
        moreover have "agree_outside (ptr + k) (len - k) ?m m'"
          using IH le by (elim conjE agree_outside_mono) simp_all
        ultimately show ?thesis
          using IH st(1) store_append [of m "ptr + k" bs]
          by (auto simp: add.assoc intro: agree_outside_trans)
      qed
    qed
  qed
qed

lemma read_loop_live:
  assumes "pread_ok E disk fd" "pread_live E fd dev_size"
  shows "unat offset + len < 2 ^ 63 \<Longrightarrow> unat offset + len \<le> dev_size \<Longrightarrow>
    \<exists>w' m'. read_loop E fd offset ptr len k w m = (Inr (), w', m')"
  using assms
proof (induction E fd offset ptr len k w m rule: read_loop.induct)
  case (1 E fd offset ptr len k w m)
  note unfold = read_loop.simps [of E fd offset ptr len k w m]
  show ?case
  proof (cases "k < len")
    case False
    then show ?thesis by (simp add: unfold)
  next
    case True
    note transfer_offset [OF "1.prems"(1) True]
    moreover have len: "unat (of_nat (len - k) :: usize) = len - k"
      using "1.prems"(1) by (intro unat_of_nat_small) simp
    moreover have "(0 :: usize) < of_nat (len - k)"
      using True len by (simp add: word_less_nat_alt)
    ultimately obtain bs w1 where call:
      "env_pread E fd (of_nat (len - k)) (offset + of_nat k) w = (Inr bs, w1)" "bs \<noteq> []"
      using "1.prems"(2,4) True unfolding pread_live_def
      by (metis (no_types, lifting) add.assoc le_add_diff_inverse less_imp_le)
    from "1.IH" [OF True call(1) [symmetric] refl call(2) "1.prems"] show ?thesis
      using True call by (simp add: unfold)
  qed
qed

section \<open>The write loop\<close>

lemma write_loop_post:
  assumes "pwrite_ok E disk fd" "unat offset + length buf < 2 ^ 63"
  shows "k \<le> length buf \<Longrightarrow> write_loop E fd offset buf k w = (r, w') \<Longrightarrow>
    agree_outside (unat offset + k) (length buf - k) (disk w) (disk w') \<and>
    (r = Inr () \<longrightarrow> disk w' = store_bytes (disk w) (unat offset + k) (drop k buf))"
  using assms
proof (induction E fd offset buf k w rule: write_loop.induct)
  case (1 E fd offset buf k w)
  note unfold = write_loop.simps [of E fd offset buf k w]
  show ?case
  proof (cases "k < length buf")
    case False
    with "1.prems"(1) "1.prems"(2) [unfolded unfold] show ?thesis by auto
  next
    case True
    obtain r1 w1 where call:
      "env_pwrite E fd (drop k buf) (offset + of_nat k) w = (r1, w1)" by fastforce
    note off = transfer_offset [OF "1.prems"(4) True]
    show ?thesis
    proof (cases r1)
      case (Inl e)
      with "1.prems" True call show ?thesis
        using pwrite_ok_Inl [OF "1.prems"(3) call [unfolded Inl] off(2)] off(1) by (auto simp: unfold)
    next
      case (Inr n)
      note st = pwrite_ok_Inr [OF "1.prems"(3) call [unfolded Inr] off(2), unfolded off(1)]
      show ?thesis
      proof (cases "n = 0")
        case True
        with "1.prems" \<open>k < length buf\<close> call Inr st show ?thesis by (auto simp: unfold)
      next
        case False
        have rec: "write_loop E fd offset buf (k + n) w1 = (r, w')"
          using "1.prems"(2) True call Inr False by (simp add: unfold)
        have le: "k + n \<le> length buf" using st(1) True by simp
        note IH = "1.IH" [OF True call [symmetric] Inr False le rec "1.prems"(3,4)]
        have "agree_outside (unat offset + k) (length buf - k) (disk w) (disk w1)"
          unfolding st(2) using st(1) by (intro agree_outside_store) simp
        moreover have "agree_outside (unat offset + k) (length buf - k) (disk w1) (disk w')"
          using IH le by (elim conjE agree_outside_mono) simp_all
        moreover have "store_bytes (disk w1) (unat offset + (k + n)) (drop (k + n) buf) =
            store_bytes (disk w) (unat offset + k) (drop k buf)"
          using store_append [of "disk w" "unat offset + k" "take n (drop k buf)" "drop (k + n) buf"]
            append_take_drop_id [of n "drop k buf"] st le
          by (simp add: ac_simps)
        ultimately show ?thesis
          using IH by (auto intro: agree_outside_trans)
      qed
    qed
  qed
qed

lemma write_loop_live:
  assumes "pwrite_ok E disk fd" "pwrite_live E fd dev_size"
  shows "unat offset + length buf < 2 ^ 63 \<Longrightarrow> unat offset + length buf \<le> dev_size \<Longrightarrow>
    \<exists>w'. write_loop E fd offset buf k w = (Inr (), w')"
  using assms
proof (induction E fd offset buf k w rule: write_loop.induct)
  case (1 E fd offset buf k w)
  note unfold = write_loop.simps [of E fd offset buf k w]
  show ?case
  proof (cases "k < length buf")
    case False
    then show ?thesis by (simp add: unfold)
  next
    case True
    note off = transfer_offset [OF "1.prems"(1) True]
    have "drop k buf \<noteq> []" "nat (sint (offset + of_nat k)) + length (drop k buf) \<le> dev_size"
      using True "1.prems"(2) by (simp_all add: off(1))
    then obtain n w1 where call:
      "env_pwrite E fd (drop k buf) (offset + of_nat k) w = (Inr n, w1)" "0 < n"
      using "1.prems"(4) off(2) unfolding pwrite_live_def by blast
    then have "n \<noteq> 0" by simp
    from "1.IH" [OF True call(1) [symmetric] refl this "1.prems"] show ?thesis
      using True call by (simp add: unfold)
  qed
qed

section \<open>Blocks by LBA\<close>

text \<open>The block of the device at an LBA.\<close>

definition disk_block :: "store \<Rightarrow> nat \<Rightarrow> u64 \<Rightarrow> u8 list" where
  "disk_block d bs lba = load_bytes d (unat lba * bs) bs"

text \<open>The block lies below the largest file offset, so no arithmetic wraps.\<close>

definition lba_fits :: "nat \<Rightarrow> u64 \<Rightarrow> bool" where
  "lba_fits bs lba \<longleftrightarrow> unat lba * bs + bs < 2 ^ 63"

lemma unat_lba_offset: "lba_fits (unat bs) lba \<Longrightarrow> unat (lba * bs) = unat lba * unat bs"
  by (intro unat_mult_no_wrap) (simp add: lba_fits_def)

lemma length_disk_block [simp]: "length (disk_block d bs lba) = bs"
  by (simp add: disk_block_def)

lemma read_lba_post:
  assumes "pread_ok E disk fd" "lba_fits (unat bs) lba"
    "read_lba E fd lba bs ptr (unat bs) w m = (r, w', m')"
  shows "disk w' = disk w" "agree_outside ptr (unat bs) m m'"
    "r = Inr () \<Longrightarrow> m' = store_bytes m ptr (disk_block (disk w) (unat bs) lba)"
  using read_loop_post [OF assms(1) _ le0, of "lba * bs" "unat bs" ptr w m r w' m'] assms(2,3)
  by (simp_all add: unat_lba_offset lba_fits_def read_lba_def read_block_def disk_block_def)

lemma write_lba_post:
  assumes "pwrite_ok E disk fd" "lba_fits (unat bs) lba" "length buf = unat bs"
    "write_lba E fd lba bs buf w = (r, w')"
  shows "agree_outside (unat lba * unat bs) (unat bs) (disk w) (disk w')"
    "r = Inr () \<Longrightarrow> disk w' = store_bytes (disk w) (unat lba * unat bs) buf"
  using write_loop_post [OF assms(1) _ le0, of "lba * bs" buf w r w'] assms(2-4)
  by (simp_all add: unat_lba_offset lba_fits_def write_lba_def write_block_def)

lemma disk_block_store_same [store_simps]:
  "length buf = bs \<Longrightarrow> disk_block (store_bytes d (unat lba * bs) buf) bs lba = buf"
  by (simp add: disk_block_def load_store_same)

lemma lba_blocks_disjoint:
  "lba \<noteq> lba' \<Longrightarrow> disjoint_ranges (unat lba * bs) bs (unat lba' * bs) bs"
  using blocks_disjoint [of "unat lba" "unat lba'" 0 bs] by (simp add: word_unat_eq_iff)

lemma disk_block_other [store_simps]:
  "agree_outside (unat lba' * bs) bs d d' \<Longrightarrow> lba \<noteq> lba' \<Longrightarrow> disk_block d' bs lba = disk_block d bs lba"
  unfolding disk_block_def by (erule load_agree) (rule lba_blocks_disjoint)

lemma read_lba_live:
  assumes "pread_ok E disk fd" "pread_live E fd dev_size" "lba_fits (unat bs) lba"
    "unat lba * unat bs + unat bs \<le> dev_size"
  shows "\<exists>w' m'. read_lba E fd lba bs ptr (unat bs) w m = (Inr (), w', m')"
  using read_loop_live [OF assms(1,2)] assms(3,4)
  by (simp add: read_lba_def read_block_def unat_lba_offset lba_fits_def)

lemma write_lba_live:
  assumes "pwrite_ok E disk fd" "pwrite_live E fd dev_size" "lba_fits (unat bs) lba"
    "unat lba * unat bs + unat bs \<le> dev_size" "length buf = unat bs"
  shows "\<exists>w'. write_lba E fd lba bs buf w = (Inr (), w')"
  using write_loop_live [OF assms(1,2)] assms(3-5)
  by (simp add: write_lba_def write_block_def unat_lba_offset lba_fits_def)

section \<open>Properties\<close>

lemma read_loop_error:
  "read_loop E fd offset ptr len k w m = (Inl e, w', m') \<Longrightarrow> get_error_code e \<in> {''E0007'', ''E0012''}"
proof (induction E fd offset ptr len k w m rule: read_loop.induct)
  case (1 E fd offset ptr len k w m)
  from "1.prems" show ?case
    using "1.IH" io_err_code
    by (subst (asm) read_loop.simps) (auto simp: eof_error_def split: if_splits prod.splits sum.splits)
qed

lemma write_loop_error:
  "write_loop E fd offset buf k w = (Inl e, w') \<Longrightarrow> get_error_code e \<in> {''E0007'', ''E0012''}"
proof (induction E fd offset buf k w rule: write_loop.induct)
  case (1 E fd offset buf k w)
  from "1.prems" show ?case
    using "1.IH" io_err_code
    by (subst (asm) write_loop.simps)
      (auto simp: write_zero_error_def split: if_splits prod.splits sum.splits)
qed

text \<open>
  C25. \<open>read_lba\<close> under any pattern of short transfers and failures of \<open>pread\<close>: the device
  does not change and no byte of memory outside the buffer changes; on success the buffer
  holds exactly the device block at that LBA; a failure is reported as an I/O error or as
  permission denied.
\<close>

theorem read_lba_spec:
  assumes "pread_ok E disk fd" "lba_fits (unat bs) lba"
  shows "case read_lba E fd lba bs ptr (unat bs) w m of
      (r, w', m') \<Rightarrow>
        disk w' = disk w \<and> agree_outside ptr (unat bs) m m' \<and>
        (case r of
           Inr _ \<Rightarrow> load_bytes m' ptr (unat bs) = disk_block (disk w) (unat bs) lba
         | Inl e \<Rightarrow> get_error_code e \<in> {''E0007'', ''E0012''})"
proof (cases "read_lba E fd lba bs ptr (unat bs) w m")
  case (fields r w' m')
  show ?thesis
    using read_lba_post [OF assms fields] fields
    by (auto simp: load_store_same read_lba_def read_block_def dest: read_loop_error split: sum.splits)
qed

theorem read_lba_spec_witness:
  "pread_ok sim_env sim_disk 3 \<and> lba_fits (unat (4096 :: usize)) 5 \<and>
   (case read_lba sim_env 3 5 4096 65536 4096 (sim_init\<lparr>sim_disk := \<lambda>_. 9\<rparr>) (\<lambda>_. 0) of
      (r, w', m') \<Rightarrow> load_bytes m' 65536 4096 = replicate 4096 9)"
proof -
  let ?w = "sim_init\<lparr>sim_disk := \<lambda>_. 9\<rparr>"
  have f: "lba_fits (unat (4096 :: usize)) 5" by (simp add: lba_fits_def)
  obtain w' m' where ok: "read_lba sim_env 3 5 4096 65536 4096 ?w (\<lambda>_. 0) = (Inr (), w', m')"
    by (simp add: read_lba_def read_block_def read_loop.simps sim_defs sim_init_def
        flip: length_greater_0_conv)
  show ?thesis
    using f sim_pread_ok ok read_lba_spec [OF sim_pread_ok f, where fd = 3 and ptr = 65536
        and w = ?w and m = "\<lambda>_. 0"]
    by (simp add: disk_block_def load_const)
qed

text \<open>
  C26. \<open>write_lba\<close> under any pattern of short transfers and failures of \<open>pwrite\<close>: no byte
  of the device outside the block changes; on success the block holds exactly the buffer;
  after a failure (reported as an I/O error or as permission denied) only that block may
  be torn.
\<close>

theorem write_lba_spec:
  assumes "pwrite_ok E disk fd" "lba_fits (unat bs) lba" "length buf = unat bs"
  shows "case write_lba E fd lba bs buf w of
      (r, w') \<Rightarrow>
        agree_outside (unat lba * unat bs) (unat bs) (disk w) (disk w') \<and>
        (case r of
           Inr _ \<Rightarrow> disk_block (disk w') (unat bs) lba = buf
         | Inl e \<Rightarrow> get_error_code e \<in> {''E0007'', ''E0012''})"
proof (cases "write_lba E fd lba bs buf w")
  case (Pair r w')
  show ?thesis
    using write_lba_post [OF assms Pair] Pair assms(3)
    by (auto simp: disk_block_store_same write_lba_def write_block_def
        dest: write_loop_error split: sum.splits)
qed

theorem write_lba_spec_witness:
  "pwrite_ok sim_env sim_disk 3 \<and> lba_fits (unat (4096 :: usize)) 5 \<and>
   (case write_lba sim_env 3 5 4096 (replicate 4096 1) sim_init of
      (r, w') \<Rightarrow> disk_block (sim_disk w') 4096 5 = replicate 4096 1)"
proof -
  have f: "lba_fits (unat (4096 :: usize)) 5" by (simp add: lba_fits_def)
  have l: "length (replicate 4096 (1 :: u8)) = unat (4096 :: usize)" by simp
  obtain w' where ok: "write_lba sim_env 3 5 4096 (replicate 4096 1) sim_init = (Inr (), w')"
    by (simp add: write_lba_def write_block_def write_loop.simps sim_defs sim_init_def)
  show ?thesis
    using f sim_pwrite_ok ok write_lba_spec [OF sim_pwrite_ok f l, where fd = 3 and w = sim_init]
    by simp
qed

text \<open>
  Transfers complete: when the kernel makes progress on every request inside the device,
  reading and then writing any block inside the device both succeed, however short the
  individual transfers are.
\<close>

theorem block_io_completes:
  assumes "env_ok E disk fd" "pread_live E fd dev_size" "pwrite_live E fd dev_size"
    and "lba_fits (unat bs) lba" "unat lba * unat bs + unat bs \<le> dev_size" "length buf = unat bs"
  shows "(\<exists>w' m'. read_lba E fd lba bs ptr (unat bs) w m = (Inr (), w', m')) \<and>
    (\<exists>w'. write_lba E fd lba bs buf w = (Inr (), w'))"
  using read_lba_live [OF env_okD(1) [OF assms(1)] assms(2,4,5)]
    write_lba_live [OF env_okD(2) [OF assms(1)] assms(3-6)] by blast

theorem block_io_completes_witness:
  "lba_fits (unat (4096 :: usize)) 5 \<and>
   (\<exists>w' m'. read_lba reliable_env 3 5 4096 65536 4096 sim_init (\<lambda>_. 0) = (Inr (), w', m'))"
proof -
  have f: "lba_fits (unat (4096 :: usize)) 5" by (simp add: lba_fits_def)
  show ?thesis
    using f block_io_completes [OF reliable_env_ok reliable_pread_live [of 3 1048576]
        reliable_pwrite_live f, of "replicate 4096 0" 65536 sim_init "\<lambda>_. 0"]
    by simp
qed

text \<open>
  C27. Writing a block and reading blocks back is a round trip: after a successful write a
  successful read of the same block returns the bytes written, and a read of any other
  block returns what it held before the write.
\<close>

theorem lba_round_trip:
  assumes "env_ok E disk fd" "lba_fits (unat bs) lba" "lba_fits (unat bs) lba'" "length buf = unat bs"
    and "write_lba E fd lba bs buf w = (Inr (), w1)"
    and "read_lba E fd lba' bs ptr (unat bs) w1 m = (Inr (), w2, m')"
  shows "load_bytes m' ptr (unat bs) = (if lba' = lba then buf else disk_block (disk w) (unat bs) lba')"
proof -
  note wr = write_lba_post [OF env_okD(2) [OF assms(1)] assms(2,4,5)]
  have "load_bytes m' ptr (unat bs) = disk_block (disk w1) (unat bs) lba'"
    using read_lba_post(3) [OF env_okD(1) [OF assms(1)] assms(3,6)] by (simp add: load_store_same)
  moreover have "disk_block (disk w1) (unat bs) lba' = disk_block (disk w) (unat bs) lba'" if "lba' \<noteq> lba"
    by (rule disk_block_other [OF wr(1) that])
  ultimately show ?thesis
    using wr(2) assms(4) by (simp add: disk_block_store_same)
qed

theorem lba_round_trip_witness:
  "\<exists>w1 w2 m'. write_lba reliable_env 3 5 4096 (replicate 4096 1) sim_init = (Inr (), w1) \<and>
     read_lba reliable_env 3 5 4096 65536 4096 w1 (\<lambda>_. 0) = (Inr (), w2, m') \<and>
     load_bytes m' 65536 4096 = replicate 4096 1"
proof -
  have f: "lba_fits (unat (4096 :: usize)) 5" by (simp add: lba_fits_def)
  obtain w1 where w1: "write_lba reliable_env 3 5 4096 (replicate 4096 1) sim_init = (Inr (), w1)"
    using write_lba_live [OF env_okD(2) [OF reliable_env_ok] reliable_pwrite_live [of 3 1048576] f] by fastforce
  obtain w2 m' where r: "read_lba reliable_env 3 5 4096 65536 (unat (4096 :: usize)) w1 (\<lambda>_. 0) = (Inr (), w2, m')"
    using read_lba_live [OF env_okD(1) [OF reliable_env_ok] reliable_pread_live [of 3 1048576] f] by fastforce
  show ?thesis
    using w1 r lba_round_trip [OF reliable_env_ok f f _ w1 r] by simp
qed

end
