(* ===== verification/Asm_Copy.thy ===== *)
theory Asm_Copy
  imports Memory "HOL-Library.Monad_Syntax"
begin

text \<open>
  The copy routines of \<open>src/src/asm\<close> at the level of the instructions they issue, on the
  x86_64 target: the non-temporal loop of 16-byte SSE2 loads and streaming stores, which
  faults on an address that is not 16-byte aligned (\<open>None\<close>), and \<open>REP MOVSB\<close>, one byte per
  iteration. Prefetches and fences have no effect on the memory one thread observes, so they
  are the identity here. The contract all routines share is the locale \<open>copy_routine\<close>.
\<close>

section \<open>Hints and fences\<close>

definition prefetch_read :: "nat \<Rightarrow> store \<Rightarrow> store" where
  "prefetch_read addr m = m"

definition prefetch_write :: "nat \<Rightarrow> store \<Rightarrow> store" where
  "prefetch_write addr m = m"

definition prefetch_nta :: "nat \<Rightarrow> store \<Rightarrow> store" where
  "prefetch_nta addr m = m"

definition store_fence :: "store \<Rightarrow> store" where
  "store_fence m = m"

definition full_fence :: "store \<Rightarrow> store" where
  "full_fence m = m"

section \<open>The non-temporal copy\<close>

definition CHUNK_SIZE :: nat where
  "CHUNK_SIZE = 64"

text \<open>\<open>_mm_load_si128\<close> and \<open>_mm_stream_si128\<close> raise a general-protection fault on an
  address that is not a multiple of 16.\<close>

definition mm_load_si128 :: "nat \<Rightarrow> store \<Rightarrow> u8 list option" where
  "mm_load_si128 p m = (if p mod 16 = 0 then Some (load_bytes m p 16) else None)"

definition mm_stream_si128 :: "nat \<Rightarrow> u8 list \<Rightarrow> store \<Rightarrow> store option" where
  "mm_stream_si128 p v m = (if p mod 16 = 0 then Some (store_bytes m p v) else None)"

text \<open>One iteration of the loop body: prefetch the next line, four loads, four stores.\<close>

definition nt_chunk :: "nat \<Rightarrow> nat \<Rightarrow> nat \<Rightarrow> nat \<Rightarrow> store \<Rightarrow> store option" where
  "nt_chunk dst src num_chunks i m =
     (let offset = i * CHUNK_SIZE;
          m = (if i + 1 < num_chunks
               then prefetch_write (dst + (i + 1) * CHUNK_SIZE)
                      (prefetch_read (src + (i + 1) * CHUNK_SIZE) m)
               else m)
      in do {
        s0 \<leftarrow> mm_load_si128 (src + offset) m;
        s1 \<leftarrow> mm_load_si128 (src + (offset + 16)) m;
        s2 \<leftarrow> mm_load_si128 (src + (offset + 32)) m;
        s3 \<leftarrow> mm_load_si128 (src + (offset + 48)) m;
        m \<leftarrow> mm_stream_si128 (dst + offset) s0 m;
        m \<leftarrow> mm_stream_si128 (dst + (offset + 16)) s1 m;
        m \<leftarrow> mm_stream_si128 (dst + (offset + 32)) s2 m;
        mm_stream_si128 (dst + (offset + 48)) s3 m
      })"

text \<open>\<open>for i in 0..num_chunks\<close>, with \<open>k\<close> iterations left from index \<open>i\<close>.\<close>

primrec nt_loop :: "nat \<Rightarrow> nat \<Rightarrow> nat \<Rightarrow> nat \<Rightarrow> nat \<Rightarrow> store \<Rightarrow> store option" where
  "nt_loop dst src num_chunks i 0 m = Some m"
| "nt_loop dst src num_chunks i (Suc k) m =
     do { m \<leftarrow> nt_chunk dst src num_chunks i m; nt_loop dst src num_chunks (Suc i) k m }"

definition nt_memcpy :: "nat \<Rightarrow> nat \<Rightarrow> nat \<Rightarrow> store \<Rightarrow> store option" where
  "nt_memcpy dst src len m =
     (let num_chunks = len div CHUNK_SIZE
      in map_option store_fence (nt_loop dst src num_chunks 0 num_chunks m))"

section \<open>The temporal copy\<close>

text \<open>\<open>REP MOVSB\<close> with the direction flag clear: RCX bytes, one at a time, upwards.\<close>

primrec rep_movsb :: "nat \<Rightarrow> nat \<Rightarrow> nat \<Rightarrow> store \<Rightarrow> store" where
  "rep_movsb 0 rdi rsi m = m"
| "rep_movsb (Suc rcx) rdi rsi m = rep_movsb rcx (Suc rdi) (Suc rsi) (m(rdi := m rsi))"

definition erms_memcpy :: "nat \<Rightarrow> nat \<Rightarrow> nat \<Rightarrow> store \<Rightarrow> store" where
  "erms_memcpy dst src len m = rep_movsb len dst src m"

text \<open>\<open>std::ptr::copy_nonoverlapping\<close>, the reference.\<close>

definition copy_nonoverlapping :: "nat \<Rightarrow> nat \<Rightarrow> nat \<Rightarrow> store \<Rightarrow> store" where
  "copy_nonoverlapping src dst n m = store_bytes m dst (load_bytes m src n)"

definition cpu_supports_erms :: "'w env \<Rightarrow> bool" where
  "cpu_supports_erms E = env_erms E"

section \<open>Dispatch\<close>

datatype copy_strategy = NonTemporal | Erms | Generic

fun copy_strategy_display :: "copy_strategy \<Rightarrow> string" where
  "copy_strategy_display NonTemporal = ''MOVNTDQ (non-temporal streaming)''"
| "copy_strategy_display Erms = ''REP MOVSB (Enhanced REP MOVSB)''"
| "copy_strategy_display Generic = ''generic memcpy (fallback)''"

definition detect_strategy :: "'w env \<Rightarrow> copy_strategy" where
  "detect_strategy E = NonTemporal"

definition fast_copy_nontemporal :: "nat \<Rightarrow> nat \<Rightarrow> nat \<Rightarrow> store \<Rightarrow> store option" where
  "fast_copy_nontemporal dst src len m = nt_memcpy dst src len m"

definition fast_copy_temporal :: "'w env \<Rightarrow> nat \<Rightarrow> nat \<Rightarrow> nat \<Rightarrow> store \<Rightarrow> store" where
  "fast_copy_temporal E dst src len m =
     (if cpu_supports_erms E then erms_memcpy dst src len m else copy_nonoverlapping src dst len m)"

section \<open>The contract of a copy routine\<close>

text \<open>
  A routine \<open>copy\<close> with a calling condition \<open>pre\<close> moves the source range to the destination,
  whenever the ranges are disjoint, and does nothing else.
\<close>

locale copy_routine =
  fixes copy :: "nat \<Rightarrow> nat \<Rightarrow> nat \<Rightarrow> store \<Rightarrow> store option"
    and pre :: "nat \<Rightarrow> nat \<Rightarrow> nat \<Rightarrow> bool"
  assumes copies: "pre dst src n \<Longrightarrow> disjoint_ranges dst n src n \<Longrightarrow>
    copy dst src n m = Some (store_bytes m dst (load_bytes m src n))"
begin

lemma dst_holds_src:
  assumes "pre dst src n" "disjoint_ranges dst n src n"
  shows "\<exists>m'. copy dst src n m = Some m' \<and> load_bytes m' dst n = load_bytes m src n \<and>
    load_bytes m' src n = load_bytes m src n \<and> agree_outside dst n m m'"
  using copies [OF assms] assms(2)
  by (auto simp: load_store_same load_store_disjoint disjoint_ranges_sym agree_outside_store)

lemma copy_frame:
  assumes "pre dst src n" "disjoint_ranges dst n src n" "copy dst src n m = Some m'"
    "disjoint_ranges p k dst n"
  shows "load_bytes m' p k = load_bytes m p k"
  using assms by (auto simp: copies load_store_disjoint)

end

section \<open>Every routine meets it\<close>

lemma rep_movsb_store:
  "disjoint_ranges d n s n \<Longrightarrow> rep_movsb n d s m = store_bytes m d (load_bytes m s n)"
proof (induction n arbitrary: d s m)
  case 0
  then show ?case by simp
next
  case (Suc n)
  from Suc.prems have dis: "disjoint_ranges (Suc d) n (Suc s) n"
    by (auto simp: disjoint_ranges_def)
  have "load_bytes (m(d := m s)) (Suc s) n = load_bytes m (Suc s) n"
    using Suc.prems by (intro load_cong) (auto simp: disjoint_ranges_def)
  with Suc.IH [OF dis] have
    "rep_movsb (Suc n) d s m = store_bytes (m(d := m s)) (Suc d) (load_bytes m (Suc s) n)"
    by (simp only: rep_movsb.simps)
  also have "m(d := m s) = store_bytes m d [m s]"
    by (auto simp: store_bytes_def fun_eq_iff)
  also have "store_bytes (store_bytes m d [m s]) (Suc d) (load_bytes m (Suc s) n)
      = store_bytes m d ([m s] @ load_bytes m (Suc s) n)"
    using store_append [of m d "[m s]"] by simp
  also have "[m s] @ load_bytes m (Suc s) n = load_bytes m s (Suc n)"
    using load_append [of m s 1 n] by (simp add: load_bytes_def)
  finally show ?case .
qed

lemma mod16_line: "(p + i * 64 + j * 16) mod 16 = p mod (16 :: nat)"
proof -
  have "p + i * 64 + j * 16 = p + (i * 4 + j) * 16" by simp
  then show ?thesis by (simp only: mod_mult_self1)
qed

lemma nt_chunk_store:
  assumes "dst mod 16 = 0" "src mod 16 = 0"
  shows "nt_chunk dst src k i m = Some (store_bytes m (dst + i * 64) (load_bytes m (src + i * 64) 64))"
proof -
  have al: "(p + i * 64 + j * 16) mod 16 = 0" if "p mod 16 = 0" for p j :: nat
    using that by (simp only: mod16_line)
  have st: "store_bytes (store_bytes m p xs) q ys = store_bytes m p (xs @ ys)"
    if "q = p + length xs" for p q xs ys and m :: store
    using that by (simp add: store_append)
  have "load_bytes m p 64 = load_bytes m p 16 @ load_bytes m (p + 16) 16 @
      load_bytes m (p + 32) 16 @ load_bytes m (p + 48) 16" for p
    using load_append [of m p 16 48] load_append [of m "p + 16" 16 32]
      load_append [of m "p + 32" 16 16] by (simp add: add.assoc)
  then show ?thesis
    using al [OF assms(1), of 0] al [OF assms(1), of 1] al [OF assms(1), of 2] al [OF assms(1), of 3]
      al [OF assms(2), of 0] al [OF assms(2), of 1] al [OF assms(2), of 2] al [OF assms(2), of 3]
    by (simp add: nt_chunk_def CHUNK_SIZE_def prefetch_read_def prefetch_write_def
        mm_load_si128_def mm_stream_si128_def Let_def st add.assoc)
qed

lemma nt_loop_store:
  assumes "dst mod 16 = 0" "src mod 16 = 0" "disjoint_ranges dst ((i + k) * 64) src ((i + k) * 64)"
  shows "nt_loop dst src n i k m =
    Some (store_bytes m (dst + i * 64) (load_bytes m (src + i * 64) (k * 64)))"
  using assms(3)
proof (induction k arbitrary: i m)
  case 0
  then show ?case by simp
next
  case (Suc k)
  let ?m = "store_bytes m (dst + i * 64) (load_bytes m (src + i * 64) 64)"
  have "load_bytes ?m (src + Suc i * 64) (k * 64) = load_bytes m (src + Suc i * 64) (k * 64)"
    using Suc.prems by (intro load_store_disjoint) (auto simp: disjoint_ranges_def)
  moreover have "nt_loop dst src n (Suc i) k ?m =
      Some (store_bytes ?m (dst + Suc i * 64) (load_bytes ?m (src + Suc i * 64) (k * 64)))"
    using Suc.prems by (intro Suc.IH) simp
  ultimately show ?case
    using store_append [of m "dst + i * 64" "load_bytes m (src + i * 64) 64"]
      load_append [of m "src + i * 64" 64 "k * 64"]
    by (simp add: nt_chunk_store assms(1,2) ac_simps)
qed

lemma nt_memcpy_store:
  assumes "dst mod 16 = 0" "src mod 16 = 0" "disjoint_ranges dst len src len"
  shows "nt_memcpy dst src len m = Some (store_bytes m dst (load_bytes m src (len div 64 * 64)))"
proof -
  have "disjoint_ranges dst ((0 + len div 64) * 64) src ((0 + len div 64) * 64)"
    using assms(3) by (rule disjoint_ranges_le) simp
  from nt_loop_store [OF assms(1,2) this] show ?thesis
    by (simp add: nt_memcpy_def CHUNK_SIZE_def store_fence_def Let_def)
qed

definition nt_pre :: "nat \<Rightarrow> nat \<Rightarrow> nat \<Rightarrow> bool" where
  "nt_pre dst src len \<longleftrightarrow> dst mod 16 = 0 \<and> src mod 16 = 0 \<and> len mod 64 = 0"

interpretation nt: copy_routine fast_copy_nontemporal nt_pre
  by unfold_locales
    (auto simp: fast_copy_nontemporal_def nt_pre_def nt_memcpy_store mod_eq_0_iff_dvd)

interpretation temporal: copy_routine "\<lambda>dst src n m. Some (fast_copy_temporal E dst src n m)"
    "\<lambda>_ _ _. True" for E
  by unfold_locales
    (simp add: fast_copy_temporal_def erms_memcpy_def rep_movsb_store copy_nonoverlapping_def)

lemma fast_copy_temporal_store:
  "disjoint_ranges dst n src n \<Longrightarrow>
    fast_copy_temporal E dst src n m = store_bytes m dst (load_bytes m src n)"
  using temporal.copies [of dst n src] by simp

section \<open>Properties\<close>

lemma nt_loop_fault:
  assumes "\<not> (dst mod 16 = 0 \<and> src mod 16 = 0)" "0 < k"
  shows "nt_loop dst src n i k m = None"
proof -
  note al = mod16_line [of _ i]
  have "nt_chunk dst src n i m = None"
  proof (cases "src mod 16 = 0")
    case True
    with assms(1) show ?thesis
      using al [of dst 0] al [of src 0] al [of src 1] al [of src 2] al [of src 3]
      by (simp add: nt_chunk_def CHUNK_SIZE_def prefetch_read_def prefetch_write_def Let_def
          mm_load_si128_def mm_stream_si128_def add.assoc)
  next
    case False
    then show ?thesis
      using al [of src 0]
      by (simp add: nt_chunk_def CHUNK_SIZE_def prefetch_read_def prefetch_write_def Let_def
          mm_load_si128_def)
  qed
  with assms(2) show ?thesis
    by (cases k) simp_all
qed

lemma nt_memcpy_fault:
  assumes "\<not> (dst mod 16 = 0 \<and> src mod 16 = 0)" "64 \<le> len"
  shows "nt_memcpy dst src len m = None"
  using nt_loop_fault [OF assms(1), of "len div 64" "len div 64" 0 m] assms(2)
  by (auto simp: nt_memcpy_def CHUNK_SIZE_def Let_def)

lemma nt_memcpy_cases:
  assumes "disjoint_ranges dst len src len"
  shows "nt_memcpy dst src len m =
    (if (dst mod 16 = 0 \<and> src mod 16 = 0) \<or> len < 64
     then Some (copy_nonoverlapping src dst (len div 64 * 64) m) else None)"
proof (cases "len < 64")
  case True
  then show ?thesis
    by (simp add: nt_memcpy_def CHUNK_SIZE_def store_fence_def copy_nonoverlapping_def)
next
  case False
  with assms show ?thesis
    using nt_memcpy_store [of dst src len m] nt_memcpy_fault [of dst src len m]
    by (auto simp: copy_nonoverlapping_def)
qed

text \<open>
  C29. The non-temporal copy against the reference copy, on every input with disjoint ranges:
  when both pointers are 16-byte aligned it has exactly the effect of
  \<open>ptr::copy_nonoverlapping\<close> on the whole cache lines of the range (all of it when the
  length is a multiple of 64, otherwise the tail is left uncopied); when one is not, and
  there is a line to copy, it faults.
\<close>

theorem nt_memcpy_spec:
  assumes "disjoint_ranges dst len src len"
  shows "nt_memcpy dst src len m =
    (if (dst mod 16 = 0 \<and> src mod 16 = 0) \<or> len < 64
     then Some (copy_nonoverlapping src dst (len div 64 * 64) m) else None)"
  using assms by (rule nt_memcpy_cases)

theorem nt_memcpy_spec_witness:
  "disjoint_ranges 4096 128 8192 128 \<and>
   nt_memcpy 4096 8192 128 (\<lambda>a. of_nat a) = Some (copy_nonoverlapping 8192 4096 128 (\<lambda>a. of_nat a)) \<and>
   nt_memcpy 4097 8192 128 (\<lambda>a. of_nat a) = None"
proof -
  have d: "disjoint_ranges 4096 128 8192 128" "disjoint_ranges 4097 128 8192 128"
    by (simp_all add: disjoint_ranges_def)
  show ?thesis
    using d nt_memcpy_spec [OF d(1), of "\<lambda>a. of_nat a"] nt_memcpy_spec [OF d(2), of "\<lambda>a. of_nat a"]
    by simp
qed

text \<open>
  Whichever copy the CPU feature test selects, the temporal copy of disjoint ranges
  leaves the source bytes in the destination and changes nothing else, so a buffer filled
  from a cache block holds exactly that block.
\<close>

theorem fast_copy_temporal_spec:
  assumes "disjoint_ranges dst len src len"
  shows "fast_copy_temporal E dst src len m = copy_nonoverlapping src dst len m \<and>
    load_bytes (fast_copy_temporal E dst src len m) dst len = load_bytes m src len \<and>
    agree_outside dst len m (fast_copy_temporal E dst src len m)"
  using temporal.copies [OF TrueI assms, where ?E = E and m = m]
    temporal.dst_holds_src [OF TrueI assms, where ?E = E and m = m]
  by (simp add: copy_nonoverlapping_def)

theorem fast_copy_temporal_spec_witness:
  "disjoint_ranges 0 3 8 3 \<and>
   load_bytes (fast_copy_temporal sim_env 0 8 3 (\<lambda>a. of_nat a)) 0 3 = [8, 9, 10]"
proof -
  have d: "disjoint_ranges 0 3 8 3" by (simp add: disjoint_ranges_def)
  have v: "load_bytes (\<lambda>a. of_nat a) 8 3 = [8, 9, 10]"
    by (simp add: load_bytes_def upt_rec)
  show ?thesis
    using d fast_copy_temporal_spec [OF d, of sim_env "\<lambda>a. of_nat a"]
    unfolding v by blast
qed

end
