(* ===== verification/Float64.thy ===== *)
theory Float64
  imports Complex_Main "HOL-Library.Log_Nat"
begin

text \<open>
  The double-precision arithmetic the watermark test uses, exactly: values are rationals (with
  infinities and NaN beside them) and every operation rounds its exact result to 53
  significant bits, to nearest with ties to even. Only results between \<open>2 ^ -64\<close> and
  \<open>2 ^ 64\<close> occur, so neither overflow nor subnormal numbers arise.
\<close>

section \<open>Rounding to an integer, ties to even\<close>

definition rne :: "rat \<Rightarrow> int" where
  "rne x = (let f = \<lfloor>x\<rfloor>; d = x - of_int f in
     if d < 1 / 2 then f else if 1 / 2 < d then f + 1 else if even f then f else f + 1)"

lemma rne_bounds: "\<lfloor>x\<rfloor> \<le> rne x" "rne x \<le> \<lfloor>x\<rfloor> + 1"
  by (auto simp: rne_def Let_def)

lemma rne_of_int [simp]: "rne (of_int n) = n"
  by (simp add: rne_def)

lemma rne_mono: "x \<le> y \<Longrightarrow> rne x \<le> rne y"
proof (cases "\<lfloor>x\<rfloor> = \<lfloor>y\<rfloor>")
  case True
  assume "x \<le> y"
  then show ?thesis by (auto simp: rne_def True Let_def)
next
  case False
  assume "x \<le> y"
  then have "\<lfloor>x\<rfloor> \<le> \<lfloor>y\<rfloor>" by (rule floor_mono)
  with False show ?thesis using rne_bounds [of x] rne_bounds [of y] by linarith
qed

lemma rne_error: "\<bar>of_int (rne x) - x\<bar> \<le> 1 / 2"
proof -
  have "of_int \<lfloor>x\<rfloor> \<le> x" "x < of_int \<lfloor>x\<rfloor> + 1" by linarith+
  then show ?thesis by (auto simp: rne_def Let_def)
qed

section \<open>Binary exponent\<close>

text \<open>\<open>2 powi (exponent q) \<le> q < 2 powi (exponent q + 1)\<close> for positive \<open>q\<close>.\<close>

definition exponent :: "rat \<Rightarrow> int" where
  "exponent q =
     (if 1 \<le> q then int (floorlog 2 (nat \<lfloor>q\<rfloor>)) - 1 else - int (floorlog 2 (nat \<lceil>1 / q\<rceil> - 1)))"

lemma floorlog2_bounds:
  assumes "0 < n"
  shows "2 ^ (floorlog 2 n - 1) \<le> n" "n < 2 ^ floorlog 2 n" "0 < floorlog 2 n"
  using floorlog_bounds [of n 2] assms by (auto simp: floorlog_eq_zero_iff intro!: Nat.gr0I)

lemma exponent_bounds:
  assumes "0 < q"
  shows "2 powi exponent q \<le> q" "q < 2 powi (exponent q + 1)"
proof -
  have "2 powi exponent q \<le> q \<and> q < 2 powi (exponent q + 1)"
  proof (cases "1 \<le> q")
    case True
    define n where "n = nat \<lfloor>q\<rfloor>"
    have n: "0 < n" "of_nat n \<le> q" "q < of_nat n + 1"
      using True by (simp_all add: n_def) linarith
    note b = floorlog2_bounds [OF n(1)]
    have e: "exponent q = int (floorlog 2 n - 1)"
      using True b(3) by (simp add: exponent_def n_def of_nat_diff)
    have "(2 :: rat) ^ (floorlog 2 n - 1) \<le> of_nat n"
      using b(1) by (metis of_nat_le_iff of_nat_numeral of_nat_power)
    moreover have "of_nat n + 1 \<le> (2 :: rat) ^ floorlog 2 n"
      using b(2) by (metis Suc_leI of_nat_Suc of_nat_le_iff of_nat_numeral of_nat_power add.commute)
    ultimately have "2 ^ (floorlog 2 n - 1) \<le> q" "q < 2 ^ floorlog 2 n"
      using n by linarith+
    moreover have "exponent q + 1 = int (floorlog 2 n)"
      using b(3) by (simp add: e of_nat_diff)
    ultimately show ?thesis
      by (simp only: e power_int_of_nat)
  next
    case False
    define n where "n = nat \<lceil>1 / q\<rceil>"
    have inv: "1 < 1 / q" using False assms by simp
    then have n: "1 < n" "1 / q \<le> of_nat n" "of_nat n - 1 < 1 / q"
      by (auto simp: n_def less_ceiling_iff) linarith+
    have n1: "0 < n - 1" using n(1) by simp
    note b = floorlog2_bounds [OF n1]
    define k where "k = floorlog 2 (n - 1)"
    have e: "exponent q = - int k" using False by (simp add: exponent_def n_def k_def)
    have "n \<le> 2 ^ k" using b(2) by (simp add: k_def)
    then have "1 / q \<le> (2 :: rat) ^ k"
      using n(2) by (metis of_nat_le_iff of_nat_numeral of_nat_power order_trans)
    then have lo: "1 / 2 ^ k \<le> q" using assms by (simp add: field_simps)
    have "2 ^ (k - 1) \<le> n - 1" using b(1) by (simp add: k_def)
    then have "(2 :: rat) ^ (k - 1) \<le> of_nat (n - 1)"
      by (metis of_nat_le_iff of_nat_numeral of_nat_power)
    then have "(2 :: rat) ^ (k - 1) < 1 / q" using n(1,3) by (simp add: of_nat_diff)
    then have hi: "q < 1 / 2 ^ (k - 1)" using assms by (simp add: field_simps)
    have "0 < k" using b(3) by (simp add: k_def)
    then have e1: "exponent q + 1 = - int (k - 1)" by (simp add: e of_nat_diff)
    have pw: "(2 :: rat) powi (- int j) = 1 / 2 ^ j" for j
      by (simp add: power_int_minus inverse_eq_divide)
    show ?thesis
      unfolding e1 unfolding e pw using lo hi by blast
  qed
  then show "2 powi exponent q \<le> q" "q < 2 powi (exponent q + 1)" by simp_all
qed

lemma exponent_mono: "0 < p \<Longrightarrow> p \<le> q \<Longrightarrow> exponent p \<le> exponent q"
proof (rule ccontr)
  assume p: "0 < p" "p \<le> q" and "\<not> exponent p \<le> exponent q"
  then have "exponent q + 1 \<le> exponent p" by simp
  then have "(2 :: rat) powi (exponent q + 1) \<le> 2 powi exponent p"
    by (intro power_int_increasing) simp_all
  with p exponent_bounds [of p] exponent_bounds [of q] show False by linarith
qed

section \<open>Rounding to 53 significant bits\<close>

definition ulp :: "rat \<Rightarrow> rat" where
  "ulp q = 2 powi (exponent q - 52)"

definition round53 :: "rat \<Rightarrow> rat" where
  "round53 q = (if q \<le> 0 then 0 else of_int (rne (q / ulp q)) * ulp q)"

lemma ulp_pos [simp]: "0 < ulp q"
  by (simp add: ulp_def)

lemma ulp_scale: "2 powi exponent q = 2 ^ 52 * ulp q" "2 powi (exponent q + 1) = 2 ^ 53 * ulp q"
proof -
  have "2 powi (exponent q - 52 + 52) = (2 :: rat) powi (exponent q - 52) * 2 powi 52"
    by (rule power_int_add) simp
  then show "2 powi exponent q = 2 ^ 52 * ulp q"
    by (simp add: ulp_def power_int_numeral)
  have "2 powi (exponent q - 52 + 53) = (2 :: rat) powi (exponent q - 52) * 2 powi 53"
    by (rule power_int_add) simp
  then show "2 powi (exponent q + 1) = 2 ^ 53 * ulp q"
    by (simp add: ulp_def power_int_numeral add.commute)
qed

lemma round53_binade:
  assumes "0 < q"
  shows "2 powi exponent q \<le> round53 q" "round53 q \<le> 2 powi (exponent q + 1)"
proof -
  have "2 ^ 52 \<le> q / ulp q" "q / ulp q \<le> 2 ^ 53"
    using exponent_bounds [OF assms] unfolding ulp_scale by (simp_all add: field_simps)
  then have "rne (of_int (2 ^ 52)) \<le> rne (q / ulp q)" "rne (q / ulp q) \<le> rne (of_int (2 ^ 53))"
    by (intro rne_mono; simp)+
  then have "(2 :: int) ^ 52 \<le> rne (q / ulp q)" "rne (q / ulp q) \<le> 2 ^ 53"
    by (simp_all only: rne_of_int)
  then have "of_int (2 ^ 52) \<le> (of_int (rne (q / ulp q)) :: rat)"
    "of_int (rne (q / ulp q)) \<le> (of_int (2 ^ 53) :: rat)"
    by (simp_all only: of_int_le_iff)
  then have "(2 :: rat) ^ 52 \<le> of_int (rne (q / ulp q))" "of_int (rne (q / ulp q)) \<le> (2 :: rat) ^ 53"
    by (simp_all only: of_int_power of_int_numeral)
  with assms show "2 powi exponent q \<le> round53 q" "round53 q \<le> 2 powi (exponent q + 1)"
    unfolding ulp_scale by (simp_all add: round53_def mult_right_mono less_imp_le del: power_numeral)
qed

lemma round53_nonneg: "0 \<le> round53 q"
proof (cases "q \<le> 0")
  case False
  then have "2 powi exponent q \<le> round53 q" by (intro round53_binade) simp
  moreover have "(0 :: rat) < 2 powi exponent q" by simp
  ultimately show ?thesis by linarith
qed (simp add: round53_def)

lemma round53_mono: "p \<le> q \<Longrightarrow> round53 p \<le> round53 q"
proof (cases "p \<le> 0")
  case True
  then show ?thesis using round53_nonneg [of q] by (simp add: round53_def)
next
  case False
  assume pq: "p \<le> q"
  with False have pos: "0 < p" "0 < q" by simp_all
  show ?thesis
  proof (cases "exponent p = exponent q")
    case True
    then have "ulp p = ulp q" by (simp add: ulp_def)
    moreover have "rne (p / ulp q) \<le> rne (q / ulp q)"
      using pq by (intro rne_mono divide_right_mono) (simp_all add: less_imp_le)
    ultimately show ?thesis using pos by (simp add: round53_def mult_right_mono less_imp_le)
  next
    case False
    with exponent_mono [OF pos(1) pq] have "exponent p + 1 \<le> exponent q" by simp
    then have "(2 :: rat) powi (exponent p + 1) \<le> 2 powi exponent q"
      by (intro power_int_increasing) simp_all
    with round53_binade(2) [OF pos(1)] round53_binade(1) [OF pos(2)] show ?thesis by linarith
  qed
qed

text \<open>The relative error of one rounding is at most \<open>2 ^ -53\<close>.\<close>

lemma round53_error: "0 \<le> q \<Longrightarrow> \<bar>round53 q - q\<bar> \<le> q / 2 ^ 53"
proof (cases "q \<le> 0")
  case True
  assume "0 \<le> q"
  with True show ?thesis by (simp add: round53_def)
next
  case False
  have "\<bar>of_int (rne (q / ulp q)) - q / ulp q\<bar> * ulp q \<le> 1 / 2 * ulp q"
    by (intro mult_right_mono rne_error less_imp_le) simp
  moreover have "\<bar>of_int (rne (q / ulp q)) - q / ulp q\<bar> * ulp q = \<bar>round53 q - q\<bar>"
  proof -
    have "\<bar>of_int (rne (q / ulp q)) - q / ulp q\<bar> * ulp q
        = \<bar>(of_int (rne (q / ulp q)) - q / ulp q) * ulp q\<bar>"
      by (simp add: abs_mult abs_of_pos)
    also have "(of_int (rne (q / ulp q)) - q / ulp q) * ulp q = round53 q - q"
      using False ulp_pos [of q] by (simp add: round53_def left_diff_distrib less_imp_neq [symmetric])
    finally show ?thesis .
  qed
  moreover have "2 ^ 52 * ulp q \<le> q"
    using exponent_bounds(1) [of q] False unfolding ulp_scale by simp
  ultimately show ?thesis by simp
qed

lemma round53_le_trans:
  assumes "0 \<le> q" "w \<le> round53 q"
  shows "w \<le> q * (1 + 1 / 2 ^ 53)"
proof -
  have "round53 q \<le> q + q / 2 ^ 53"
    using round53_error [OF assms(1)] by linarith
  with assms(2) show ?thesis by (simp add: distrib_left)
qed

lemma round53_1 [simp]: "round53 1 = 1"
proof -
  have "exponent 1 = 0" by (simp add: exponent_def floorlog_def)
  then have u: "2 ^ 52 * ulp 1 = 1" using ulp_scale(1) [of 1] by simp
  then have "1 / ulp 1 = of_int (2 ^ 52)"
    using ulp_pos [of 1] by (simp add: field_simps)
  then have "rne (1 / ulp 1) = 2 ^ 52" by (simp only: rne_of_int)
  with u show ?thesis by (simp add: round53_def)
qed

lemma round53_0 [simp]: "round53 0 = 0"
  by (simp add: round53_def)

end
