(* ===== verification/Flush_Control.thy ===== *)
theory Flush_Control
  imports Sim_Env Float64
begin

text \<open>
  When the flush thread runs: the schedule with its dirty watermark
  (\<open>src/src/flush/scheduler.rs\<close>) and the signalling between the engine and the thread
  (\<open>src/src/flush/sync.rs\<close>). The channel itself is \<open>crossbeam\<close>'s and part of the environment;
  what the code relies on is \<open>chan_ok\<close>, in terms of the one message a channel may hold.
\<close>

section \<open>Schedule\<close>

datatype f64 = Fin rat | Inf | NegInf | NaN

text \<open>\<open>(0.0..=1.0).contains(&x)\<close>: both comparisons are false for NaN.\<close>

fun in_unit_range :: "f64 \<Rightarrow> bool" where
  "in_unit_range (Fin x) \<longleftrightarrow> 0 \<le> x \<and> x \<le> 1"
| "in_unit_range Inf \<longleftrightarrow> False"
| "in_unit_range NegInf \<longleftrightarrow> False"
| "in_unit_range NaN \<longleftrightarrow> False"

text \<open>\<open>x >= w\<close> for a finite \<open>x\<close>.\<close>

fun fin_ge :: "rat \<Rightarrow> f64 \<Rightarrow> bool" where
  "fin_ge x (Fin w) \<longleftrightarrow> w \<le> x"
| "fin_ge x Inf \<longleftrightarrow> False"
| "fin_ge x NegInf \<longleftrightarrow> True"
| "fin_ge x NaN \<longleftrightarrow> False"

record flush_schedule =
  fs_interval :: nat
  fs_dirty_watermark :: f64

text \<open>\<open>FlushSchedule::new\<close> panics on a watermark outside the range.\<close>

definition flush_schedule_new :: "u64 \<Rightarrow> f64 \<Rightarrow> flush_schedule option" where
  "flush_schedule_new interval_secs dirty_watermark =
     (if in_unit_range dirty_watermark
      then Some \<lparr>fs_interval = unat interval_secs, fs_dirty_watermark = dirty_watermark\<rparr>
      else None)"

definition flush_schedule_default :: flush_schedule where
  "flush_schedule_default = \<lparr>fs_interval = 5, fs_dirty_watermark = Fin (3 / 4)\<rparr>"

definition usize_as_f64 :: "usize \<Rightarrow> rat" where
  "usize_as_f64 n = round53 (of_nat (unat n))"

definition should_flush_immediately :: "flush_schedule \<Rightarrow> usize \<Rightarrow> usize \<Rightarrow> bool" where
  "should_flush_immediately sch dirty_count total_count =
     (if total_count = 0 then False
      else
        (let ratio = round53 (usize_as_f64 dirty_count / usize_as_f64 total_count)
         in fin_ge ratio (fs_dirty_watermark sch)))"

section \<open>Signalling\<close>

text \<open>The two halves share the channel and the stop flag.\<close>

record flush_link =
  fl_chan :: nat
  fl_stop :: bool

definition flush_channel :: "'w env \<Rightarrow> 'w \<Rightarrow> flush_link \<times> 'w" where
  "flush_channel E w = (case env_bounded1 E w of (c, w') \<Rightarrow> (\<lparr>fl_chan = c, fl_stop = False\<rparr>, w'))"

definition notifier_wake :: "'w env \<Rightarrow> nat \<Rightarrow> 'w \<Rightarrow> 'w" where
  "notifier_wake E c w = env_try_send E c Wake w"

definition notifier_shutdown :: "'w env \<Rightarrow> flush_link \<Rightarrow> 'w \<Rightarrow> flush_link \<times> 'w" where
  "notifier_shutdown E l w = (l\<lparr>fl_stop := True\<rparr>, env_try_send E (fl_chan l) Shutdown w)"

definition is_stopped :: "flush_link \<Rightarrow> bool" where
  "is_stopped l = fl_stop l"

text \<open>The notifier reads the same flag.\<close>

definition notifier_is_stopped :: "flush_link \<Rightarrow> bool" where
  "notifier_is_stopped l = fl_stop l"

definition receiver_wait :: "'w env \<Rightarrow> nat \<Rightarrow> nat \<Rightarrow> 'w \<Rightarrow> flush_signal option \<times> 'w" where
  "receiver_wait E c timeout w =
     (case env_recv_timeout E c timeout w of
        (Inr signal, w') \<Rightarrow> (Some signal, w')
      | (Inl Timeout, w') \<Rightarrow> (None, w')
      | (Inl Disconnected, w') \<Rightarrow> (Some Shutdown, w'))"

text \<open>
  A channel of capacity one with a live receiver: \<open>try_send\<close> stores the message if the place
  is empty and drops it otherwise; \<open>recv_timeout\<close> takes a pending message and reports a
  timeout only when there is none.
\<close>

definition chan_ok :: "'w env \<Rightarrow> ('w \<Rightarrow> nat \<Rightarrow> flush_signal option) \<Rightarrow> bool" where
  "chan_ok E pending \<longleftrightarrow>
     (\<forall>c s w. pending (env_try_send E c s w) c =
        (case pending w c of None \<Rightarrow> Some s | Some s' \<Rightarrow> Some s')) \<and>
     (\<forall>c d w s. pending w c = Some s \<longrightarrow>
        fst (env_recv_timeout E c d w) = Inr s \<and> pending (snd (env_recv_timeout E c d w)) c = None)"

section \<open>Facts\<close>

lemma round53_small_nat:
  assumes "n < 2 ^ 53"
  shows "round53 (of_nat n) = of_nat n"
proof (cases "n = 0")
  case False
  let ?q = "of_nat n :: rat"
  have pos: "0 < ?q" using False by simp
  have "?q < 2 ^ 53"
    using assms by (metis of_nat_less_iff of_nat_numeral of_nat_power)
  have "exponent ?q \<le> 52"
  proof (rule ccontr)
    assume "\<not> exponent ?q \<le> 52"
    then have "(2 :: rat) powi 53 \<le> 2 powi exponent ?q"
      by (intro power_int_increasing) simp_all
    with exponent_bounds(1) [OF pos] \<open>?q < 2 ^ 53\<close> show False
      by (simp add: power_int_numeral)
  qed
  then obtain k where k: "exponent ?q = 52 - int k"
    by (metis diff_diff_cancel diff_ge_0_iff_ge nonneg_int_cases add_diff_cancel_left' diff_add_cancel
        minus_diff_eq diff_eq_eq)
  then have u: "ulp ?q = 1 / 2 ^ k"
    by (simp add: ulp_def power_int_minus inverse_eq_divide)
  have "?q / ulp ?q = of_int (int n * 2 ^ k)" by (simp add: u)
  then have "rne (?q / ulp ?q) = int n * 2 ^ k" by (simp only: rne_of_int)
  with pos show ?thesis by (simp add: round53_def u)
qed simp

lemma usize_as_f64_exact: "unat n < 2 ^ 53 \<Longrightarrow> usize_as_f64 n = of_nat (unat n)"
  unfolding usize_as_f64_def by (rule round53_small_nat)

lemma should_flush_exact:
  assumes "0 < unat t" "unat t < 2 ^ 53" "unat n < 2 ^ 53"
  shows "should_flush_immediately sch n t =
    fin_ge (round53 (of_nat (unat n) / of_nat (unat t))) (fs_dirty_watermark sch)"
proof -
  have "t \<noteq> 0" using assms(1) by auto
  then show ?thesis
    using usize_as_f64_exact [OF assms(2)] usize_as_f64_exact [OF assms(3)]
    by (simp add: should_flush_immediately_def del: of_nat_unat)
qed

section \<open>Properties\<close>

text \<open>
  The watermark test, for counts below \<open>2 ^ 53\<close> (every pool is far smaller) and any
  watermark that is itself a double in the unit range: it never fires on an empty table;
  it fires whenever the exact fraction of dirty entries reaches the watermark; when it fires
  the fraction is below the watermark by at most a relative error of \<open>2 ^ -53\<close>; and more
  dirty entries never switch it off.
\<close>

theorem should_flush_threshold:
  assumes "unat t < 2 ^ 53" "unat n < 2 ^ 53"
    and "fs_dirty_watermark sch = Fin wm" "round53 wm = wm"
  shows "\<not> should_flush_immediately sch n 0 \<and>
    (0 < unat t \<longrightarrow>
       (wm \<le> of_nat (unat n) / of_nat (unat t) \<longrightarrow> should_flush_immediately sch n t) \<and>
       (should_flush_immediately sch n t \<longrightarrow>
          wm \<le> of_nat (unat n) / of_nat (unat t) * (1 + 1 / 2 ^ 53)) \<and>
       (\<forall>n'. unat n' < 2 ^ 53 \<and> n \<le> n' \<and> should_flush_immediately sch n t \<longrightarrow>
          should_flush_immediately sch n' t))"
proof (intro conjI impI allI)
  show "\<not> should_flush_immediately sch n 0"
    by (simp add: should_flush_immediately_def)
  assume t: "0 < unat t"
  note fire = should_flush_exact [OF t assms(1), of _ sch]
  note fire_n = fire [OF assms(2), unfolded assms(3) fin_ge.simps]
  note [simp del] = of_nat_unat
  let ?q = "of_nat (unat n) / of_nat (unat t) :: rat"
  show "should_flush_immediately sch n t" if "wm \<le> ?q"
    using round53_mono [OF that] assms(4) by (simp add: fire_n)
  show "wm \<le> ?q * (1 + 1 / 2 ^ 53)" if "should_flush_immediately sch n t"
    using that by (intro round53_le_trans) (simp_all add: fire_n)
  fix n' :: usize
  assume "unat n' < 2 ^ 53 \<and> n \<le> n' \<and> should_flush_immediately sch n t"
  then have n': "unat n' < 2 ^ 53" "unat n \<le> unat n'" "should_flush_immediately sch n t"
    by (simp_all add: word_le_nat_alt)
  have "?q \<le> of_nat (unat n') / of_nat (unat t)"
    using n'(2) by (intro divide_right_mono) simp_all
  from round53_mono [OF this] n'(3) show "should_flush_immediately sch n' t"
    by (simp add: fire_n fire [OF n'(1)] assms(3))
qed

theorem should_flush_threshold_witness:
  "should_flush_immediately \<lparr>fs_interval = 5, fs_dirty_watermark = Fin 1\<rparr> 7 7 \<and>
   \<not> should_flush_immediately \<lparr>fs_interval = 5, fs_dirty_watermark = Fin 1\<rparr> 7 0"
proof -
  have "round53 (of_nat 1) = of_nat 1" by (rule round53_small_nat) simp
  then show ?thesis
    using should_flush_threshold [where t = 7 and n = 7 and wm = 1 and sch = "\<lparr>fs_interval = 5, fs_dirty_watermark = Fin 1\<rparr>"]
    by simp
qed

text \<open>
  With the default watermark of 0.75 rounding is invisible for every table a pool can
  back: the flusher is woken exactly when at least three quarters of the cached blocks are
  dirty.
\<close>

theorem default_watermark_exact:
  assumes "0 < unat t" "unat t \<le> 2 ^ 51" "unat n \<le> unat t"
  shows "should_flush_immediately flush_schedule_default n t \<longleftrightarrow> 3 * unat t \<le> 4 * unat n"
proof -
  note [simp del] = of_nat_unat
  let ?q = "of_nat (unat n) / of_nat (unat t) :: rat"
  have small: "unat t < 2 ^ 53" "unat n < 2 ^ 53" using assms by simp_all
  have fire: "should_flush_immediately flush_schedule_default n t \<longleftrightarrow> 3 / 4 \<le> round53 ?q"
    by (simp add: should_flush_exact [OF assms(1) small] flush_schedule_default_def)
  have r34: "round53 (3 / 4) = 3 / 4"
  proof -
    have "rne (of_int (3 * 2 ^ 51)) = 3 * 2 ^ 51" by (rule rne_of_int)
    moreover have "\<lceil>4 / 3 :: rat\<rceil> = 2" by (simp add: ceiling_eq_iff)
    then have "exponent (3 / 4) = -1" by (simp add: exponent_def floorlog_def)
    ultimately show ?thesis
      by (simp add: round53_def ulp_def power_int_minus)
  qed
  have tpos: "(0 :: rat) < of_nat (unat t)" using assms(1) by simp
  have iff: "3 * unat t \<le> 4 * unat n \<longleftrightarrow> 3 / 4 \<le> ?q"
  proof -
    have "3 / 4 \<le> ?q \<longleftrightarrow> (of_nat (3 * unat t) :: rat) \<le> of_nat (4 * unat n)"
      using tpos by (simp add: field_simps)
    then show ?thesis by (simp only: of_nat_le_iff)
  qed
  show ?thesis
  proof (cases "3 * unat t \<le> 4 * unat n")
    case True
    with iff round53_mono [of "3 / 4" ?q] r34 fire show ?thesis by simp
  next
    case False
    then have "Suc (4 * unat n) \<le> 3 * unat t" by simp
    then have "(of_nat (Suc (4 * unat n)) :: rat) \<le> of_nat (3 * unat t)" by (simp only: of_nat_le_iff)
    then have gap: "?q + 1 / (4 * of_nat (unat t)) \<le> 3 / 4"
      using tpos by (simp add: field_simps)
    have "(of_nat (unat t) :: rat) \<le> of_nat (2 ^ 51)" using assms(2) by (simp only: of_nat_le_iff)
    then have "1 / 2 ^ 53 \<le> 1 / (4 * of_nat (unat t) :: rat)"
      using tpos by (intro divide_left_mono) simp_all
    moreover have "\<bar>round53 ?q - ?q\<bar> \<le> ?q / 2 ^ 53" by (rule round53_error) simp
    moreover have "?q < 3 / 4" using False iff by simp
    ultimately have "round53 ?q < 3 / 4" using gap by simp
    with False fire show ?thesis by simp
  qed
qed

theorem default_watermark_exact_witness:
  "should_flush_immediately flush_schedule_default 3 4 \<and> \<not> should_flush_immediately flush_schedule_default 2 4"
  using default_watermark_exact [of 4 3] default_watermark_exact [of 4 2] by simp

text \<open>
  A watermark of 1.0 does not mean periodic flushing only: as soon as every cached block
  is dirty, as after the first write into an empty cache, the flusher is woken immediately.
\<close>

theorem full_watermark_still_wakes:
  assumes "0 < unat t" "unat t < 2 ^ 53" "flush_schedule_new secs (Fin 1) = Some sch"
  shows "should_flush_immediately sch t t"
  using assms by (auto simp: should_flush_exact flush_schedule_new_def simp del: of_nat_unat)

theorem full_watermark_still_wakes_witness:
  "\<exists>sch. flush_schedule_new 5 (Fin 1) = Some sch \<and> should_flush_immediately sch 1 1"
proof -
  obtain sch where "flush_schedule_new 5 (Fin 1) = Some sch" by (simp add: flush_schedule_new_def)
  then show ?thesis using full_watermark_still_wakes [of 1 5 sch] by simp
qed

text \<open>
  A shutdown request is never lost, even when a wake-up already fills the channel: after
  \<open>shutdown()\<close> the stop flag is set and the very next \<open>wait\<close> returns a signal without
  waiting for the timeout, so the thread runs one more cycle and then sees the flag.
\<close>

theorem shutdown_reaches_thread:
  assumes "chan_ok E pending" "notifier_shutdown E l w = (l', w')"
  shows "is_stopped l' \<and> fl_chan l' = fl_chan l \<and>
    fst (receiver_wait E (fl_chan l') timeout w') \<noteq> None \<and>
    (pending w (fl_chan l) = None \<longrightarrow> fst (receiver_wait E (fl_chan l') timeout w') = Some Shutdown)"
proof -
  let ?c = "fl_chan l"
  have l': "l' = l\<lparr>fl_stop := True\<rparr>" and w': "w' = env_try_send E ?c Shutdown w"
    using assms(2) by (auto simp: notifier_shutdown_def)
  obtain s where s: "pending w' ?c = Some s" "pending w ?c = None \<Longrightarrow> s = Shutdown"
    using assms(1) unfolding chan_ok_def w' by (cases "pending w ?c") auto
  have "fst (env_recv_timeout E ?c timeout w') = Inr s"
    using assms(1) s(1) unfolding chan_ok_def by blast
  then have "fst (receiver_wait E ?c timeout w') = Some s"
    by (auto simp: receiver_wait_def split: prod.splits)
  with s(2) show ?thesis by (simp add: l' is_stopped_def)
qed

text \<open>The one-place channel of the concrete environment.\<close>

lemma sim_chan_ok: "chan_ok sim_env (\<lambda>w c. sim_pending w)"
  by (auto simp: chan_ok_def sim_defs split: option.splits)

theorem shutdown_reaches_thread_witness:
  "chan_ok sim_env (\<lambda>w c. sim_pending w) \<and>
   fst (receiver_wait sim_env 0 5 (snd (notifier_shutdown sim_env \<lparr>fl_chan = 0, fl_stop = False\<rparr> sim_init))) =
     Some Shutdown"
  using sim_chan_ok shutdown_reaches_thread [OF sim_chan_ok, where l = "\<lparr>fl_chan = 0, fl_stop = False\<rparr>"
      and w = sim_init and timeout = 5]
  by (auto simp: sim_init_def notifier_shutdown_def)

end
