(* ===== verification/Cache_State.thy ===== *)
theory Cache_State
  imports Pool Eviction Block_IO Asm_Copy Flush_Control
begin

text \<open>
  The state the read path, the write path and the flusher share, its invariant, and what a
  client of the cache observes: the \<open>view\<close>, which is the pool block where an LBA is cached
  and the device block where it is not. The lemmas say how each elementary change of the
  state (a slot taken, an entry dropped, a block stored, an entry inserted) acts on the
  invariant and on the view; the operations are compositions of these changes.
\<close>

section \<open>State\<close>

record 'w cache_state =
  cs_world :: 'w
  cs_mem :: store
  cs_pool :: memory_pool
  cs_table :: lba_table

abbreviation bsize :: "'w cache_state \<Rightarrow> nat" where
  "bsize s \<equiv> unat (mp_block_size (cs_pool s))"

abbreviation cached :: "'w cache_state \<Rightarrow> u64 \<Rightarrow> cache_entry option" where
  "cached s \<equiv> table_get (cs_table s)"

abbreviation slot_data :: "'w cache_state \<Rightarrow> usize \<Rightarrow> u8 list" where
  "slot_data s \<equiv> block_data (cs_pool s) (cs_mem s)"

section \<open>Invariant\<close>

text \<open>The structural part: the pool and the table are well-formed and slots are owned once.\<close>

definition entry_ok :: "memory_pool \<Rightarrow> u64 \<Rightarrow> cache_entry \<Rightarrow> bool" where
  "entry_ok P lba e \<longleftrightarrow> ce_pool_index e < mp_capacity P \<and> ce_pool_index e \<notin> pool_free P \<and>
     lba_fits (unat (mp_block_size P)) lba"

definition slots_unique :: "lba_table \<Rightarrow> bool" where
  "slots_unique t \<longleftrightarrow>
     (\<forall>l l' e e'. table_get t l = Some e \<and> table_get t l' = Some e' \<and>
        ce_pool_index e = ce_pool_index e' \<longrightarrow> l = l')"

definition struct_inv :: "'w cache_state \<Rightarrow> bool" where
  "struct_inv s \<longleftrightarrow> pool_inv (cs_pool s) \<and> table_inv (cs_table s) \<and> slots_unique (cs_table s) \<and>
     (\<forall>lba e. cached s lba = Some e \<longrightarrow> entry_ok (cs_pool s) lba e)"

text \<open>The data part: a clean entry holds what the device holds.\<close>

definition coherent :: "'w disk_view \<Rightarrow> 'w cache_state \<Rightarrow> bool" where
  "coherent disk s \<longleftrightarrow>
     (\<forall>lba e. cached s lba = Some e \<and> \<not> ce_dirty e \<longrightarrow>
        slot_data s (ce_pool_index e) = disk_block (disk (cs_world s)) (bsize s) lba)"

definition cache_inv :: "'w disk_view \<Rightarrow> 'w cache_state \<Rightarrow> bool" where
  "cache_inv disk s \<longleftrightarrow> struct_inv s \<and> coherent disk s"

text \<open>Every slot is either free or owned by an entry: nothing has leaked.\<close>

definition no_leak :: "'w cache_state \<Rightarrow> bool" where
  "no_leak s \<longleftrightarrow>
     length (mp_free_list (cs_pool s)) + length (lt_inner (cs_table s)) = unat (mp_capacity (cs_pool s))"

section \<open>View\<close>

definition view :: "'w disk_view \<Rightarrow> 'w cache_state \<Rightarrow> u64 \<Rightarrow> u8 list" where
  "view disk s lba =
     (case cached s lba of
        Some e \<Rightarrow> slot_data s (ce_pool_index e)
      | None \<Rightarrow> disk_block (disk (cs_world s)) (bsize s) lba)"

text \<open>A buffer of the caller's, of one block, outside the pool.\<close>

definition user_buf_ok :: "'w cache_state \<Rightarrow> nat \<Rightarrow> bool" where
  "user_buf_ok s ptr \<longleftrightarrow>
     disjoint_ranges ptr (bsize s) (mp_base_ptr (cs_pool s)) (pool_size (cs_pool s))"

text \<open>A slot that is neither free nor owned by an entry: one in the hands of an operation.\<close>

definition in_hand :: "'w cache_state \<Rightarrow> usize \<Rightarrow> bool" where
  "in_hand s i \<longleftrightarrow> i < mp_capacity (cs_pool s) \<and> i \<notin> pool_free (cs_pool s) \<and>
     (\<forall>lba e. cached s lba = Some e \<longrightarrow> ce_pool_index e \<noteq> i)"

section \<open>Elementary facts\<close>

lemma length_view [simp]: "length (view disk s lba) = bsize s"
  by (simp add: view_def split: option.splits)

lemma struct_invD:
  assumes "struct_inv s"
  shows "pool_inv (cs_pool s)" "pool_shape (cs_pool s)" "table_inv (cs_table s)"
    "slots_unique (cs_table s)" "\<And>lba e. cached s lba = Some e \<Longrightarrow> entry_ok (cs_pool s) lba e"
  using assms by (simp_all add: struct_inv_def pool_inv_def)

lemma cached_slot_unique:
  "struct_inv s \<Longrightarrow> cached s l = Some e \<Longrightarrow> cached s l' = Some e' \<Longrightarrow>
   ce_pool_index e = ce_pool_index e' \<Longrightarrow> l = l'"
  unfolding struct_inv_def slots_unique_def by blast

lemma cached_index:
  "struct_inv s \<Longrightarrow> cached s lba = Some e \<Longrightarrow> ce_pool_index e < mp_capacity (cs_pool s)"
  by (auto simp: struct_inv_def entry_ok_def)

lemma cached_fits:
  "struct_inv s \<Longrightarrow> cached s lba = Some e \<Longrightarrow> lba_fits (bsize s) lba"
  by (auto simp: struct_inv_def entry_ok_def)

lemma cached_block:
  "struct_inv s \<Longrightarrow> cached s lba = Some e \<Longrightarrow>
   get_block (cs_pool s) (ce_pool_index e) =
     \<lparr>bb_ptr = block_addr (cs_pool s) (ce_pool_index e), bb_size = mp_block_size (cs_pool s)\<rparr>"
  by (simp add: get_block_eq struct_invD cached_index)

section \<open>How elementary changes act\<close>

text \<open>The outside world moves without touching the device.\<close>

lemma world_change:
  assumes "disk w = disk (cs_world s)"
  shows "cache_inv disk (s\<lparr>cs_world := w\<rparr>) = cache_inv disk s"
    "view disk (s\<lparr>cs_world := w\<rparr>) = view disk s"
proof -
  show "cache_inv disk (s\<lparr>cs_world := w\<rparr>) = cache_inv disk s"
    using assms by (simp add: cache_inv_def struct_inv_def coherent_def)
  show "view disk (s\<lparr>cs_world := w\<rparr>) = view disk s"
    using assms by (intro ext) (simp add: view_def split: option.splits)
qed

lemma struct_world_mem [simp]:
  "struct_inv (s\<lparr>cs_world := w\<rparr>) = struct_inv s"
  "struct_inv (s\<lparr>cs_mem := m\<rparr>) = struct_inv s"
  by (simp_all add: struct_inv_def)

text \<open>Memory changes but every cached block keeps its bytes.\<close>

lemma mem_cong:
  assumes "\<And>lba e. cached s lba = Some e \<Longrightarrow>
    block_data (cs_pool s) m (ce_pool_index e) = slot_data s (ce_pool_index e)"
  shows "cache_inv disk (s\<lparr>cs_mem := m\<rparr>) = cache_inv disk s"
    "view disk (s\<lparr>cs_mem := m\<rparr>) = view disk s"
proof -
  have "coherent disk (s\<lparr>cs_mem := m\<rparr>) = coherent disk s"
    unfolding coherent_def using assms by (simp, metis)
  then show "cache_inv disk (s\<lparr>cs_mem := m\<rparr>) = cache_inv disk s"
    by (simp add: cache_inv_def)
  show "view disk (s\<lparr>cs_mem := m\<rparr>) = view disk s"
    using assms by (intro ext) (auto simp: view_def split: option.splits)
qed

text \<open>Memory outside the pool changes.\<close>

lemma mem_outside:
  assumes "struct_inv s" "agree_outside p n (cs_mem s) m"
    "disjoint_ranges p n (mp_base_ptr (cs_pool s)) (pool_size (cs_pool s))"
  shows "cache_inv disk (s\<lparr>cs_mem := m\<rparr>) = cache_inv disk s"
    "view disk (s\<lparr>cs_mem := m\<rparr>) = view disk s"
proof -
  have same: "block_data (cs_pool s) m (ce_pool_index e) = slot_data s (ce_pool_index e)"
    if "cached s lba = Some e" for lba e
    by (rule block_data_outside [OF assms(2,3) cached_index [OF assms(1) that]])
  show "cache_inv disk (s\<lparr>cs_mem := m\<rparr>) = cache_inv disk s"
    "view disk (s\<lparr>cs_mem := m\<rparr>) = view disk s"
    by (intro mem_cong same; assumption)+
qed

text \<open>A slot in hand is overwritten.\<close>

lemma mem_in_hand:
  assumes "in_hand s i" "agree_outside (block_addr (cs_pool s) i) (bsize s) (cs_mem s) m"
  shows "cache_inv disk (s\<lparr>cs_mem := m\<rparr>) = cache_inv disk s"
    "view disk (s\<lparr>cs_mem := m\<rparr>) = view disk s"
proof -
  have same: "block_data (cs_pool s) m (ce_pool_index e) = slot_data s (ce_pool_index e)"
    if "cached s lba = Some e" for lba e
    unfolding block_data_def
    using assms that
    by (intro load_agree [OF assms(2)] block_addr_disjoint) (auto simp: in_hand_def)
  show "cache_inv disk (s\<lparr>cs_mem := m\<rparr>) = cache_inv disk s"
    "view disk (s\<lparr>cs_mem := m\<rparr>) = view disk s"
    by (intro mem_cong same; assumption)+
qed

text \<open>The free-list changes within the pool.\<close>

lemma pool_free_update [simp]: "pool_free (P\<lparr>mp_free_list := fl\<rparr>) = set fl"
  by (simp add: pool_free_def)

lemma entry_ok_free_list:
  "entry_ok (P\<lparr>mp_free_list := fl\<rparr>) lba e \<longleftrightarrow>
   ce_pool_index e < mp_capacity P \<and> ce_pool_index e \<notin> set fl \<and> lba_fits (unat (mp_block_size P)) lba"
  by (simp add: entry_ok_def pool_free_def)

lemma pool_change:
  assumes "cache_inv disk s" "pool_inv ((cs_pool s)\<lparr>mp_free_list := fl\<rparr>)"
    "\<And>lba e. cached s lba = Some e \<Longrightarrow> ce_pool_index e \<notin> set fl"
  shows "cache_inv disk (s\<lparr>cs_pool := (cs_pool s)\<lparr>mp_free_list := fl\<rparr>\<rparr>)"
    "view disk (s\<lparr>cs_pool := (cs_pool s)\<lparr>mp_free_list := fl\<rparr>\<rparr>) = view disk s"
  using assms
  by (auto simp: cache_inv_def struct_inv_def coherent_def view_def fun_eq_iff entry_ok_free_list
      entry_ok_def split: option.splits)

text \<open>An entry whose block the device already holds is dropped.\<close>

lemma drop_entry:
  assumes "cache_inv disk s" "cached s lba = Some e"
    "slot_data s (ce_pool_index e) = disk_block (disk (cs_world s)) (bsize s) lba"
  shows "cache_inv disk (s\<lparr>cs_table := snd (table_remove (cs_table s) lba)\<rparr>)"
    "view disk (s\<lparr>cs_table := snd (table_remove (cs_table s) lba)\<rparr>) = view disk s"
    "in_hand (s\<lparr>cs_table := snd (table_remove (cs_table s) lba)\<rparr>) (ce_pool_index e)"
proof -
  have struct: "struct_inv s" using assms(1) by (simp add: cache_inv_def)
  show "cache_inv disk (s\<lparr>cs_table := snd (table_remove (cs_table s) lba)\<rparr>)"
    using assms(1)
    by (auto simp: cache_inv_def struct_inv_def coherent_def lt.inv_del slots_unique_def split: if_splits)
  show "view disk (s\<lparr>cs_table := snd (table_remove (cs_table s) lba)\<rparr>) = view disk s"
    using assms(2,3) by (auto simp: view_def fun_eq_iff split: option.splits)
  show "in_hand (s\<lparr>cs_table := snd (table_remove (cs_table s) lba)\<rparr>) (ce_pool_index e)"
    using struct_invD(5) [OF struct assms(2)] cached_slot_unique [OF struct _ assms(2)]
    by (auto simp: in_hand_def entry_ok_def split: if_splits)
qed

text \<open>An entry is inserted for a slot in hand.\<close>

lemma insert_entry:
  assumes "cache_inv disk s" "in_hand s (ce_pool_index e)" "ce_lba e = lba" "lba_fits (bsize s) lba"
    "cached s lba = None"
    "ce_dirty e \<or> slot_data s (ce_pool_index e) = disk_block (disk (cs_world s)) (bsize s) lba"
  shows "cache_inv disk (s\<lparr>cs_table := snd (table_insert (cs_table s) lba e)\<rparr>)"
    "view disk (s\<lparr>cs_table := snd (table_insert (cs_table s) lba e)\<rparr>) =
       (view disk s)(lba := slot_data s (ce_pool_index e))"
proof -
  show "cache_inv disk (s\<lparr>cs_table := snd (table_insert (cs_table s) lba e)\<rparr>)"
    using assms
    by (auto simp: cache_inv_def struct_inv_def coherent_def lt.inv_put slots_unique_def in_hand_def
        entry_ok_def split: if_splits) (metis option.inject)+
  show "view disk (s\<lparr>cs_table := snd (table_insert (cs_table s) lba e)\<rparr>) =
       (view disk s)(lba := slot_data s (ce_pool_index e))"
    by (auto simp: view_def fun_eq_iff split: option.splits)
qed

text \<open>An entry is replaced by one for the same slot, for instance when it is touched.\<close>

lemma replace_entry:
  assumes "cache_inv disk s" "cached s lba = Some e"
    "ce_lba e' = lba" "ce_pool_index e' = ce_pool_index e"
    "ce_dirty e' \<or> slot_data s (ce_pool_index e) = disk_block (disk (cs_world s)) (bsize s) lba"
  shows "cache_inv disk (s\<lparr>cs_table := snd (table_insert (cs_table s) lba e')\<rparr>)"
    "view disk (s\<lparr>cs_table := snd (table_insert (cs_table s) lba e')\<rparr>) = view disk s"
proof -
  have "slots_unique (cs_table s)" "entry_ok (cs_pool s) lba e"
    using assms(1,2) by (simp_all add: cache_inv_def struct_inv_def)
  then show "cache_inv disk (s\<lparr>cs_table := snd (table_insert (cs_table s) lba e')\<rparr>)"
    using assms
    by (auto simp: cache_inv_def struct_inv_def coherent_def lt.inv_put slots_unique_def
        entry_ok_def split: if_splits)
  show "view disk (s\<lparr>cs_table := snd (table_insert (cs_table s) lba e')\<rparr>) = view disk s"
    using assms(2,4) by (auto simp: view_def fun_eq_iff split: option.splits)
qed

text \<open>The block of a cached entry is overwritten and the entry is marked dirty.\<close>

lemma update_entry:
  assumes "cache_inv disk s" "cached s lba = Some e" "length bs = bsize s"
    "ce_lba e' = lba" "ce_pool_index e' = ce_pool_index e" "ce_dirty e'"
  defines "m \<equiv> store_bytes (cs_mem s) (block_addr (cs_pool s) (ce_pool_index e)) bs"
  shows "cache_inv disk (s\<lparr>cs_mem := m, cs_table := snd (table_insert (cs_table s) lba e')\<rparr>)"
    "view disk (s\<lparr>cs_mem := m, cs_table := snd (table_insert (cs_table s) lba e')\<rparr>) =
       (view disk s)(lba := bs)"
proof -
  have struct: "struct_inv s" using assms(1) by (simp add: cache_inv_def)
  have same: "block_data (cs_pool s) m (ce_pool_index e) = bs"
    by (simp add: m_def block_data_store_same assms(3))
  have other: "block_data (cs_pool s) m (ce_pool_index f) = slot_data s (ce_pool_index f)"
    if "cached s l = Some f" "l \<noteq> lba" for l f
    unfolding m_def
    using cached_slot_unique [OF struct that(1) assms(2)] that(2) assms(3)
    by (intro block_data_store_other) auto
  have "slots_unique (cs_table s)" "entry_ok (cs_pool s) lba e"
    using struct assms(2) by (simp_all add: struct_inv_def)
  then have "struct_inv (s\<lparr>cs_table := snd (table_insert (cs_table s) lba e')\<rparr>)"
    using struct assms(2,4,5)
    by (auto simp: struct_inv_def lt.inv_put slots_unique_def entry_ok_def split: if_splits)
  then have "struct_inv (s\<lparr>cs_mem := m, cs_table := snd (table_insert (cs_table s) lba e')\<rparr>)"
    by (simp add: struct_inv_def)
  moreover have "coherent disk (s\<lparr>cs_mem := m, cs_table := snd (table_insert (cs_table s) lba e')\<rparr>)"
    using assms(1,6) other by (auto simp: cache_inv_def coherent_def split: if_splits)
  ultimately show "cache_inv disk (s\<lparr>cs_mem := m, cs_table := snd (table_insert (cs_table s) lba e')\<rparr>)"
    by (simp add: cache_inv_def)
  show "view disk (s\<lparr>cs_mem := m, cs_table := snd (table_insert (cs_table s) lba e')\<rparr>) =
       (view disk s)(lba := bs)"
    using other same assms(5) by (auto simp: view_def fun_eq_iff split: option.splits)
qed

text \<open>The device block of a cached dirty entry changes in any way.\<close>

lemma disk_under_dirty:
  assumes "cache_inv disk s" "cached s lba = Some e" "ce_dirty e"
    "agree_outside (unat lba * bsize s) (bsize s) (disk (cs_world s)) (disk w)"
  shows "cache_inv disk (s\<lparr>cs_world := w\<rparr>)" "view disk (s\<lparr>cs_world := w\<rparr>) = view disk s"
proof -
  have blk: "disk_block (disk w) (bsize s) l = disk_block (disk (cs_world s)) (bsize s) l" if "l \<noteq> lba" for l
    using disk_block_other [OF assms(4) that] .
  show "cache_inv disk (s\<lparr>cs_world := w\<rparr>)"
    using assms(1-3) blk by (auto simp: cache_inv_def struct_inv_def coherent_def) (metis option.inject)
  show "view disk (s\<lparr>cs_world := w\<rparr>) = view disk s"
  proof (rule ext)
    show "view disk (s\<lparr>cs_world := w\<rparr>) l = view disk s l" for l
      using assms(2) blk [of l] by (cases "l = lba") (auto simp: view_def split: option.splits)
  qed
qed

end
