(* ===== verification/Read_Path.thy ===== *)
theory Read_Path
  imports Cache_State
begin

text \<open>
  Reads through the cache (\<open>src/src/engine/read_path.rs\<close>): a hit copies the pool block to the
  caller's buffer; a miss takes a slot, evicting an entry if the pool is full, reads the
  device block into it, inserts the entry and copies. Every early return (\<open>?\<close>) keeps the
  state changes made before it.
\<close>

section \<open>Operations\<close>

record read_result =
  rr_cache_hit :: bool

text \<open>The write-back of a dirty victim before its slot is reused.\<close>

definition flush_candidate ::
  "'w env \<Rightarrow> i32 \<Rightarrow> nat \<Rightarrow> eviction_candidate \<Rightarrow> 'w cache_state \<Rightarrow>
   unit cache_result \<times> 'w cache_state" where
  "flush_candidate E fd chan c s =
     (if ec_needs_flush c then
        (let block = get_block (cs_pool s) (ec_pool_index c)
         in case write_lba E fd (ec_lba c) (mp_block_size (cs_pool s))
                   (block_buffer_as_ref block (cs_mem s)) (cs_world s) of
              (Inl e, w) \<Rightarrow> (Inl e, s\<lparr>cs_world := w\<rparr>)
            | (Inr _, w) \<Rightarrow> (Inr (), s\<lparr>cs_world := notifier_wake E chan w\<rparr>))
      else (Inr (), s))"

definition inconsistent_msg :: string where
  "inconsistent_msg = ''pool exhausted but cache table is empty '' @
     [CHR 0xE2, CHR 0x80, CHR 0x94] @ '' inconsistent state''"

definition allocate_or_evict ::
  "'w env \<Rightarrow> i32 \<Rightarrow> nat \<Rightarrow> 'w cache_state \<Rightarrow> (usize \<times> block_buffer) cache_result \<times> 'w cache_state" where
  "allocate_or_evict E fd chan s =
     (case pool_allocate (cs_pool s) of
        (Inr r, P) \<Rightarrow> (Inr r, s\<lparr>cs_pool := P\<rparr>)
      | (Inl _, _) \<Rightarrow>
          (case select_eviction_candidate E (cs_table s) of
             None \<Rightarrow> (Inl (internal_err inconsistent_msg), s)
           | Some c \<Rightarrow>
               (case flush_candidate E fd chan c s of
                  (Inl e, s') \<Rightarrow> (Inl e, s')
                | (Inr _, s') \<Rightarrow>
                    (let t = snd (table_remove (cs_table s') (ec_lba c));
                         P = pool_deallocate (cs_pool s') (ec_pool_index c)
                     in case pool_allocate P of
                          (r, P') \<Rightarrow> (r, s'\<lparr>cs_table := t, cs_pool := P'\<rparr>)))))"

definition cached_read ::
  "'w env \<Rightarrow> u64 \<Rightarrow> nat \<Rightarrow> i32 \<Rightarrow> nat \<Rightarrow> 'w cache_state \<Rightarrow> read_result cache_result \<times> 'w cache_state" where
  "cached_read E lba user_ptr fd chan s =
     (let block_size = mp_block_size (cs_pool s)
      in case get_and_touch E (cs_table s) lba (cs_world s) of
           (Some pool_index, t, w) \<Rightarrow>
             (let block = get_block (cs_pool s) pool_index
              in (Inr \<lparr>rr_cache_hit = True\<rparr>,
                  s\<lparr>cs_table := t, cs_world := w,
                    cs_mem := fast_copy_temporal E user_ptr (bb_ptr block) (unat block_size) (cs_mem s)\<rparr>))
         | (None, _, _) \<Rightarrow>
             (case allocate_or_evict E fd chan s of
                (Inl e, s') \<Rightarrow> (Inl e, s')
              | (Inr (pool_index, pool_block), s') \<Rightarrow>
                  (case read_lba E fd lba block_size (bb_ptr pool_block) (unat (bb_size pool_block))
                          (cs_world s') (cs_mem s') of
                     (Inl e, w, m) \<Rightarrow> (Inl e, s'\<lparr>cs_world := w, cs_mem := m\<rparr>)
                   | (Inr _, w, m) \<Rightarrow>
                       (case entry_new E lba pool_index w of (entry, w') \<Rightarrow>
                          (Inr \<lparr>rr_cache_hit = False\<rparr>,
                           s'\<lparr>cs_table := snd (table_insert (cs_table s') lba entry), cs_world := w',
                              cs_mem := fast_copy_temporal E user_ptr (bb_ptr pool_block)
                                          (unat block_size) m\<rparr>)))))"

section \<open>Accounting\<close>

text \<open>\<open>n\<close> slots are neither free nor owned by an entry.\<close>

definition unaccounted :: "nat \<Rightarrow> 'w cache_state \<Rightarrow> bool" where
  "unaccounted n s \<longleftrightarrow>
     length (mp_free_list (cs_pool s)) + length (lt_inner (cs_table s)) + n =
       unat (mp_capacity (cs_pool s))"

lemma no_leak_unaccounted: "no_leak s = unaccounted 0 s"
  by (simp add: no_leak_def unaccounted_def)

text \<open>The geometry of the pool never changes.\<close>

definition same_geometry :: "'w cache_state \<Rightarrow> 'w cache_state \<Rightarrow> bool" where
  "same_geometry s s' \<longleftrightarrow> (\<exists>fl. cs_pool s' = (cs_pool s)\<lparr>mp_free_list := fl\<rparr>)"

lemma same_geometry_refl [simp, intro]: "cs_pool s' = cs_pool s \<Longrightarrow> same_geometry s s'"
  unfolding same_geometry_def by (rule exI [of _ "mp_free_list (cs_pool s)"]) simp

lemma same_geometry_trans:
  "same_geometry s s' \<Longrightarrow> same_geometry s' s'' \<Longrightarrow> same_geometry s s''"
  unfolding same_geometry_def by auto

lemma same_geometryD:
  assumes "same_geometry s s'"
  shows "mp_block_size (cs_pool s') = mp_block_size (cs_pool s)"
    "mp_capacity (cs_pool s') = mp_capacity (cs_pool s)"
    "mp_base_ptr (cs_pool s') = mp_base_ptr (cs_pool s)"
    "block_addr (cs_pool s') = block_addr (cs_pool s)"
    "pool_size (cs_pool s') = pool_size (cs_pool s)"
    "user_buf_ok s' = user_buf_ok s"
  using assms by (auto simp: same_geometry_def block_addr_def pool_size_def user_buf_ok_def fun_eq_iff)

section \<open>Eviction\<close>

lemma flush_candidate_post:
  assumes env: "env_ok E disk fd" and inv: "cache_inv disk s"
    and hit: "cached s (ec_lba c) = Some e" "ec_pool_index c = ce_pool_index e"
      "ec_needs_flush c = ce_dirty e"
    and run: "flush_candidate E fd chan c s = (r, s')"
  shows "cache_inv disk s'" "view disk s' = view disk s"
    "cs_pool s' = cs_pool s" "cs_table s' = cs_table s" "cs_mem s' = cs_mem s"
    "r = Inr () \<Longrightarrow>
       slot_data s' (ce_pool_index e) = disk_block (disk (cs_world s')) (bsize s') (ec_lba c)"
proof -
  have struct: "struct_inv s" using inv by (simp add: cache_inv_def)
  note quiet = quiet_okD(2) [OF env_okD(3) [OF env]]
  have goals: "cache_inv disk s' \<and> view disk s' = view disk s \<and>
    cs_pool s' = cs_pool s \<and> cs_table s' = cs_table s \<and> cs_mem s' = cs_mem s \<and>
    (r = Inr () \<longrightarrow>
       slot_data s' (ce_pool_index e) = disk_block (disk (cs_world s')) (bsize s') (ec_lba c))"
  proof (cases "ce_dirty e")
    case False
    then show ?thesis
      using run hit inv by (auto simp: flush_candidate_def cache_inv_def coherent_def)
  next
    case True
    obtain r1 w1 where wr: "write_lba E fd (ec_lba c) (mp_block_size (cs_pool s))
        (slot_data s (ce_pool_index e)) (cs_world s) = (r1, w1)" by fastforce
    note post = write_lba_post [OF env_okD(2) [OF env] cached_fits [OF struct hit(1)] _ wr, simplified]
    note keep = disk_under_dirty [OF inv hit(1) True, of w1]
    have blk: "block_buffer_as_ref (get_block (cs_pool s) (ce_pool_index e)) (cs_mem s) =
        slot_data s (ce_pool_index e)"
      by (simp add: cached_block [OF struct hit(1)] block_buffer_as_ref_def block_data_def)
    show ?thesis
    proof (cases r1)
      case (Inl x)
      then show ?thesis
        using run True hit wr keep post(1) by (auto simp: flush_candidate_def blk Let_def)
    next
      case (Inr u)
      have s': "s' = s\<lparr>cs_world := notifier_wake E chan w1\<rparr>" "r = Inr ()"
        using run True hit wr Inr by (simp_all add: flush_candidate_def blk Let_def)
      have d: "disk (notifier_wake E chan w1) = disk w1"
        by (simp add: notifier_wake_def quiet)
      have "cache_inv disk (s\<lparr>cs_world := notifier_wake E chan w1\<rparr>)"
        "view disk (s\<lparr>cs_world := notifier_wake E chan w1\<rparr>) = view disk s"
        using disk_under_dirty [OF inv hit(1) True, of "notifier_wake E chan w1"] post(1) d by simp_all
      moreover have "disk_block (disk w1) (bsize s) (ec_lba c) = slot_data s (ce_pool_index e)"
        using post(2) Inr by (simp add: disk_block_store_same)
      ultimately show ?thesis
        by (simp add: s' d)
    qed
  qed
  then show "cache_inv disk s'" "view disk s' = view disk s"
    "cs_pool s' = cs_pool s" "cs_table s' = cs_table s" "cs_mem s' = cs_mem s"
    "r = Inr () \<Longrightarrow>
       slot_data s' (ce_pool_index e) = disk_block (disk (cs_world s')) (bsize s') (ec_lba c)"
    by blast+
qed

text \<open>Taking the slot on top of the free-list.\<close>

lemma allocate_slot:
  assumes inv: "cache_inv disk s" and fl: "mp_free_list (cs_pool s) = fl @ [i]"
  defines "s' \<equiv> s\<lparr>cs_pool := (cs_pool s)\<lparr>mp_free_list := fl\<rparr>\<rparr>"
  shows "cache_inv disk s'" "view disk s' = view disk s" "in_hand s' i" "same_geometry s s'"
    "unaccounted n s \<Longrightarrow> unaccounted (Suc n) s'"
proof -
  have struct: "struct_inv s" using inv by (simp add: cache_inv_def)
  have pool: "pool_inv (cs_pool s)" by (rule struct_invD(1) [OF struct])
  then have pool': "pool_inv ((cs_pool s)\<lparr>mp_free_list := fl\<rparr>)"
    by (simp add: pool_inv_def fl)
  have notin: "ce_pool_index e \<notin> set (fl @ [i])" if "cached s lba = Some e" for lba e
    using struct_invD(5) [OF struct that] by (simp add: entry_ok_def pool_free_def fl)
  then show "cache_inv disk s'" "view disk s' = view disk s"
    unfolding s'_def by (intro pool_change inv pool'; force)+
  show "in_hand s' i"
    using pool notin by (fastforce simp: s'_def in_hand_def pool_inv_def fl)
  show "same_geometry s s'"
    by (auto simp: s'_def same_geometry_def)
  show "unaccounted n s \<Longrightarrow> unaccounted (Suc n) s'"
    by (simp add: s'_def unaccounted_def fl)
qed

lemma free_list_id: "mp_free_list P = fl \<Longrightarrow> P\<lparr>mp_free_list := fl\<rparr> = P"
  by (cases P) simp

lemma cs_pool_id: "cs_pool s = P \<Longrightarrow> s\<lparr>cs_table := t, cs_pool := P\<rparr> = s\<lparr>cs_table := t\<rparr>"
  by (cases s) simp

text \<open>Dropping an entry the device holds from a full pool and taking its slot.\<close>

lemma evict_slot:
  assumes inv: "cache_inv disk s" and full: "mp_free_list (cs_pool s) = []"
    and hit: "cached s lba = Some e"
      "slot_data s (ce_pool_index e) = disk_block (disk (cs_world s)) (bsize s) lba"
  defines "s' \<equiv> s\<lparr>cs_table := snd (table_remove (cs_table s) lba)\<rparr>"
  shows "pool_allocate (pool_deallocate (cs_pool s) (ce_pool_index e)) =
      (Inr (ce_pool_index e, \<lparr>bb_ptr = block_addr (cs_pool s) (ce_pool_index e),
         bb_size = mp_block_size (cs_pool s)\<rparr>), cs_pool s)"
    "cache_inv disk s'" "view disk s' = view disk s" "in_hand s' (ce_pool_index e)"
    "cached s' \<subseteq>\<^sub>m cached s" "unaccounted n s \<Longrightarrow> unaccounted (Suc n) s'"
proof -
  have struct: "struct_inv s" using inv by (simp add: cache_inv_def)
  have buf: "buffer_for_index (P\<lparr>mp_free_list := l\<rparr>) i = buffer_for_index P i" for P l i
    by (simp add: buffer_for_index_def)
  show "pool_allocate (pool_deallocate (cs_pool s) (ce_pool_index e)) =
      (Inr (ce_pool_index e, \<lparr>bb_ptr = block_addr (cs_pool s) (ce_pool_index e),
         bb_size = mp_block_size (cs_pool s)\<rparr>), cs_pool s)"
    using buffer_for_index_eq [OF struct_invD(2) [OF struct] cached_index [OF struct hit(1)]]
      free_list_id [OF full]
    by (simp add: pool_deallocate_def pool_allocate_def buf full Let_def)
  note drop = drop_entry [OF inv hit, folded s'_def]
  then show "cache_inv disk s'" "view disk s' = view disk s" "in_hand s' (ce_pool_index e)"
    by simp_all
  show "cached s' \<subseteq>\<^sub>m cached s"
    by (auto simp: s'_def map_le_def)
  show "unaccounted n s \<Longrightarrow> unaccounted (Suc n) s'"
    using lt.count_del_present [of "cs_table s" lba] hit(1) struct_invD(3) [OF struct]
    by (simp add: unaccounted_def s'_def)
qed

text \<open>
  \<open>allocate_or_evict\<close>, on every path: the invariant and the view are kept; entries are only
  removed, never added or changed; a slot handed out is in hand.
\<close>

definition evict_post ::
  "'w disk_view \<Rightarrow> 'w cache_state \<Rightarrow> (usize \<times> block_buffer) cache_result \<Rightarrow> 'w cache_state \<Rightarrow> bool" where
  "evict_post disk s r s' \<longleftrightarrow>
     cache_inv disk s' \<and> view disk s' = view disk s \<and> cs_mem s' = cs_mem s \<and>
     same_geometry s s' \<and> cached s' \<subseteq>\<^sub>m cached s \<and>
     (\<forall>i b. r = Inr (i, b) \<longrightarrow> in_hand s' i \<and>
        b = \<lparr>bb_ptr = block_addr (cs_pool s') i, bb_size = mp_block_size (cs_pool s')\<rparr>) \<and>
     (\<forall>n. unaccounted n s \<longrightarrow> unaccounted (if isl r then n else Suc n) s')"

lemma evict_postD:
  assumes "evict_post disk s r s'"
  shows "cache_inv disk s'" "view disk s' = view disk s" "cs_mem s' = cs_mem s" "same_geometry s s'"
    "cached s lba = None \<Longrightarrow> cached s' lba = None"
    "unaccounted n s \<Longrightarrow> unaccounted (if isl r then n else Suc n) s'"
proof -
  show "cached s lba = None \<Longrightarrow> cached s' lba = None"
    using assms unfolding evict_post_def map_le_def by (metis domIff)
qed (use assms in \<open>unfold evict_post_def, blast+\<close>)

lemma evict_post_slot:
  assumes "evict_post disk s (Inr ib) s'"
  obtains i where "in_hand s' i"
    "ib = (i, \<lparr>bb_ptr = block_addr (cs_pool s') i, bb_size = mp_block_size (cs_pool s')\<rparr>)"
  using assms unfolding evict_post_def by (cases ib) blast

lemma evict_post_slow:
  assumes env: "env_ok E disk fd" and inv: "cache_inv disk s"
    and full: "mp_free_list (cs_pool s) = []"
    and sel: "select_eviction_candidate E (cs_table s) = Some c"
    and run: "allocate_or_evict E fd chan s = (r, s')"
  shows "evict_post disk s r s'"
proof -
  have struct: "struct_inv s" using inv by (simp add: cache_inv_def)
  have alloc: "pool_allocate (cs_pool s) =
      (Inl (PoolExhausted (mp_capacity (cs_pool s)) (mp_capacity (cs_pool s))), cs_pool s)"
    using full by (simp add: pool_allocate_def)
  obtain e where hit: "cached s (ec_lba c) = Some e" "ec_pool_index c = ce_pool_index e"
      "ec_needs_flush c = ce_dirty e"
    using select_Some_entry [OF env_okD(4) [OF env] struct_invD(3) [OF struct] sel] .
  obtain r1 s1 where fc: "flush_candidate E fd chan c s = (r1, s1)" by fastforce
  note f = flush_candidate_post [OF env inv hit fc]
  show ?thesis
  proof (cases r1)
    case (Inl x)
    then show ?thesis
      using run alloc sel fc f by (auto simp: allocate_or_evict_def unaccounted_def evict_post_def)
  next
    case (Inr u)
    then have "r1 = Inr ()" by simp
    note ev = evict_slot [OF f(1) _ _ f(6) [OF this], unfolded f(3,4), OF full hit(1)]
    have res: "s' = s1\<lparr>cs_table := snd (table_remove (cs_table s) (ec_lba c))\<rparr>"
      "r = Inr (ce_pool_index e, \<lparr>bb_ptr = block_addr (cs_pool s) (ce_pool_index e),
         bb_size = mp_block_size (cs_pool s)\<rparr>)"
      using run alloc sel fc Inr ev(1) f(3,4) hit(2) cs_pool_id [of s1 "cs_pool s"]
      by (simp_all add: allocate_or_evict_def Let_def)
    have "unaccounted n s \<Longrightarrow> unaccounted (Suc n) s'" for n
      using ev(6) [of n] f(3,4) by (simp add: unaccounted_def res)
    then show ?thesis
      unfolding evict_post_def using ev(2-5) f(2,3,5) by (simp add: res f(4))
  qed
qed

lemma allocate_or_evict_post:
  assumes env: "env_ok E disk fd" and inv: "cache_inv disk s"
    and run: "allocate_or_evict E fd chan s = (r, s')"
  shows "evict_post disk s r s'"
proof -
  have "pool_inv (cs_pool s)" using inv by (simp add: cache_inv_def struct_inv_def)
  then show ?thesis
  proof (cases rule: pool_allocate_cases)
    case (slot i fl)
    have res: "s' = s\<lparr>cs_pool := (cs_pool s)\<lparr>mp_free_list := fl\<rparr>\<rparr>"
      "r = Inr (i, \<lparr>bb_ptr = block_addr (cs_pool s) i, bb_size = mp_block_size (cs_pool s)\<rparr>)"
      using run slot(3) by (simp_all add: allocate_or_evict_def)
    show ?thesis
      unfolding evict_post_def res
      using allocate_slot [OF inv slot(1)] by (simp add: block_addr_def)
  next
    case full
    show ?thesis
    proof (cases "select_eviction_candidate E (cs_table s)")
      case None
      then show ?thesis
        using run full(3) inv by (auto simp: allocate_or_evict_def evict_post_def)
    next
      case (Some c)
      show ?thesis by (rule evict_post_slow [OF env inv full(1) Some run])
    qed
  qed
qed

section \<open>Reads\<close>

text \<open>Only the pool and the caller's buffer at \<open>ptr\<close> may differ between \<open>s\<close> and \<open>m\<close>.\<close>

definition mem_frame :: "'w cache_state \<Rightarrow> nat \<Rightarrow> store \<Rightarrow> bool" where
  "mem_frame s ptr m \<longleftrightarrow>
     (\<forall>a. (a < ptr \<or> ptr + bsize s \<le> a) \<and>
          (a < mp_base_ptr (cs_pool s) \<or> mp_base_ptr (cs_pool s) + pool_size (cs_pool s) \<le> a) \<longrightarrow>
        m a = cs_mem s a)"

lemma mem_frame_refl [simp]: "mem_frame s ptr (cs_mem s)"
  by (simp add: mem_frame_def)

lemma mem_frame_user:
  "mem_frame s ptr m \<Longrightarrow> agree_outside ptr (bsize s) m m' \<Longrightarrow> mem_frame s ptr m'"
  unfolding mem_frame_def agree_outside_def by metis

lemma mem_frame_slot:
  assumes "mem_frame s ptr m" "i < mp_capacity (cs_pool s)"
    "agree_outside (block_addr (cs_pool s) i) (bsize s) m m'"
  shows "mem_frame s ptr m'"
  using assms(1,3) block_addr_range [OF assms(2)] unfolding mem_frame_def agree_outside_def
  by (metis le_trans less_le_trans)

lemma world_mem_swap: "s\<lparr>cs_world := w, cs_mem := m\<rparr> = s\<lparr>cs_mem := m, cs_world := w\<rparr>"
  by simp

text \<open>Copying a pool block to the caller.\<close>

lemma copy_to_user:
  fixes E :: "'w env"
  assumes struct: "struct_inv s" and i: "i < mp_capacity (cs_pool s)" and buf: "user_buf_ok s ptr"
  defines "m \<equiv> fast_copy_temporal E ptr (block_addr (cs_pool s) i) (bsize s) (cs_mem s)"
  shows "cache_inv disk (s\<lparr>cs_mem := m\<rparr>) = cache_inv disk s"
    "view disk (s\<lparr>cs_mem := m\<rparr>) = view disk s"
    "load_bytes m ptr (bsize s) = slot_data s i"
    "agree_outside ptr (bsize s) (cs_mem s) m"
proof -
  have "disjoint_ranges ptr (bsize s) (block_addr (cs_pool s) i) (bsize s)"
    using buf block_addr_range [OF i] by (auto simp: user_buf_ok_def disjoint_ranges_def)
  then have m: "m = store_bytes (cs_mem s) ptr (slot_data s i)"
    by (simp add: m_def fast_copy_temporal_store block_data_def)
  then show "load_bytes m ptr (bsize s) = slot_data s i"
    by (simp add: load_store_same)
  show agree: "agree_outside ptr (bsize s) (cs_mem s) m"
    unfolding m by (rule agree_outside_store) simp
  show "cache_inv disk (s\<lparr>cs_mem := m\<rparr>) = cache_inv disk s"
    "view disk (s\<lparr>cs_mem := m\<rparr>) = view disk s"
    using mem_outside [OF struct agree] buf by (simp_all add: user_buf_ok_def)
qed

text \<open>Only \<open>lba\<close> can be cached anew.\<close>

definition grows_by :: "u64 \<Rightarrow> 'w cache_state \<Rightarrow> 'w cache_state \<Rightarrow> bool" where
  "grows_by lba s s' \<longleftrightarrow> (\<forall>l. cached s l = None \<and> l \<noteq> lba \<longrightarrow> cached s' l = None)"

definition read_post ::
  "'w disk_view \<Rightarrow> 'w cache_state \<Rightarrow> u64 \<Rightarrow> nat \<Rightarrow> read_result cache_result \<Rightarrow> 'w cache_state \<Rightarrow> bool" where
  "read_post disk s lba ptr r s' \<longleftrightarrow>
     cache_inv disk s' \<and> view disk s' = view disk s \<and> same_geometry s s' \<and>
     mem_frame s ptr (cs_mem s') \<and> grows_by lba s s' \<and>
     (\<forall>v. r = Inr v \<longrightarrow> load_bytes (cs_mem s') ptr (bsize s) = view disk s lba \<and>
        rr_cache_hit v = (cached s lba \<noteq> None) \<and> cached s' lba \<noteq> None) \<and>
     (\<forall>n. unaccounted n s \<longrightarrow> unaccounted n s' \<or> isl r \<and> unaccounted (Suc n) s')"

lemma cached_read_hit:
  assumes env: "env_ok E disk fd" and inv: "cache_inv disk s" and buf: "user_buf_ok s ptr"
    and hit: "cached s lba = Some e"
    and run: "cached_read E lba ptr fd chan s = (r, s')"
  shows "read_post disk s lba ptr r s'"
proof -
  have struct: "struct_inv s" using inv by (simp add: cache_inv_def)
  define e' where "e' = fst (entry_touch E e (cs_world s))"
  define s1 where "s1 = s\<lparr>cs_table := snd (table_insert (cs_table s) lba e'), cs_world := snd (env_now E (cs_world s))\<rparr>"
  have e': "ce_lba e' = lba" "ce_pool_index e' = ce_pool_index e" "ce_dirty e' = ce_dirty e"
    using table_inv_get [OF struct_invD(3) [OF struct] hit] by (simp_all add: e'_def)
  have "ce_dirty e' \<or> slot_data s (ce_pool_index e) = disk_block (disk (cs_world s)) (bsize s) lba"
    using inv hit e' by (auto simp: cache_inv_def coherent_def)
  note rep = replace_entry [OF inv hit e'(1,2) this]
  have "disk (snd (env_now E (cs_world s))) =
      disk (cs_world (s\<lparr>cs_table := snd (table_insert (cs_table s) lba e')\<rparr>))"
    by (simp add: quiet_okD [OF env_okD(3) [OF env]])
  note touched = world_change [OF this]
  have s1: "cache_inv disk s1" "view disk s1 = view disk s"
    using touched rep by (simp_all add: s1_def)
  have geo: "cs_pool s1 = cs_pool s" "cs_mem s1 = cs_mem s" by (simp_all add: s1_def)
  have "struct_inv s1" "user_buf_ok s1 ptr"
    using s1(1) buf by (simp_all add: cache_inv_def user_buf_ok_def geo)
  note copy = copy_to_user [OF this(1) _ this(2), where E = E, unfolded geo]
  have res: "r = Inr \<lparr>rr_cache_hit = True\<rparr>"
    "s' = s1\<lparr>cs_mem := fast_copy_temporal E ptr (block_addr (cs_pool s) (ce_pool_index e)) (bsize s) (cs_mem s)\<rparr>"
    using run hit
    by (simp_all add: cached_read_def get_and_touch_eq cached_block [OF struct hit] e'_def s1_def Let_def)
  have "unaccounted n s \<Longrightarrow> unaccounted n s1" for n
    using lt.count_put_present [OF struct_invD(3) [OF struct] e'(1)] hit
    by (simp add: unaccounted_def s1_def)
  then have un: "unaccounted n s \<Longrightarrow> unaccounted n s'" for n
    by (simp add: res unaccounted_def)
  have "cached s' lba \<noteq> None" "grows_by lba s s'" by (simp_all add: res s1_def grows_by_def)
  moreover have "view disk s lba = slot_data s (ce_pool_index e)" by (simp add: view_def hit)
  moreover have "cs_pool s' = cs_pool s" "cs_mem s' = fast_copy_temporal E ptr (block_addr (cs_pool s) (ce_pool_index e)) (bsize s) (cs_mem s)"
    by (simp_all add: res geo)
  ultimately show ?thesis
    unfolding read_post_def
    using copy [OF cached_index [OF struct hit]] s1 hit un mem_frame_user [OF mem_frame_refl]
    by (simp add: res)
qed

text \<open>What the miss path does once the device block is in the slot it holds.\<close>

lemma read_fill:
  assumes env: "env_ok E disk fd" and inv: "cache_inv disk s" and buf: "user_buf_ok s ptr"
    and fits: "lba_fits (bsize s) lba" and miss: "cached s lba = None" and hand: "in_hand s i"
    and data: "slot_data s i = disk_block (disk (cs_world s)) (bsize s) lba"
    and s': "s' = s\<lparr>cs_table := snd (table_insert (cs_table s) lba (fst (entry_new E lba i (cs_world s)))),
      cs_world := snd (env_now E (cs_world s)),
      cs_mem := fast_copy_temporal E ptr (block_addr (cs_pool s) i) (bsize s) (cs_mem s)\<rparr>"
  shows "cache_inv disk s'" "view disk s' = view disk s" "cached s' lba \<noteq> None"
    "load_bytes (cs_mem s') ptr (bsize s) = view disk s lba"
    "agree_outside ptr (bsize s) (cs_mem s) (cs_mem s')"
    "unaccounted (Suc n) s \<Longrightarrow> unaccounted n s'"
proof -
  define e where "e = fst (entry_new E lba i (cs_world s))"
  define s1 where "s1 = s\<lparr>cs_table := snd (table_insert (cs_table s) lba e), cs_world := snd (env_now E (cs_world s))\<rparr>"
  have e: "ce_lba e = lba" "ce_pool_index e = i" by (simp_all add: e_def)
  have v: "view disk s lba = slot_data s i" by (simp add: view_def miss data)
  have "ce_dirty e \<or> slot_data s i = disk_block (disk (cs_world s)) (bsize s) lba"
    using data by simp
  note ins = insert_entry [OF inv _ e(1) fits miss, unfolded e(2), OF hand this]
  have "disk (snd (env_now E (cs_world s))) =
      disk (cs_world (s\<lparr>cs_table := snd (table_insert (cs_table s) lba e)\<rparr>))"
    by (simp add: quiet_okD [OF env_okD(3) [OF env]])
  note clocked = world_change [OF this]
  have s1: "cache_inv disk s1" "view disk s1 = view disk s"
    using clocked ins v by (simp_all add: s1_def fun_upd_idem)
  have geo: "cs_pool s1 = cs_pool s" "cs_mem s1 = cs_mem s" by (simp_all add: s1_def)
  have "struct_inv s1" "user_buf_ok s1 ptr"
    using s1(1) buf by (simp_all add: cache_inv_def user_buf_ok_def geo)
  note copy = copy_to_user [OF this(1) _ this(2), of i, where E = E, unfolded geo]
  have res: "s' = s1\<lparr>cs_mem := fast_copy_temporal E ptr (block_addr (cs_pool s) i) (bsize s) (cs_mem s)\<rparr>"
    by (simp add: s' s1_def e_def)
  have i: "i < mp_capacity (cs_pool s)" using hand by (simp add: in_hand_def)
  show "cache_inv disk s'" "view disk s' = view disk s"
    "load_bytes (cs_mem s') ptr (bsize s) = view disk s lba"
    "agree_outside ptr (bsize s) (cs_mem s) (cs_mem s')"
    using copy [OF i] s1 v by (simp_all add: res)
  show "cached s' lba \<noteq> None" by (simp add: res s1_def)
  have "table_inv (cs_table s)" using inv by (simp add: cache_inv_def struct_inv_def)
  then show "unaccounted (Suc n) s \<Longrightarrow> unaccounted n s'"
    using lt.count_put_fresh [of "cs_table s" e lba] e(1) miss
    by (simp add: unaccounted_def res s1_def)
qed

lemma cached_read_miss:
  assumes env: "env_ok E disk fd" and inv: "cache_inv disk s" and buf: "user_buf_ok s ptr"
    and fits: "lba_fits (bsize s) lba" and miss: "cached s lba = None"
    and run: "cached_read E lba ptr fd chan s = (r, s')"
  shows "read_post disk s lba ptr r s'"
proof -
  obtain r1 s1 where al: "allocate_or_evict E fd chan s = (r1, s1)" by fastforce
  note post = allocate_or_evict_post [OF env inv al]
  note pd = evict_postD [OF post]
  show ?thesis
  proof (cases r1)
    case (Inl x)
    then have "r = Inl x" "s' = s1"
      using run miss al by (simp_all add: cached_read_def get_and_touch_eq Let_def)
    then show ?thesis
      using pd(1-4,6) pd(5) Inl by (auto simp: read_post_def grows_by_def)
  next
    case (Inr ib)
    then obtain i where i: "r1 = Inr (i, \<lparr>bb_ptr = block_addr (cs_pool s1) i, bb_size = mp_block_size (cs_pool s1)\<rparr>)"
      "in_hand s1 i"
      using post by (auto elim: evict_post_slot)
    note g = same_geometryD [OF pd(4)]
    obtain r2 w2 m2 where rd: "read_lba E fd lba (mp_block_size (cs_pool s)) (block_addr (cs_pool s) i)
        (bsize s) (cs_world s1) (cs_mem s1) = (r2, w2, m2)"
      using prod_cases3 by blast
    note rpost = read_lba_post [OF env_okD(1) [OF env] fits rd]
    define s2 where "s2 = s1\<lparr>cs_world := w2, cs_mem := m2\<rparr>"
    have "agree_outside (block_addr (cs_pool s1) i) (bsize s1) (cs_mem s1) m2"
      using rpost(2) by (simp add: g)
    note filled = mem_in_hand [OF i(2) this, of disk]
    have s2: "cache_inv disk s2" "view disk s2 = view disk s"
      using pd(1,2) filled world_change [of disk w2 "s1\<lparr>cs_mem := m2\<rparr>"] rpost(1)
      by (simp_all add: s2_def world_mem_swap)
    have s2': "cs_pool s2 = cs_pool s1" "cached s2 lba = None" "in_hand s2 i" "user_buf_ok s2 ptr"
      "lba_fits (bsize s2) lba" "\<And>n. unaccounted n s2 = unaccounted n s1" "same_geometry s s2"
      using i(2) buf fits pd(4) pd(5) [OF miss]
      by (simp_all add: s2_def in_hand_def user_buf_ok_def g unaccounted_def same_geometry_def)
    have grow: "cached s l = None \<Longrightarrow> cached s2 l = None" for l
      using pd(5) by (simp add: s2_def)
    have un: "unaccounted n s \<Longrightarrow> unaccounted (Suc n) s2" for n
      using pd(6) [of n] i(1) s2'(6) by simp
    have "i < mp_capacity (cs_pool s)" using i(2) by (simp add: in_hand_def g)
    then have frame: "mem_frame s ptr (cs_mem s2)"
      using rpost(2) pd(3) by (simp add: s2_def mem_frame_slot [OF mem_frame_refl])
    show ?thesis
    proof (cases r2)
      case (Inl x)
      then have "r = Inl x" "s' = s2"
        using run miss al i(1) rd by (simp_all add: cached_read_def get_and_touch_eq Let_def g s2_def)
      then show ?thesis
        using s2 s2' un frame grow by (simp add: read_post_def grows_by_def)
    next
      case (Inr u)
      have "slot_data s2 i = disk_block (disk (cs_world s2)) (bsize s2) lba"
        using rpost(1) rpost(3) Inr
        by (simp add: s2_def block_data_def load_store_same g)
      note fill = read_fill [OF env s2(1) s2'(4,5,2,3) this refl]
      have res: "r = Inr \<lparr>rr_cache_hit = False\<rparr>"
        "s' = s2\<lparr>cs_table := snd (table_insert (cs_table s2) lba (fst (entry_new E lba i (cs_world s2)))),
           cs_world := snd (env_now E (cs_world s2)),
           cs_mem := fast_copy_temporal E ptr (block_addr (cs_pool s2) i) (bsize s2) (cs_mem s2)\<rparr>"
        using run miss al i(1) rd Inr
        by (simp_all add: cached_read_def get_and_touch_eq Let_def g s2_def case_prod_unfold)
      have "grows_by lba s s'" using grow by (simp add: res grows_by_def)
      moreover have "bsize s2 = bsize s" by (simp add: s2'(1) g)
      ultimately show ?thesis
        unfolding read_post_def
        using fill [folded res(2)] s2 s2'(7) un miss mem_frame_user [OF frame, of "cs_mem s'"] res
        by (simp add: same_geometry_def)
    qed
  qed
qed

lemma cached_read_post:
  assumes "env_ok E disk fd" "cache_inv disk s" "user_buf_ok s ptr" "lba_fits (bsize s) lba"
    "cached_read E lba ptr fd chan s = (r, s')"
  shows "read_post disk s lba ptr r s'"
  using cached_read_hit [OF assms(1-3) _ assms(5)] cached_read_miss [OF assms(1-4) _ assms(5)]
  by (cases "cached s lba") auto

section \<open>When a slot can be had\<close>

text \<open>Every cached block lies on the device.\<close>

definition on_device :: "nat \<Rightarrow> 'w cache_state \<Rightarrow> bool" where
  "on_device dev_size s \<longleftrightarrow>
     (\<forall>lba e. cached s lba = Some e \<longrightarrow> unat lba * bsize s + bsize s \<le> dev_size)"

lemma flush_candidate_live:
  assumes env: "env_ok E disk fd" and struct: "struct_inv s" and live: "pwrite_live E fd dev_size"
    and dev: "on_device dev_size s" and hit: "cached s (ec_lba c) = Some e" "ec_pool_index c = ce_pool_index e"
  shows "\<exists>s'. flush_candidate E fd chan c s = (Inr (), s')"
proof -
  have "unat (ec_lba c) * bsize s + bsize s \<le> dev_size"
    using dev hit(1) by (simp add: on_device_def)
  from write_lba_live [OF env_okD(2) [OF env] live cached_fits [OF struct hit(1)] this, of "slot_data s (ce_pool_index e)"]
  obtain w' where "write_lba E fd (ec_lba c) (mp_block_size (cs_pool s)) (slot_data s (ce_pool_index e))
      (cs_world s) = (Inr (), w')" by (metis length_block_data)
  then show ?thesis
    by (auto simp: flush_candidate_def hit(2) cached_block [OF struct hit(1)] block_buffer_as_ref_def
        block_data_def Let_def)
qed

lemma empty_table_len: "cached s = Map.empty \<longleftrightarrow> lt_inner (cs_table s) = []"
proof -
  have "cached s = Map.empty \<longleftrightarrow> dom (cached s) = {}" by (simp add: dom_eq_empty_conv)
  then show ?thesis by (simp add: dom_table_get)
qed

lemma allocate_or_evict_live:
  assumes env: "env_ok E disk fd" and inv: "cache_inv disk s" and live: "pwrite_live E fd dev_size"
    and dev: "on_device dev_size s" and un: "unaccounted n s" "n < unat (mp_capacity (cs_pool s))"
  shows "\<exists>ib s'. allocate_or_evict E fd chan s = (Inr ib, s')"
proof -
  have struct: "struct_inv s" using inv by (simp add: cache_inv_def)
  from struct_invD(1) [OF struct] show ?thesis
  proof (cases rule: pool_allocate_cases)
    case (slot i fl)
    then show ?thesis by (simp add: allocate_or_evict_def)
  next
    case full
    have "cached s \<noteq> Map.empty"
      using un full(1) by (auto simp: unaccounted_def empty_table_len)
    then obtain c where c: "select_eviction_candidate E (cs_table s) = Some c"
      using select_None_iff [OF env_okD(4) [OF env]] by fastforce
    from select_Some_entry [OF env_okD(4) [OF env] struct_invD(3) [OF struct] c]
    obtain e where hit: "cached s (ec_lba c) = Some e" "ec_pool_index c = ce_pool_index e"
      "ec_needs_flush c = ce_dirty e" .
    obtain s1 where fc: "flush_candidate E fd chan c s = (Inr (), s1)"
      using flush_candidate_live [OF env struct live dev hit(1,2)] by blast
    note f = flush_candidate_post [OF env inv hit fc]
    note ev = evict_slot(1) [OF f(1) _ _ f(6) [OF refl], unfolded f(3,4), OF full(1) hit(1)]
    show ?thesis
      using full(3) c fc ev f(3) hit(2) by (simp add: allocate_or_evict_def Let_def)
  qed
qed

lemma cached_read_live:
  assumes env: "env_ok E disk fd" and inv: "cache_inv disk s"
    and live: "pread_live E fd dev_size" "pwrite_live E fd dev_size" and dev: "on_device dev_size s"
    and un: "unaccounted n s" "n < unat (mp_capacity (cs_pool s))"
    and fits: "lba_fits (bsize s) lba" "unat lba * bsize s + bsize s \<le> dev_size"
  shows "\<exists>v s'. cached_read E lba ptr fd chan s = (Inr v, s')"
proof (cases "cached s lba")
  case None
  obtain ib s1 where al: "allocate_or_evict E fd chan s = (Inr ib, s1)"
    using allocate_or_evict_live [OF env inv live(2) dev un] by blast
  note post = allocate_or_evict_post [OF env inv al]
  note g = same_geometryD [OF evict_postD(4) [OF post]]
  from post obtain i where
    ib: "ib = (i, \<lparr>bb_ptr = block_addr (cs_pool s1) i, bb_size = mp_block_size (cs_pool s1)\<rparr>)"
    by (elim evict_post_slot)
  from read_lba_live [OF env_okD(1) [OF env] live(1) fits, of "block_addr (cs_pool s) i" "cs_world s1" "cs_mem s1"]
  show ?thesis
    using None al by (auto simp: cached_read_def get_and_touch_eq Let_def ib g case_prod_unfold)
next
  case (Some e)
  then show ?thesis by (simp add: cached_read_def get_and_touch_eq Let_def)
qed

section \<open>Failed reads\<close>

text \<open>A device on which every \<open>pread\<close> fails.\<close>

definition pread_dead :: "'w env \<Rightarrow> i32 \<Rightarrow> bool" where
  "pread_dead E fd \<longleftrightarrow> (\<forall>len off w. \<exists>e w'. env_pread E fd len off w = (Inl e, w'))"

text \<open>The state after reading a list of blocks one after the other.\<close>

primrec read_all ::
  "'w env \<Rightarrow> nat \<Rightarrow> i32 \<Rightarrow> nat \<Rightarrow> u64 list \<Rightarrow> 'w cache_state \<Rightarrow> 'w cache_state" where
  "read_all E ptr fd chan [] s = s"
| "read_all E ptr fd chan (lba # lbas) s =
     read_all E ptr fd chan lbas (snd (cached_read E lba ptr fd chan s))"

lemma read_lba_dead:
  assumes "pread_dead E fd" "bs \<noteq> 0"
  shows "\<exists>e w'. read_lba E fd lba bs ptr (unat bs) w m = (Inl (io_err ''pread'' e), w', m)"
proof -
  obtain e w' where "env_pread E fd (of_nat (unat bs)) (lba * bs) w = (Inl e, w')"
    using assms(1) by (simp add: pread_dead_def) blast
  moreover have "0 < unat bs" using assms(2) by (simp add: unat_gt_0)
  ultimately show ?thesis
    by (auto simp: read_lba_def read_block_def read_loop.simps simp del: of_nat_unat)
qed

lemma failed_read_leaks:
  assumes dead: "pread_dead E fd" and pool: "pool_inv (cs_pool s)" and miss: "cached s lba = None"
    and free: "mp_free_list (cs_pool s) \<noteq> []"
  shows "\<exists>e w. cached_read E lba ptr fd chan s =
    (Inl (io_err ''pread'' e),
     s\<lparr>cs_pool := (cs_pool s)\<lparr>mp_free_list := butlast (mp_free_list (cs_pool s))\<rparr>, cs_world := w\<rparr>)"
  using pool
proof (cases rule: pool_allocate_cases)
  case full
  with free show ?thesis by simp
next
  case (slot i fl)
  have "mp_block_size (cs_pool s) \<noteq> 0" using pool by (simp add: pool_inv_def pool_shape_def)
  from read_lba_dead [OF dead this] obtain e w where
    "read_lba E fd lba (mp_block_size (cs_pool s)) (block_addr (cs_pool s) i) (bsize s) (cs_world s) (cs_mem s) =
      (Inl (io_err ''pread'' e), w, cs_mem s)" by blast
  with slot miss show ?thesis
    by (auto simp: cached_read_def get_and_touch_eq Let_def allocate_or_evict_def)
qed

lemma stuck_read:
  assumes "hash_ok E" "mp_free_list (cs_pool s) = []" "lt_inner (cs_table s) = []"
  shows "cached_read E lba ptr fd chan s = (Inl (internal_err inconsistent_msg), s)"
proof -
  have "cached s = Map.empty" using assms(3) by (simp add: empty_table_len)
  then have "select_eviction_candidate E (cs_table s) = None" "cached s lba = None"
    using select_None_iff [OF assms(1)] by simp_all
  then show ?thesis
    using assms(2) by (simp add: cached_read_def get_and_touch_eq allocate_or_evict_def pool_allocate_def Let_def)
qed

lemma read_all_dead:
  assumes "pread_dead E fd"
  shows "pool_inv (cs_pool s) \<Longrightarrow> lt_inner (cs_table s) = [] \<Longrightarrow>
    length lbas = length (mp_free_list (cs_pool s)) \<Longrightarrow>
    mp_free_list (cs_pool (read_all E ptr fd chan lbas s)) = [] \<and>
    lt_inner (cs_table (read_all E ptr fd chan lbas s)) = []"
proof (induction lbas arbitrary: s)
  case Nil
  then show ?case by simp
next
  case (Cons lba lbas)
  have miss: "cached s lba = None" using Cons.prems(2) by (simp add: empty_table_len [symmetric])
  have ne: "mp_free_list (cs_pool s) \<noteq> []" using Cons.prems(3) by auto
  obtain e w where step: "cached_read E lba ptr fd chan s =
    (Inl (io_err ''pread'' e),
     s\<lparr>cs_pool := (cs_pool s)\<lparr>mp_free_list := butlast (mp_free_list (cs_pool s))\<rparr>, cs_world := w\<rparr>)"
    using failed_read_leaks [OF assms Cons.prems(1) miss ne] by blast
  have "pool_inv ((cs_pool s)\<lparr>mp_free_list := butlast (mp_free_list (cs_pool s))\<rparr>)"
    using Cons.prems(1) by (auto simp: pool_inv_def pool_shape_def pool_size_def distinct_butlast dest: in_set_butlastD)
  then show ?case
    using Cons.prems step by (auto intro!: Cons.IH [THEN conjunct1] Cons.IH [THEN conjunct2])
qed

section \<open>Properties\<close>

text \<open>
  A cache with one block of 4096 bytes, taken by the dirty LBA 3, on a device full of nines:
  a read of any other block has to write LBA 3 back and evict it.
\<close>

definition sample_pool :: memory_pool where
  "sample_pool = \<lparr>mp_backing = \<lparr>ab_ptr = 16777216, ab_size = 4096, ab_align = 4096\<rparr>, mp_base_ptr = 16777216,
     mp_block_size = 4096, mp_capacity = 1, mp_free_list = []\<rparr>"

definition sample_cache :: "sim_world cache_state" where
  "sample_cache = \<lparr>cs_world = sim_init\<lparr>sim_disk := \<lambda>_. 9\<rparr>, cs_mem = (\<lambda>_. 7), cs_pool = sample_pool,
     cs_table = \<lparr>lt_inner = [(3, \<lparr>ce_lba = 3, ce_pool_index = 0, ce_dirty = True,
       ce_last_access = 1, ce_access_count = 1\<rparr>)]\<rparr>\<rparr>"

lemma sample_cache_inv: "cache_inv sim_disk sample_cache"
  by (auto simp: cache_inv_def struct_inv_def coherent_def sample_cache_def sample_pool_def pool_inv_def
      pool_shape_def pool_size_def table_inv_def table_get_def slots_unique_def entry_ok_def pool_free_def
      lba_fits_def split: if_splits)

lemma sample_cache_buf: "user_buf_ok sample_cache 65536"
  by (simp add: user_buf_ok_def disjoint_ranges_def sample_cache_def sample_pool_def pool_size_def)

lemma sample_cache_simps [simp]:
  "bsize sample_cache = 4096" "cs_pool sample_cache = sample_pool"
  "mp_block_size sample_pool = 4096" "mp_capacity sample_pool = 1" "mp_free_list sample_pool = []"
  "unaccounted 0 sample_cache"
  by (simp_all add: sample_cache_def sample_pool_def unaccounted_def)

lemma sample_on_device: "on_device 1048576 sample_cache"
  by (auto simp: on_device_def sample_cache_def sample_pool_def table_get_def split: if_splits)

lemma sample_cache_contains: "table_contains (cs_table sample_cache) lba \<longleftrightarrow> lba = 3"
  by (auto simp: table_contains_def sample_cache_def)

lemma sample_cache_view:
  "view sim_disk sample_cache 3 = replicate 4096 7"
  "lba \<noteq> 3 \<Longrightarrow> view sim_disk sample_cache lba = replicate 4096 9"
  by (simp_all add: view_def sample_cache_def sample_pool_def table_get_def block_data_def disk_block_def
      load_const sim_init_def)

text \<open>
  C5. A cached read keeps the cache invariant and changes no block's content as a client sees
  it, on every path including the failing ones; it touches no memory outside the pool and
  the caller's buffer. If it returns \<open>Ok\<close>, the caller's buffer holds exactly the current
  content of the block, the reported hit flag says whether the block was cached before, the
  block is cached afterwards, and no slot is lost.
\<close>

theorem cached_read_spec:
  assumes "env_ok E disk fd" "cache_inv disk s" "user_buf_ok s ptr" "lba_fits (bsize s) lba"
  shows "case cached_read E lba ptr fd chan s of
      (r, s') \<Rightarrow>
        cache_inv disk s' \<and> view disk s' = view disk s \<and> mem_frame s ptr (cs_mem s') \<and>
        (case r of
           Inl e \<Rightarrow> True
         | Inr v \<Rightarrow>
             load_bytes (cs_mem s') ptr (bsize s) = view disk s lba \<and>
             rr_cache_hit v = table_contains (cs_table s) lba \<and>
             table_contains (cs_table s') lba \<and>
             (\<forall>n. unaccounted n s \<longrightarrow> unaccounted n s'))"
proof -
  obtain r s' where run: "cached_read E lba ptr fd chan s = (r, s')" by fastforce
  from cached_read_post [OF assms run] show ?thesis
    by (cases r) (auto simp: run read_post_def table_contains_get)
qed

theorem cached_read_spec_witness:
  "cache_inv sim_disk sample_cache \<and> user_buf_ok sample_cache 65536 \<and>
   (case cached_read sim_env 5 65536 3 0 sample_cache of
      (r, s') \<Rightarrow>
        view sim_disk s' 3 = replicate 4096 7 \<and>
        (\<forall>v. r = Inr v \<longrightarrow> load_bytes (cs_mem s') 65536 4096 = replicate 4096 9))"
proof -
  have "lba_fits (bsize sample_cache) 5" by (simp add: lba_fits_def)
  from cached_read_spec [OF sim_env_ok [where fd = 3] sample_cache_inv sample_cache_buf this, where chan = 0]
  show ?thesis
    using sample_cache_inv sample_cache_buf
    by (auto simp: sample_cache_view split: prod.splits sum.splits)
qed

text \<open>
  C9. A cached read succeeds whenever the device serves its transfers, the requested and all
  cached blocks lie on the device and not every slot has been lost: the pool being full is
  never a reason to fail, because a victim can always be found and written back.
\<close>

theorem cached_read_succeeds:
  assumes "env_ok E disk fd" "cache_inv disk s" "pread_live E fd dev_size" "pwrite_live E fd dev_size"
    "on_device dev_size s" "unaccounted n s" "n < unat (mp_capacity (cs_pool s))"
    "lba_fits (bsize s) lba" "unat lba * bsize s + bsize s \<le> dev_size"
  shows "\<exists>s'. cached_read E lba ptr fd chan s =
    (Inr \<lparr>rr_cache_hit = table_contains (cs_table s) lba\<rparr>, s')"
proof -
  obtain v s' where run: "cached_read E lba ptr fd chan s = (Inr v, s')"
    using cached_read_live [OF assms] by blast
  then have "rr_cache_hit v = table_contains (cs_table s) lba"
    by (auto simp: cached_read_def get_and_touch_eq table_contains_get Let_def
        split: option.splits sum.splits prod.splits)
  then show ?thesis
    using run by (cases v) simp
qed

theorem cached_read_succeeds_witness:
  "mp_free_list (cs_pool sample_cache) = [] \<and>
   (\<exists>s'. cached_read reliable_env 5 65536 3 0 sample_cache = (Inr \<lparr>rr_cache_hit = False\<rparr>, s'))"
  using sample_on_device
    cached_read_succeeds [OF reliable_env_ok sample_cache_inv reliable_pread_live reliable_pwrite_live,
        where dev_size = 1048576 and n = 0 and lba = 5 and fd = 3 and ptr = 65536 and chan = 0]
  by (simp add: lba_fits_def sample_cache_contains)

text \<open>
  C37. A read that fails on the device loses the slot it had allocated: on an empty cache, as
  many failing reads as there are free slots leave the pool exhausted with nothing to evict,
  and from then on every read fails with the internal "inconsistent state" error, whatever
  environment it runs in, also one where the device works again.
\<close>

theorem failed_reads_exhaust_pool:
  assumes "pread_dead E fd" "hash_ok E'" "pool_inv (cs_pool s)" "lt_inner (cs_table s) = []"
    "length lbas = length (mp_free_list (cs_pool s))"
  shows "cached_read E' lba ptr fd chan (read_all E ptr fd chan lbas s) =
    (Inl (internal_err inconsistent_msg), read_all E ptr fd chan lbas s)"
  using read_all_dead [OF assms(1,3-5)] by (intro stuck_read [OF assms(2)]) blast+

definition dead_env :: "sim_world env" where
  "dead_env = sim_env\<lparr>env_pread := (\<lambda>fd len off w. (Inl eio, w))\<rparr>"

theorem failed_reads_exhaust_pool_witness:
  "fst (cached_read reliable_env 5 65536 3 0 (read_all dead_env 65536 3 0 [8, 9]
      \<lparr>cs_world = sim_init, cs_mem = (\<lambda>_. 0), cs_pool = sample_pool\<lparr>mp_capacity := 2, mp_free_list := [0, 1]\<rparr>,
       cs_table = table_new 2\<rparr>)) = Inl (internal_err inconsistent_msg)"
proof -
  have "pread_dead dead_env 3" by (simp add: pread_dead_def dead_env_def)
  moreover have "hash_ok reliable_env" using env_okD(4) [OF reliable_env_ok] .
  moreover have "pool_inv (sample_pool\<lparr>mp_capacity := 2, mp_free_list := [0, 1]\<rparr>)"
    by (simp add: pool_inv_def pool_shape_def pool_size_def sample_pool_def)
  ultimately show ?thesis
    using failed_reads_exhaust_pool [where lbas = "[8, 9]" and s =
        "\<lparr>cs_world = sim_init, cs_mem = (\<lambda>_. 0), cs_pool = sample_pool\<lparr>mp_capacity := 2, mp_free_list := [0, 1]\<rparr>,
          cs_table = table_new 2\<rparr>" and E = dead_env and E' = reliable_env and fd = 3 and lba = 5
          and ptr = 65536 and chan = 0]
    by (simp add: table_new_def)
qed

end
