(* ===== verification/Write_Path.thy ===== *)
theory Write_Path
  imports Read_Path
begin

text \<open>
  Writes through the cache (\<open>src/src/engine/write_path.rs\<close>): the caller's block is copied
  into the pool with non-temporal stores and the entry is marked dirty; the device is
  written only when a dirty victim has to be evicted. \<open>None\<close> is the general protection
  fault the SSE2 copy raises on a misaligned pointer, which ends the process.
\<close>

section \<open>Operations\<close>

record write_result =
  wr_was_update :: bool

definition read_only_msg :: string where
  "read_only_msg = ''write rejected: engine is in read-only mode''"

definition maybe_wake_flusher ::
  "'w env \<Rightarrow> lba_table \<Rightarrow> nat \<Rightarrow> flush_schedule \<Rightarrow> 'w \<Rightarrow> 'w" where
  "maybe_wake_flusher E t chan schedule w =
     (let st = stats E t
      in if should_flush_immediately schedule (ts_dirty_entries st) (ts_total_entries st)
         then notifier_wake E chan w else w)"

definition cached_write ::
  "'w env \<Rightarrow> u64 \<Rightarrow> nat \<Rightarrow> i32 \<Rightarrow> nat \<Rightarrow> flush_schedule \<Rightarrow> bool \<Rightarrow> 'w cache_state \<Rightarrow>
   (write_result cache_result \<times> 'w cache_state) option" where
  "cached_write E lba user_ptr fd chan schedule read_only s =
     (if read_only then Some (Inl (config_err read_only_msg), s)
      else
        (let block_size = mp_block_size (cs_pool s)
         in case table_get (cs_table s) lba of
              Some entry \<Rightarrow>
                (let block = get_block (cs_pool s) (ce_pool_index entry)
                 in case fast_copy_nontemporal (bb_ptr block) user_ptr (unat block_size) (cs_mem s) of
                      None \<Rightarrow> None
                    | Some m \<Rightarrow>
                        (case table_mark_dirty E (cs_table s) lba (cs_world s) of (t, w) \<Rightarrow>
                           Some (Inr \<lparr>wr_was_update = True\<rparr>,
                             s\<lparr>cs_mem := m, cs_table := t,
                               cs_world := maybe_wake_flusher E t chan schedule w\<rparr>)))
            | None \<Rightarrow>
                (case allocate_or_evict E fd chan s of
                   (Inl e, s') \<Rightarrow> Some (Inl e, s')
                 | (Inr (pool_index, pool_block), s') \<Rightarrow>
                     (case fast_copy_nontemporal (bb_ptr pool_block) user_ptr (unat block_size) (cs_mem s') of
                        None \<Rightarrow> None
                      | Some m \<Rightarrow>
                          (case entry_new E lba pool_index (cs_world s') of (entry, w1) \<Rightarrow>
                           case entry_mark_dirty E entry w1 of (entry', w2) \<Rightarrow>
                           case table_insert (cs_table s') lba entry' of (_, t) \<Rightarrow>
                             Some (Inr \<lparr>wr_was_update = False\<rparr>,
                               s'\<lparr>cs_mem := m, cs_table := t,
                                 cs_world := maybe_wake_flusher E t chan schedule w2\<rparr>))))))"

section \<open>Effect\<close>

text \<open>What the non-temporal copy asks of the caller's pointer; the pool side always meets it.\<close>

definition write_ptr_ok :: "nat \<Rightarrow> bool" where
  "write_ptr_ok ptr \<longleftrightarrow> ptr mod 16 = 0"

lemma maybe_wake_disk:
  "quiet_ok E disk \<Longrightarrow> disk (maybe_wake_flusher E t chan sch w) = disk w"
  by (simp add: maybe_wake_flusher_def notifier_wake_def quiet_okD Let_def)

lemma mod_dvd_trans: "4096 dvd (n :: nat) \<Longrightarrow> n mod 16 = 0" "4096 dvd n \<Longrightarrow> n mod 64 = 0"
  by (auto simp flip: dvd_eq_mod_eq_0 elim: dvd_trans [rotated])

lemma copy_to_slot:
  assumes shape: "pool_shape (cs_pool s)" and i: "i < mp_capacity (cs_pool s)"
    and buf: "user_buf_ok s ptr" "write_ptr_ok ptr"
  shows "fast_copy_nontemporal (block_addr (cs_pool s) i) ptr (bsize s) (cs_mem s) =
    Some (store_bytes (cs_mem s) (block_addr (cs_pool s) i) (load_bytes (cs_mem s) ptr (bsize s)))"
proof (rule nt.copies)
  show "disjoint_ranges (block_addr (cs_pool s) i) (bsize s) ptr (bsize s)"
    using buf(1) block_addr_range [OF i] by (auto simp: user_buf_ok_def disjoint_ranges_def)
  have "4096 dvd bsize s" using shape by (simp add: pool_shape_def)
  then show "nt_pre (block_addr (cs_pool s) i) ptr (bsize s)"
    using block_addr_aligned [OF shape, of i] buf(2)
    by (simp add: nt_pre_def write_ptr_ok_def mod_dvd_trans)
qed

lemmas copy_from_user = copy_to_slot [OF struct_invD(2)]

definition write_post ::
  "'w disk_view \<Rightarrow> 'w cache_state \<Rightarrow> u64 \<Rightarrow> nat \<Rightarrow> write_result cache_result \<Rightarrow> 'w cache_state \<Rightarrow> bool" where
  "write_post disk s lba ptr r s' \<longleftrightarrow>
     cache_inv disk s' \<and> same_geometry s s' \<and> grows_by lba s s' \<and>
     agree_outside (mp_base_ptr (cs_pool s)) (pool_size (cs_pool s)) (cs_mem s) (cs_mem s') \<and>
     (\<forall>n. unaccounted n s \<longrightarrow> unaccounted n s') \<and>
     (case r of
        Inl e \<Rightarrow> view disk s' = view disk s
      | Inr v \<Rightarrow> view disk s' = (view disk s)(lba := load_bytes (cs_mem s) ptr (bsize s)) \<and>
          wr_was_update v = (cached s lba \<noteq> None) \<and> (\<exists>e. cached s' lba = Some e \<and> ce_dirty e))"

lemma store_in_pool:
  assumes "i < mp_capacity P" "length bs = unat (mp_block_size P)"
  shows "agree_outside (mp_base_ptr P) (pool_size P) m (store_bytes m (block_addr P i) bs)"
  using block_addr_range [OF assms(1)] assms(2)
  by (intro agree_outside_mono [OF agree_outside_store]) simp_all

lemma cached_write_update:
  assumes env: "env_ok E disk fd" and inv: "cache_inv disk s"
    and buf: "user_buf_ok s ptr" "write_ptr_ok ptr" and hit: "cached s lba = Some e"
  shows "\<exists>r s'. cached_write E lba ptr fd chan sch False s = Some (r, s') \<and> write_post disk s lba ptr r s'"
proof -
  have struct: "struct_inv s" using inv by (simp add: cache_inv_def)
  let ?bs = "load_bytes (cs_mem s) ptr (bsize s)"
  let ?m = "store_bytes (cs_mem s) (block_addr (cs_pool s) (ce_pool_index e)) ?bs"
  define e' where "e' = fst (entry_mark_dirty E e (cs_world s))"
  define t' where "t' = snd (table_insert (cs_table s) lba e')"
  define w' where "w' = maybe_wake_flusher E t' chan sch (snd (env_now E (cs_world s)))"
  define s' where "s' = s\<lparr>cs_mem := ?m, cs_table := t', cs_world := w'\<rparr>"
  have e': "ce_lba e' = lba" "ce_pool_index e' = ce_pool_index e" "ce_dirty e'"
    using table_inv_get [OF struct_invD(3) [OF struct] hit] by (simp_all add: e'_def)
  have i: "ce_pool_index e < mp_capacity (cs_pool s)" by (rule cached_index [OF struct hit])
  have run: "cached_write E lba ptr fd chan sch False s = Some (Inr \<lparr>wr_was_update = True\<rparr>, s')"
    using copy_from_user [OF struct i buf] hit
    by (simp add: cached_write_def cached_block [OF struct hit] table_mark_dirty_eq Let_def
        s'_def t'_def w'_def e'_def)
  have "disk w' = disk (cs_world (s\<lparr>cs_mem := ?m, cs_table := t'\<rparr>))"
    using env_okD(3) [OF env] by (simp add: w'_def maybe_wake_disk quiet_okD)
  note wc = world_change [OF this]
  have "cache_inv disk s'" "view disk s' = (view disk s)(lba := ?bs)"
    using update_entry [OF inv hit _ e', of ?bs] wc by (simp_all add: s'_def t'_def)
  moreover have "unaccounted n s \<Longrightarrow> unaccounted n s'" for n
    using lt.count_put_present [OF struct_invD(3) [OF struct] e'(1)] hit
    by (simp add: unaccounted_def s'_def t'_def)
  moreover have "agree_outside (mp_base_ptr (cs_pool s)) (pool_size (cs_pool s)) (cs_mem s) (cs_mem s')"
    using store_in_pool [OF i] by (simp add: s'_def)
  moreover have "cached s' lba = Some e'" "cs_pool s' = cs_pool s" "grows_by lba s s'"
    by (simp_all add: s'_def t'_def grows_by_def)
  ultimately show ?thesis
    using run hit e'(3) by (auto simp: write_post_def)
qed

text \<open>What the miss path does with the slot it was given.\<close>

lemma write_fill:
  assumes env: "env_ok E disk fd" and inv: "cache_inv disk s" and hand: "in_hand s i"
    and fits: "lba_fits (bsize s) lba" and miss: "cached s lba = None"
    and e: "ce_lba e = lba" "ce_pool_index e = i" "ce_dirty e"
    and len: "length bs = bsize s" and w: "disk w = disk (cs_world s)"
  defines "s' \<equiv> s\<lparr>cs_mem := store_bytes (cs_mem s) (block_addr (cs_pool s) i) bs,
    cs_table := snd (table_insert (cs_table s) lba e), cs_world := w\<rparr>"
  shows "cache_inv disk s'" "view disk s' = (view disk s)(lba := bs)" "cached s' lba = Some e"
    "agree_outside (mp_base_ptr (cs_pool s)) (pool_size (cs_pool s)) (cs_mem s) (cs_mem s')"
    "unaccounted (Suc n) s \<Longrightarrow> unaccounted n s'"
proof -
  let ?m = "store_bytes (cs_mem s) (block_addr (cs_pool s) i) bs"
  define s1 where "s1 = s\<lparr>cs_mem := ?m\<rparr>"
  have "agree_outside (block_addr (cs_pool s) i) (bsize s) (cs_mem s) ?m"
    by (rule agree_outside_store) (simp add: len)
  then have s1: "cache_inv disk s1" "view disk s1 = view disk s"
    using mem_in_hand [OF hand] inv by (simp_all add: s1_def)
  have "in_hand s1 i" "lba_fits (bsize s1) lba" "cached s1 lba = None" "slot_data s1 i = bs"
    using hand fits miss len by (simp_all add: s1_def in_hand_def block_data_store_same)
  then have s2: "cache_inv disk (s1\<lparr>cs_table := snd (table_insert (cs_table s1) lba e)\<rparr>)"
    "view disk (s1\<lparr>cs_table := snd (table_insert (cs_table s1) lba e)\<rparr>) = (view disk s)(lba := bs)"
    using insert_entry [OF s1(1) _ e(1)] e s1(2) by simp_all
  have s': "s' = s1\<lparr>cs_table := snd (table_insert (cs_table s1) lba e), cs_world := w\<rparr>"
    by (simp add: s'_def s1_def)
  have "disk w = disk (cs_world (s1\<lparr>cs_table := snd (table_insert (cs_table s1) lba e)\<rparr>))"
    using w by (simp add: s1_def)
  from world_change [OF this] show "cache_inv disk s'" "view disk s' = (view disk s)(lba := bs)"
    using s2 by (simp_all add: s')
  show "cached s' lba = Some e" by (simp add: s'_def)
  have "i < mp_capacity (cs_pool s)" using hand by (simp add: in_hand_def)
  then show "agree_outside (mp_base_ptr (cs_pool s)) (pool_size (cs_pool s)) (cs_mem s) (cs_mem s')"
    using store_in_pool len by (simp add: s'_def)
  show "unaccounted (Suc n) s \<Longrightarrow> unaccounted n s'"
    using lt.count_put_fresh [of "cs_table s" e lba] e(1) miss inv
    by (simp add: unaccounted_def s'_def cache_inv_def struct_inv_def)
qed

lemma cached_write_insert:
  assumes env: "env_ok E disk fd" and inv: "cache_inv disk s"
    and buf: "user_buf_ok s ptr" "write_ptr_ok ptr" and fits: "lba_fits (bsize s) lba"
    and miss: "cached s lba = None"
  shows "\<exists>r s'. cached_write E lba ptr fd chan sch False s = Some (r, s') \<and> write_post disk s lba ptr r s'"
proof -
  obtain r1 s1 where al: "allocate_or_evict E fd chan s = (r1, s1)" by fastforce
  note post = allocate_or_evict_post [OF env inv al]
  note pd = evict_postD [OF post] and quiet = env_okD(3) [OF env]
  note g = same_geometryD [OF pd(4)]
  show ?thesis
  proof (cases r1)
    case (Inl x)
    then have "cached_write E lba ptr fd chan sch False s = Some (Inl x, s1)"
      using miss al by (simp add: cached_write_def Let_def)
    then show ?thesis
      using pd(1-4,6) pd(5) Inl by (auto simp: write_post_def grows_by_def)
  next
    case (Inr ib)
    then obtain i where i: "r1 = Inr (i, \<lparr>bb_ptr = block_addr (cs_pool s1) i, bb_size = mp_block_size (cs_pool s1)\<rparr>)"
      "in_hand s1 i"
      using post by (auto elim: evict_post_slot)
    define e where "e = fst (entry_mark_dirty E (fst (entry_new E lba i (cs_world s1))) (snd (env_now E (cs_world s1))))"
    define t' where "t' = snd (table_insert (cs_table s1) lba e)"
    define w' where "w' = maybe_wake_flusher E t' chan sch (snd (env_now E (snd (env_now E (cs_world s1)))))"
    have e: "ce_lba e = lba" "ce_pool_index e = i" "ce_dirty e" by (simp_all add: e_def)
    have w': "disk w' = disk (cs_world s1)"
      using quiet by (simp add: w'_def maybe_wake_disk quiet_okD)
    have s1: "lba_fits (bsize s1) lba" "cached s1 lba = None" "user_buf_ok s1 ptr" "struct_inv s1"
      "i < mp_capacity (cs_pool s1)"
      using fits pd(5) [OF miss] buf pd(1) i(2) by (simp_all add: g cache_inv_def in_hand_def)
    let ?bs = "load_bytes (cs_mem s1) ptr (bsize s1)"
    note fill = write_fill [OF env pd(1) i(2) s1(1,2) e _ w', of ?bs, simplified]
    let ?s' = "s1\<lparr>cs_mem := store_bytes (cs_mem s1) (block_addr (cs_pool s1) i) ?bs,
      cs_table := t', cs_world := w'\<rparr>"
    have run: "cached_write E lba ptr fd chan sch False s = Some (Inr \<lparr>wr_was_update = False\<rparr>, ?s')"
      using miss al i(1) copy_from_user [OF s1(4,5,3) buf(2)]
      by (simp add: cached_write_def Let_def g case_prod_unfold t'_def w'_def e_def)
    have un: "unaccounted n s \<Longrightarrow> unaccounted n ?s'" for n
      using fill(5) [of n] pd(6) [of n] i(1) by (simp add: t'_def)
    have geo: "same_geometry s ?s'" "grows_by lba s ?s'"
      using pd(4) pd(5) by (simp_all add: same_geometry_def grows_by_def t'_def)
    show ?thesis
      using run fill(1-4) un geo pd(2,3) miss e(3) by (simp add: write_post_def t'_def g)
  qed
qed

lemma cached_write_post:
  assumes "env_ok E disk fd" "cache_inv disk s" "user_buf_ok s ptr" "write_ptr_ok ptr"
    "lba_fits (bsize s) lba"
  shows "\<exists>r s'. cached_write E lba ptr fd chan sch False s = Some (r, s') \<and> write_post disk s lba ptr r s'"
  using cached_write_update [OF assms(1-4)] cached_write_insert [OF assms]
  by (cases "cached s lba") auto

lemma cached_write_live:
  assumes env: "env_ok E disk fd" and inv: "cache_inv disk s" and live: "pwrite_live E fd dev_size"
    and dev: "on_device dev_size s" and un: "unaccounted n s" "n < unat (mp_capacity (cs_pool s))"
    and run: "cached_write E lba ptr fd chan sch False s = Some (r, s')"
  shows "\<exists>v. r = Inr v"
proof -
  obtain ib s1 where "allocate_or_evict E fd chan s = (Inr ib, s1)"
    using allocate_or_evict_live [OF env inv live dev un] by blast
  then show ?thesis
    using run by (auto simp: cached_write_def Let_def case_prod_unfold split: option.splits)
qed

section \<open>Properties\<close>

text \<open>
  C6. A cached write of an aligned buffer never faults and keeps the cache invariant and the
  slot accounting. If it returns \<open>Ok\<close>, the written block, and no other, has the caller's
  bytes as its content, it is cached and dirty, and the result tells an update from an
  insertion; if it returns an error, no block's content has changed. Memory outside the
  pool is never touched.
\<close>

theorem cached_write_spec:
  assumes "env_ok E disk fd" "cache_inv disk s" "user_buf_ok s ptr" "ptr mod 16 = 0"
    "lba_fits (bsize s) lba"
  shows "\<exists>r s'. cached_write E lba ptr fd chan sch False s = Some (r, s') \<and>
    cache_inv disk s' \<and> (\<forall>n. unaccounted n s \<longrightarrow> unaccounted n s') \<and>
    agree_outside (mp_base_ptr (cs_pool s)) (pool_size (cs_pool s)) (cs_mem s) (cs_mem s') \<and>
    (case r of
       Inl e \<Rightarrow> view disk s' = view disk s
     | Inr v \<Rightarrow>
         view disk s' = (view disk s)(lba := load_bytes (cs_mem s) ptr (bsize s)) \<and>
         wr_was_update v = table_contains (cs_table s) lba \<and>
         (\<exists>e. table_get (cs_table s') lba = Some e \<and> ce_dirty e))"
proof -
  have "write_ptr_ok ptr" using assms(4) by (simp add: write_ptr_ok_def)
  from cached_write_post [OF assms(1-3) this assms(5)] show ?thesis
    unfolding write_post_def table_contains_get by blast
qed

theorem cached_write_spec_witness:
  "cache_inv sim_disk sample_cache \<and> user_buf_ok sample_cache 65536 \<and>
   (\<exists>r s'. cached_write sim_env 3 65536 3 0 flush_schedule_default False sample_cache = Some (r, s') \<and>
      cache_inv sim_disk s' \<and> view sim_disk s' 5 = replicate 4096 9)"
proof -
  have "lba_fits (bsize sample_cache) 3" by (simp add: lba_fits_def)
  from cached_write_spec [OF sim_env_ok [where fd = 3] sample_cache_inv sample_cache_buf _ this,
      where chan = 0 and sch = flush_schedule_default]
  obtain r s' where "cached_write sim_env 3 65536 3 0 flush_schedule_default False sample_cache = Some (r, s')"
    "cache_inv sim_disk s'" "view sim_disk s' 5 = view sim_disk sample_cache 5"
    by (fastforce split: sum.splits)
  then show ?thesis
    using sample_cache_inv sample_cache_buf by (auto simp: sample_cache_view)
qed

text \<open>
  A read after a successful write of the same block returns the written bytes, whether
  or not the block was cached before, whichever block was evicted to make room and whatever
  schedule the flusher has; the device need not have been written.
\<close>

theorem read_after_write:
  assumes "env_ok E disk fd" "cache_inv disk s" "user_buf_ok s ptr" "ptr mod 16 = 0"
    "user_buf_ok s ptr'" "lba_fits (bsize s) lba"
    and "cached_write E lba ptr fd chan sch False s = Some (Inr v, s')"
  shows "\<exists>s''. cached_read E lba ptr' fd chan s' = (Inr \<lparr>rr_cache_hit = True\<rparr>, s'') \<and>
    load_bytes (cs_mem s'') ptr' (bsize s) = load_bytes (cs_mem s) ptr (bsize s)"
proof -
  have "write_ptr_ok ptr" using assms(4) by (simp add: write_ptr_ok_def)
  from cached_write_post [OF assms(1-3) this assms(6), of chan sch] assms(7)
  have post: "write_post disk s lba ptr (Inr v) s'" by simp
  then have inv: "cache_inv disk s'" and geo: "same_geometry s s'"
    and v: "view disk s' lba = load_bytes (cs_mem s) ptr (bsize s)"
    and hit: "cached s' lba \<noteq> None"
    by (auto simp: write_post_def)
  note g = same_geometryD [OF geo]
  obtain r s'' where run: "cached_read E lba ptr' fd chan s' = (r, s'')" by fastforce
  moreover have "r = Inr \<lparr>rr_cache_hit = True\<rparr>"
    using hit run by (auto simp: cached_read_def get_and_touch_eq Let_def)
  moreover have "user_buf_ok s' ptr'" "lba_fits (bsize s') lba" using assms(5,6) by (simp_all add: g)
  ultimately show ?thesis
    using cached_read_post [OF assms(1) inv, of ptr' lba chan r s''] v by (simp add: read_post_def g)
qed

theorem read_after_write_witness:
  "\<exists>s' v s''. cached_write sim_env 3 65536 3 0 flush_schedule_default False sample_cache = Some (Inr v, s') \<and>
     cached_read sim_env 3 131072 3 0 s' = (Inr \<lparr>rr_cache_hit = True\<rparr>, s'') \<and>
     load_bytes (cs_mem s'') 131072 4096 = replicate 4096 7"
proof -
  have f: "lba_fits (bsize sample_cache) 3" by (simp add: lba_fits_def)
  have b: "user_buf_ok sample_cache 131072"
    by (simp add: user_buf_ok_def disjoint_ranges_def sample_cache_def sample_pool_def pool_size_def)
  have i: "0 < mp_capacity (cs_pool sample_cache)" by simp
  have t: "table_get (cs_table sample_cache) 3 \<noteq> None"
    using sample_cache_contains by (simp add: table_contains_get)
  then obtain e where e: "table_get (cs_table sample_cache) 3 = Some e" by blast
  have st: "struct_inv sample_cache" using sample_cache_inv by (simp add: cache_inv_def)
  have "write_ptr_ok 65536" by (simp add: write_ptr_ok_def)
  note c = copy_from_user [OF st cached_index [OF st e] sample_cache_buf this]
  obtain v s' where w: "cached_write sim_env 3 65536 3 0 flush_schedule_default False sample_cache = Some (Inr v, s')"
    using c e cached_block [OF st e] by (auto simp: cached_write_def Let_def table_mark_dirty_eq)
  have "load_bytes (cs_mem sample_cache) 65536 4096 = replicate 4096 7"
    by (simp add: sample_cache_def load_const)
  with w read_after_write [OF sim_env_ok sample_cache_inv sample_cache_buf _ b f w] show ?thesis by auto
qed

text \<open>
  C36. Outside the normal case a write is total too: in read-only mode it is refused with a
  configuration error before anything is touched, and a caller's pointer that is not 16-byte
  aligned makes the non-temporal copy fault instead of returning an error, on an update and
  on an insertion alike.
\<close>

theorem cached_write_rejections:
  assumes "cache_inv disk s"
  shows "cached_write E lba ptr fd chan sch True s = Some (Inl (config_err read_only_msg), s) \<and>
    (ptr mod 16 \<noteq> 0 \<and> table_contains (cs_table s) lba \<longrightarrow>
       cached_write E lba ptr fd chan sch False s = None) \<and>
    (ptr mod 16 \<noteq> 0 \<and> \<not> table_contains (cs_table s) lba \<and> isl (fst (allocate_or_evict E fd chan s)) = False \<longrightarrow>
       cached_write E lba ptr fd chan sch False s = None)"
proof -
  have "4096 dvd bsize s" "0 < bsize s"
    using assms by (auto simp: cache_inv_def struct_inv_def pool_inv_def pool_shape_def unat_gt_0)
  then have "64 \<le> bsize s" using dvd_imp_le by fastforce
  then have "ptr mod 16 \<noteq> 0 \<Longrightarrow> fast_copy_nontemporal p ptr (bsize s) m = None" for p m
    by (simp add: fast_copy_nontemporal_def nt_memcpy_fault)
  then show ?thesis
    by (auto simp: cached_write_def table_contains_get Let_def split: sum.splits prod.splits)
qed

theorem cached_write_rejections_witness:
  "cached_write sim_env 5 65536 3 0 flush_schedule_default True sample_cache =
     Some (Inl (config_err read_only_msg), sample_cache) \<and>
   cached_write sim_env 3 65537 3 0 flush_schedule_default False sample_cache = None"
  using cached_write_rejections [OF sample_cache_inv] by (simp add: sample_cache_contains)

text \<open>
  A cached write succeeds whenever the device accepts the write-back of a victim, the
  cached blocks lie on the device and not every slot has been lost.
\<close>

theorem cached_write_succeeds:
  assumes "env_ok E disk fd" "cache_inv disk s" "pwrite_live E fd dev_size" "on_device dev_size s"
    "unaccounted n s" "n < unat (mp_capacity (cs_pool s))"
    "user_buf_ok s ptr" "ptr mod 16 = 0" "lba_fits (bsize s) lba"
  shows "\<exists>s'. cached_write E lba ptr fd chan sch False s =
    Some (Inr \<lparr>wr_was_update = table_contains (cs_table s) lba\<rparr>, s')"
proof -
  have "write_ptr_ok ptr" using assms(8) by (simp add: write_ptr_ok_def)
  from cached_write_post [OF assms(1,2,7) this assms(9), of chan sch]
  obtain r s' where run: "cached_write E lba ptr fd chan sch False s = Some (r, s')"
    and post: "write_post disk s lba ptr r s'" by blast
  obtain v where "r = Inr v"
    using cached_write_live [OF assms(1-6) run] by blast
  with run post show ?thesis
    by (cases v) (auto simp: write_post_def table_contains_get)
qed

theorem cached_write_succeeds_witness:
  "mp_free_list (cs_pool sample_cache) = [] \<and>
   (\<exists>s'. cached_write reliable_env 5 65536 3 0 flush_schedule_default False sample_cache =
      Some (Inr \<lparr>wr_was_update = False\<rparr>, s'))"
  using sample_on_device
    cached_write_succeeds [OF reliable_env_ok sample_cache_inv reliable_pwrite_live, where dev_size = 1048576
      and n = 0 and lba = 5 and fd = 3 and ptr = 65536 and chan = 0 and sch = flush_schedule_default]
  by (simp add: lba_fits_def sample_cache_contains sample_cache_buf)

end
