(* ===== verification/Flusher.thy ===== *)
theory Flusher
  imports Write_Path
begin

text \<open>
  The background write-back thread (\<open>src/src/flush/flusher.rs\<close>). This theory models one
  flush cycle as an atomic step and the thread's loop, whose iterations may run between any
  two operations of the engine; the steps inside a cycle are interleaved in \<open>Interleave\<close>.
  The stop flag is shared with other threads, which may set it while the loop runs; what the
  loop reads at its tests is a sequence of values. A loop that is never told to stop does not
  end: \<open>flush_thread_main\<close> is a partial function with \<open>None\<close> for that.
\<close>

section \<open>Operations\<close>

text \<open>The body of the loop over the dirty entries, for one entry: whether it was flushed.\<close>

definition flush_entry ::
  "'w env \<Rightarrow> i32 \<Rightarrow> usize \<Rightarrow> u64 \<times> usize \<Rightarrow> 'w cache_state \<Rightarrow> bool \<times> 'w cache_state" where
  "flush_entry E fd block_size d s =
     (let block = get_block (cs_pool s) (snd d);
          data = block_buffer_as_ref block (cs_mem s)
      in case write_lba E fd (fst d) block_size data (cs_world s) of
           (Inr _, w) \<Rightarrow> (True, s\<lparr>cs_world := w, cs_table := table_mark_clean (cs_table s) (fst d)\<rparr>)
         | (Inl _, w) \<Rightarrow> (False, s\<lparr>cs_world := w\<rparr>))"

primrec flush_loop ::
  "'w env \<Rightarrow> i32 \<Rightarrow> usize \<Rightarrow> (u64 \<times> usize) list \<Rightarrow> usize \<Rightarrow> 'w cache_state \<Rightarrow> usize \<times> 'w cache_state" where
  "flush_loop E fd block_size [] flushed s = (flushed, s)"
| "flush_loop E fd block_size (d # ds) flushed s =
     (case flush_entry E fd block_size d s of
        (ok, s') \<Rightarrow> flush_loop E fd block_size ds (if ok then flushed + 1 else flushed) s')"

definition flush_dirty_blocks ::
  "'w env \<Rightarrow> i32 \<Rightarrow> usize \<Rightarrow> 'w cache_state \<Rightarrow> usize \<times> 'w cache_state" where
  "flush_dirty_blocks E fd block_size s =
     (let dirty = dirty_entries E (cs_table s)
      in if dirty = [] then (0, s) else flush_loop E fd block_size dirty 0 s)"

text \<open>
  One iteration of the thread's loop, and whether it is the last. The flag of \<open>receiver\<close> is the
  value that \<open>is_stopped\<close> loads at the end of this iteration.
\<close>

definition flush_iteration ::
  "'w env \<Rightarrow> i32 \<Rightarrow> usize \<Rightarrow> flush_schedule \<Rightarrow> flush_link \<Rightarrow> 'w cache_state \<Rightarrow> bool \<times> 'w cache_state" where
  "flush_iteration E fd block_size schedule receiver s =
     (case receiver_wait E (fl_chan receiver) (fs_interval schedule) (cs_world s) of
        (sig, w) \<Rightarrow>
      case flush_dirty_blocks E fd block_size (s\<lparr>cs_world := w\<rparr>) of
        (flushed, s1) \<Rightarrow>
          (let s2 = (if 0 < flushed then s1\<lparr>cs_world := snd (sync_device E fd (cs_world s1))\<rparr> else s1)
           in (sig = Some Shutdown \<or> is_stopped receiver, s2)))"

text \<open>The loop from its iteration \<open>i\<close> on; \<open>flag i\<close> is what that iteration reads of the flag.\<close>

partial_function (option) flush_thread_main ::
  "'w env \<Rightarrow> i32 \<Rightarrow> usize \<Rightarrow> flush_schedule \<Rightarrow> nat \<Rightarrow> (nat \<Rightarrow> bool) \<Rightarrow> nat \<Rightarrow> 'w cache_state \<Rightarrow> 'w cache_state option" where
  "flush_thread_main E fd block_size schedule chan flag i s =
     (case flush_iteration E fd block_size schedule \<lparr>fl_chan = chan, fl_stop = flag i\<rparr> s of
        (stop, s') \<Rightarrow>
          if stop then Some s' else flush_thread_main E fd block_size schedule chan flag (Suc i) s')"

text \<open>
  The handle the engine holds. \<open>bf_handle\<close> is \<open>Some\<close> while the thread has not been joined,
  with the arguments its closure captured.
\<close>

record flush_thread =
  ft_fd :: i32
  ft_block_size :: usize
  ft_schedule :: flush_schedule

record background_flusher =
  bf_notifier :: flush_link
  bf_handle :: "flush_thread option"

definition flusher_spawn ::
  "'w env \<Rightarrow> i32 \<Rightarrow> usize \<Rightarrow> flush_schedule \<Rightarrow> 'w \<Rightarrow> background_flusher \<times> 'w" where
  "flusher_spawn E fd block_size schedule w =
     (case flush_channel E w of (link, w') \<Rightarrow>
        (\<lparr>bf_notifier = link,
          bf_handle = Some \<lparr>ft_fd = fd, ft_block_size = block_size, ft_schedule = schedule\<rparr>\<rparr>, w'))"

definition flusher_notifier :: "background_flusher \<Rightarrow> nat" where
  "flusher_notifier B = fl_chan (bf_notifier B)"

text \<open>
  \<open>shutdown\<close> with the thread waiting for a signal: after the signal, \<open>join\<close> lets the thread
  run to its end; the flag has been set and nothing clears it. \<open>panicked\<close> is what \<open>join\<close> reports of a thread that unwound.
\<close>

definition panicked_msg :: string where
  "panicked_msg = ''flush thread panicked during shutdown''"

definition flusher_shutdown ::
  "'w env \<Rightarrow> bool \<Rightarrow> background_flusher \<Rightarrow> 'w cache_state \<Rightarrow>
   (unit cache_result \<times> background_flusher \<times> 'w cache_state) option" where
  "flusher_shutdown E panicked B s =
     (case notifier_shutdown E (bf_notifier B) (cs_world s) of
        (link, w) \<Rightarrow>
          (let s' = s\<lparr>cs_world := w\<rparr>; B' = B\<lparr>bf_notifier := link, bf_handle := None\<rparr>
           in case bf_handle B of
                None \<Rightarrow> Some (Inr (), B', s')
              | Some th \<Rightarrow>
                  (if panicked then Some (Inl (FlushThread panicked_msg), B', s')
                   else case flush_thread_main E (ft_fd th) (ft_block_size th) (ft_schedule th) (fl_chan link)
                          (\<lambda>_. fl_stop link) 0 s' of
                     None \<Rightarrow> None
                   | Some s'' \<Rightarrow> Some (Inr (), B', s''))))"

definition flusher_drop ::
  "'w env \<Rightarrow> bool \<Rightarrow> background_flusher \<Rightarrow> 'w cache_state \<Rightarrow> 'w cache_state option" where
  "flusher_drop E panicked B s =
     (if bf_handle B \<noteq> None
      then map_option (\<lambda>(r, B', s'). s') (flusher_shutdown E panicked B s)
      else Some s)"

section \<open>One entry\<close>

text \<open>What flushing may change: dirty entries become clean, nothing else.\<close>

definition flushed_to :: "'w cache_state \<Rightarrow> 'w cache_state \<Rightarrow> bool" where
  "flushed_to s s' \<longleftrightarrow> cs_pool s' = cs_pool s \<and> cs_mem s' = cs_mem s \<and>
     (\<forall>lba. cached s' lba = cached s lba \<or>
        (\<exists>e. cached s lba = Some e \<and> ce_dirty e \<and> cached s' lba = Some (entry_mark_clean e)))"

lemma flushed_to_refl [simp]: "flushed_to s (s\<lparr>cs_world := w\<rparr>)"
  by (simp add: flushed_to_def)

lemma flushed_to_trans:
  assumes "flushed_to s s1" "flushed_to s1 s2"
  shows "flushed_to s s2"
proof -
  have "cached s2 lba = cached s lba \<or>
      (\<exists>e. cached s lba = Some e \<and> ce_dirty e \<and> cached s2 lba = Some (entry_mark_clean e))" for lba
    using assms unfolding flushed_to_def by (metis entry_mark_clean_simps(3) option.inject)
  with assms show ?thesis by (simp add: flushed_to_def)
qed

lemma flushed_to_dom: "flushed_to s s' \<Longrightarrow> cached s' lba = None \<longleftrightarrow> cached s lba = None"
  unfolding flushed_to_def by (metis option.distinct(1))

lemma flushed_to_unaccounted:
  assumes "flushed_to s s'" "struct_inv s" "struct_inv s'"
  shows "unaccounted n s' = unaccounted n s"
proof -
  have "dom (cached s') = dom (cached s)" using flushed_to_dom [OF assms(1)] unfolding dom_def by simp
  then have "length (lt_inner (cs_table s')) = length (lt_inner (cs_table s))"
    using lt.count_dom [OF struct_invD(3)] assms(2,3) by metis
  then show ?thesis using assms(1) by (simp add: unaccounted_def flushed_to_def)
qed

lemma flushed_to_on_device: "flushed_to s s' \<Longrightarrow> on_device n s \<Longrightarrow> on_device n s'"
  unfolding flushed_to_def on_device_def by (metis option.inject)

lemma flush_entry_post:
  assumes env: "env_ok E disk fd" and inv: "cache_inv disk s"
    and hit: "cached s lba = Some e" "ce_dirty e" "i = ce_pool_index e"
    and run: "flush_entry E fd (mp_block_size (cs_pool s)) (lba, i) s = (ok, s')"
  shows "cache_inv disk s'" "view disk s' = view disk s" "flushed_to s s'"
    "ok \<Longrightarrow> cached s' lba = Some (entry_mark_clean e)"
    "\<And>l. l \<noteq> lba \<Longrightarrow> cached s' l = cached s l"
    "\<not> ok \<Longrightarrow> cs_table s' = cs_table s"
proof -
  have struct: "struct_inv s" using inv by (simp add: cache_inv_def)
  have blk: "block_buffer_as_ref (get_block (cs_pool s) i) (cs_mem s) = slot_data s (ce_pool_index e)"
    by (simp add: hit(3) cached_block [OF struct hit(1)] block_buffer_as_ref_def block_data_def)
  obtain r w where wr: "write_lba E fd lba (mp_block_size (cs_pool s))
      (slot_data s (ce_pool_index e)) (cs_world s) = (r, w)" by fastforce
  note post = write_lba_post [OF env_okD(2) [OF env] cached_fits [OF struct hit(1)] _ wr, simplified]
  note keep = disk_under_dirty [OF inv hit(1,2) post(1)]
  have lbas: "ce_lba (entry_mark_clean e) = lba"
    using table_inv_get [OF struct_invD(3) [OF struct] hit(1)] by simp
  have goals: "cache_inv disk s' \<and> view disk s' = view disk s \<and> flushed_to s s' \<and>
    (ok \<longrightarrow> cached s' lba = Some (entry_mark_clean e)) \<and>
    (\<forall>l. l \<noteq> lba \<longrightarrow> cached s' l = cached s l) \<and> (\<not> ok \<longrightarrow> cs_table s' = cs_table s)"
  proof (cases r)
    case (Inl x)
    then have "s' = s\<lparr>cs_world := w\<rparr>" "\<not> ok"
      using run wr by (auto simp: flush_entry_def blk Let_def)
    then show ?thesis using keep by simp
  next
    case (Inr u)
    then have "ok" and s': "s' = s\<lparr>cs_world := w, cs_table := snd (table_insert (cs_table s) lba (entry_mark_clean e))\<rparr>"
      using run wr hit(1) by (auto simp: flush_entry_def blk Let_def table_mark_clean_eq)
    have "disk_block (disk w) (bsize s) lba = slot_data s (ce_pool_index e)"
      using post(2) Inr by (simp add: disk_block_store_same)
    then have "cache_inv disk s'" "view disk s' = view disk s"
      using replace_entry [OF keep(1), of lba e "entry_mark_clean e"] hit lbas keep(2)
      by (simp_all add: s')
    then show ?thesis
      using hit \<open>ok\<close> by (simp add: s' flushed_to_def)
  qed
  then show "cache_inv disk s'" "view disk s' = view disk s" "flushed_to s s'"
    "ok \<Longrightarrow> cached s' lba = Some (entry_mark_clean e)"
    "\<And>l. l \<noteq> lba \<Longrightarrow> cached s' l = cached s l"
    "\<not> ok \<Longrightarrow> cs_table s' = cs_table s"
    by blast+
qed

section \<open>A cycle\<close>

definition is_clean :: "'w cache_state \<Rightarrow> u64 \<Rightarrow> bool" where
  "is_clean s lba \<longleftrightarrow> (case cached s lba of None \<Rightarrow> False | Some e \<Rightarrow> \<not> ce_dirty e)"

definition snapshot_ok :: "(u64 \<times> usize) list \<Rightarrow> 'w cache_state \<Rightarrow> bool" where
  "snapshot_ok ds s \<longleftrightarrow> distinct (map fst ds) \<and>
     (\<forall>d \<in> set ds. \<exists>e. cached s (fst d) = Some e \<and> ce_dirty e \<and> snd d = ce_pool_index e)"

lemma snapshot_ok_Cons:
  assumes "snapshot_ok (d # ds) s" "\<And>l. l \<noteq> fst d \<Longrightarrow> cached s' l = cached s l"
  shows "snapshot_ok ds s'"
proof -
  have "fst x \<noteq> fst d" if "x \<in> set ds" for x
    using that assms(1) unfolding snapshot_ok_def by (metis distinct.simps(2) image_eqI list.set_map list.simps(9))
  then show ?thesis using assms by (auto simp: snapshot_ok_def)
qed

lemma snapshot_ok_dirty:
  "cache_inv disk s \<Longrightarrow> hash_ok E \<Longrightarrow> snapshot_ok (dirty_entries E (cs_table s)) s"
  using dirty_entries_distinct [of E "cs_table s"] dirty_entries_set [of E "cs_table s"]
  by (auto simp: snapshot_ok_def cache_inv_def struct_inv_def)

definition cycle_post ::
  "'w disk_view \<Rightarrow> (u64 \<times> usize) list \<Rightarrow> 'w cache_state \<Rightarrow> usize \<Rightarrow> 'w cache_state \<Rightarrow> bool" where
  "cycle_post disk ds s n s' \<longleftrightarrow>
     cache_inv disk s' \<and> view disk s' = view disk s \<and> flushed_to s s' \<and>
     (\<forall>l. l \<notin> fst ` set ds \<longrightarrow> cached s' l = cached s l) \<and>
     n = of_nat (length (filter (is_clean s' \<circ> fst) ds))"

lemma flush_loop_acc:
  "flush_loop E fd bs ds (n + k) s = (case flush_loop E fd bs ds k s of (k', s') \<Rightarrow> (n + k', s'))"
  by (induction ds arbitrary: k s) (auto split: prod.splits simp: add.assoc)

lemma flush_loop_post:
  assumes env: "env_ok E disk fd"
  shows "cache_inv disk s \<Longrightarrow> snapshot_ok ds s \<Longrightarrow>
    flush_loop E fd (mp_block_size (cs_pool s)) ds 0 s = (n, s') \<Longrightarrow> cycle_post disk ds s n s'"
proof (induction ds arbitrary: s n s')
  case Nil
  then show ?case by (auto simp: cycle_post_def flushed_to_def)
next
  case (Cons d ds)
  obtain e where hit: "cached s (fst d) = Some e" "ce_dirty e" "snd d = ce_pool_index e"
    using Cons.prems(2) by (auto simp: snapshot_ok_def)
  obtain ok s1 where one: "flush_entry E fd (mp_block_size (cs_pool s)) (fst d, snd d) s = (ok, s1)" by fastforce
  note p = flush_entry_post [OF env Cons.prems(1) hit one]
  have pool: "cs_pool s1 = cs_pool s" using p(3) by (simp add: flushed_to_def)
  obtain k s2 where rest: "flush_loop E fd (mp_block_size (cs_pool s1)) ds 0 s1 = (k, s2)" by fastforce
  have IH: "cycle_post disk ds s1 k s2"
    by (rule Cons.IH [OF p(1) snapshot_ok_Cons [OF Cons.prems(2)] rest]) (rule p(5))
  have res: "s' = s2" "n = (if ok then 1 + k else k)"
    using Cons.prems(3) one rest flush_loop_acc [of E fd _ ds "if ok then 1 else 0" 0 s1]
    by (auto simp: pool split: if_splits)
  have "fst d \<notin> fst ` set ds" using Cons.prems(2) by (auto simp: snapshot_ok_def)
  then have "cached s2 (fst d) = cached s1 (fst d)" using IH by (simp add: cycle_post_def)
  then have "is_clean s2 (fst d) = ok"
    using p(4,6) hit by (cases ok) (simp_all add: is_clean_def)
  then show ?case
    using IH p(2,5) flushed_to_trans [OF p(3)] by (auto simp: cycle_post_def res)
qed

lemma flush_loop_live:
  assumes env: "env_ok E disk fd" and live: "pwrite_live E fd dev_size"
  shows "cache_inv disk s \<Longrightarrow> snapshot_ok ds s \<Longrightarrow> on_device dev_size s \<Longrightarrow>
    flush_loop E fd (mp_block_size (cs_pool s)) ds k s = (n, s') \<Longrightarrow> \<forall>d \<in> set ds. is_clean s' (fst d)"
proof (induction ds arbitrary: s k)
  case Nil
  then show ?case by simp
next
  case (Cons d ds)
  obtain e where hit: "cached s (fst d) = Some e" "ce_dirty e" "snd d = ce_pool_index e"
    using Cons.prems(2) by (auto simp: snapshot_ok_def)
  have struct: "struct_inv s" using Cons.prems(1) by (simp add: cache_inv_def)
  have "unat (fst d) * bsize s + bsize s \<le> dev_size"
    using Cons.prems(3) hit(1) by (auto simp: on_device_def)
  from write_lba_live [OF env_okD(2) [OF env] live cached_fits [OF struct hit(1)] this]
  have "\<exists>w. write_lba E fd (fst d) (mp_block_size (cs_pool s)) (slot_data s (ce_pool_index e)) (cs_world s) = (Inr (), w)"
    by simp
  then obtain s1 where one: "flush_entry E fd (mp_block_size (cs_pool s)) (fst d, snd d) s = (True, s1)"
    by (auto simp: flush_entry_def hit(3) cached_block [OF struct hit(1)] block_buffer_as_ref_def block_data_def Let_def)
  note p = flush_entry_post [OF env Cons.prems(1) hit one]
  have pool: "cs_pool s1 = cs_pool s" using p(3) by (simp add: flushed_to_def)
  have sn: "snapshot_ok ds s1" by (rule snapshot_ok_Cons [OF Cons.prems(2)]) (rule p(5))
  have rest: "flush_loop E fd (mp_block_size (cs_pool s1)) ds (k + 1) s1 = (n, s')"
    using Cons.prems(4) one by (simp add: pool)
  then obtain n0 where "flush_loop E fd (mp_block_size (cs_pool s1)) ds 0 s1 = (n0, s')"
    using flush_loop_acc [of E fd _ ds "k + 1" 0 s1] by (auto split: prod.splits)
  from flush_loop_post [OF env p(1) sn this] have "cached s' (fst d) = cached s1 (fst d)"
    using Cons.prems(2) by (auto simp: cycle_post_def snapshot_ok_def)
  then have "is_clean s' (fst d)" using p(4) by (simp add: is_clean_def)
  then show ?case
    using Cons.IH [OF p(1) sn flushed_to_on_device [OF p(3) Cons.prems(3)] rest] by simp
qed

lemma flush_dirty_blocks_post:
  assumes env: "env_ok E disk fd" and inv: "cache_inv disk s"
    and run: "flush_dirty_blocks E fd (mp_block_size (cs_pool s)) s = (n, s')"
  shows "cycle_post disk (dirty_entries E (cs_table s)) s n s'"
proof (rule flush_loop_post [OF env inv])
  show "snapshot_ok (dirty_entries E (cs_table s)) s"
    using snapshot_ok_dirty [OF inv env_okD(4) [OF env]] .
  show "flush_loop E fd (mp_block_size (cs_pool s)) (dirty_entries E (cs_table s)) 0 s = (n, s')"
    using run by (auto simp: flush_dirty_blocks_def Let_def split: if_splits)
qed

section \<open>The thread\<close>

text \<open>The device holds every block as a client sees it.\<close>

definition settled :: "'w disk_view \<Rightarrow> 'w cache_state \<Rightarrow> bool" where
  "settled disk s \<longleftrightarrow> (\<forall>lba. disk_block (disk (cs_world s)) (bsize s) lba = view disk s lba)"

definition all_clean :: "'w cache_state \<Rightarrow> bool" where
  "all_clean s \<longleftrightarrow> (\<forall>lba e. cached s lba = Some e \<longrightarrow> \<not> ce_dirty e)"

lemma settled_if_clean: "cache_inv disk s \<Longrightarrow> all_clean s \<Longrightarrow> settled disk s"
  by (auto simp: settled_def all_clean_def cache_inv_def coherent_def view_def split: option.splits)

lemma cycle_all_clean:
  assumes env: "env_ok E disk fd" and inv: "cache_inv disk s"
    and live: "pwrite_live E fd dev_size" "on_device dev_size s"
    and run: "flush_dirty_blocks E fd (mp_block_size (cs_pool s)) s = (n, s')"
  shows "all_clean s'"
proof -
  let ?ds = "dirty_entries E (cs_table s)"
  have struct: "struct_inv s" using inv by (simp add: cache_inv_def)
  note post = flush_dirty_blocks_post [OF env inv run]
  have "flush_loop E fd (mp_block_size (cs_pool s)) ?ds 0 s = (n, s')"
    using run by (auto simp: flush_dirty_blocks_def Let_def split: if_splits)
  from flush_loop_live [OF env live(1) inv snapshot_ok_dirty [OF inv env_okD(4) [OF env]] live(2) this]
  have clean: "is_clean s' lba" if "lba \<in> fst ` set ?ds" for lba using that by auto
  have "\<not> ce_dirty e" if hit: "cached s' lba = Some e" for lba e
  proof (cases "lba \<in> fst ` set ?ds")
    case True
    then show ?thesis using clean hit by (force simp: is_clean_def)
  next
    case False
    then have "cached s lba = Some e" using post hit by (simp add: cycle_post_def)
    moreover have "\<forall>i. (lba, i) \<notin> set ?ds" using False by force
    ultimately show ?thesis
      unfolding dirty_entries_set [OF env_okD(4) [OF env] struct_invD(3) [OF struct]] by blast
  qed
  then show ?thesis by (simp add: all_clean_def)
qed

lemma receiver_wait_disk:
  assumes "quiet_ok E disk"
  shows "disk (snd (receiver_wait E c d w)) = disk w"
proof -
  have "snd (receiver_wait E c d w) = snd (env_recv_timeout E c d w)"
    by (simp add: receiver_wait_def split: prod.splits sum.splits recv_timeout_error.splits)
  then show ?thesis by (simp add: quiet_okD [OF assms])
qed

lemma sync_device_disk:
  assumes "quiet_ok E disk"
  shows "disk (snd (sync_device E fd w)) = disk w"
proof -
  have "snd (sync_device E fd w) = snd (env_fsync E fd w)"
    by (simp add: sync_device_def split: prod.splits sum.splits)
  then show ?thesis by (simp add: quiet_okD [OF assms])
qed

lemma flush_iteration_post:
  assumes env: "env_ok E disk fd" and inv: "cache_inv disk s"
    and run: "flush_iteration E fd (mp_block_size (cs_pool s)) sch link s = (stop, s')"
  shows "cache_inv disk s'" "view disk s' = view disk s" "flushed_to s s'"
    "pwrite_live E fd dev_size \<Longrightarrow> on_device dev_size s \<Longrightarrow> all_clean s'"
    "is_stopped link \<Longrightarrow> stop"
proof -
  note quiet = env_okD(3) [OF env]
  obtain sig w where wait: "receiver_wait E (fl_chan link) (fs_interval sch) (cs_world s) = (sig, w)" by fastforce
  have dw: "disk w = disk (cs_world s)"
    using wait receiver_wait_disk [OF quiet, of "fl_chan link" "fs_interval sch" "cs_world s"] by simp
  let ?s = "s\<lparr>cs_world := w\<rparr>"
  obtain n s1 where fl: "flush_dirty_blocks E fd (mp_block_size (cs_pool s)) ?s = (n, s1)" by fastforce
  have inv0: "cache_inv disk ?s" "view disk ?s = view disk s" using world_change [OF dw] inv by simp_all
  note post = flush_dirty_blocks_post [OF env inv0(1), simplified, OF fl]
  define s2 where "s2 = (if 0 < n then s1\<lparr>cs_world := snd (sync_device E fd (cs_world s1))\<rparr> else s1)"
  have res: "s' = s2" "stop = (sig = Some Shutdown \<or> is_stopped link)"
    using run wait fl by (simp_all add: flush_iteration_def s2_def Let_def)
  from world_change [OF sync_device_disk [OF quiet, of fd "cs_world s1"]] have s2: "cache_inv disk s2 = cache_inv disk s1" "view disk s2 = view disk s1"
    "\<And>s0. flushed_to s0 s2 = flushed_to s0 s1" "all_clean s2 = all_clean s1"
    by (simp_all add: s2_def flushed_to_def all_clean_def)
  show "cache_inv disk s'" "view disk s' = view disk s" "flushed_to s s'"
    using post inv0(2) flushed_to_trans [OF flushed_to_refl [of s w], of s1] by (simp_all add: res s2 cycle_post_def)
  show "all_clean s'" if "pwrite_live E fd dev_size" "on_device dev_size s"
    using cycle_all_clean [OF env inv0(1) that(1), simplified, OF _ fl] that(2) by (simp add: res s2 on_device_def)
  show "is_stopped link \<Longrightarrow> stop" by (simp add: res)
qed

lemma flush_thread_main_stopped:
  "flag i \<Longrightarrow> flush_thread_main E fd bs sch chan flag i s =
     Some (snd (flush_iteration E fd bs sch \<lparr>fl_chan = chan, fl_stop = True\<rparr> s))"
  by (subst flush_thread_main.simps) (simp add: flush_iteration_def is_stopped_def Let_def split: prod.splits)

text \<open>
  What an iteration does does not depend on the flag. \<open>thread_state\<close> is the state before
  iteration \<open>n\<close>, and \<open>received\<close> what that iteration receives from the channel.
\<close>

primrec thread_state ::
  "'w env \<Rightarrow> i32 \<Rightarrow> usize \<Rightarrow> flush_schedule \<Rightarrow> nat \<Rightarrow> nat \<Rightarrow> 'w cache_state \<Rightarrow> 'w cache_state" where
  "thread_state E fd bs sch chan 0 s = s"
| "thread_state E fd bs sch chan (Suc n) s =
     thread_state E fd bs sch chan n (snd (flush_iteration E fd bs sch \<lparr>fl_chan = chan, fl_stop = False\<rparr> s))"

definition received ::
  "'w env \<Rightarrow> i32 \<Rightarrow> usize \<Rightarrow> flush_schedule \<Rightarrow> nat \<Rightarrow> nat \<Rightarrow> 'w cache_state \<Rightarrow> flush_signal option" where
  "received E fd bs sch chan n s = fst (receiver_wait E chan (fs_interval sch) (cs_world (thread_state E fd bs sch chan n s)))"

lemma flush_iteration_split:
  "flush_iteration E fd bs sch \<lparr>fl_chan = chan, fl_stop = b\<rparr> s =
     (received E fd bs sch chan 0 s = Some Shutdown \<or> b, thread_state E fd bs sch chan 1 s)"
  by (simp add: flush_iteration_def received_def is_stopped_def Let_def case_prod_unfold)

lemma received_Suc: "received E fd bs sch chan (Suc n) s = received E fd bs sch chan n (thread_state E fd bs sch chan 1 s)"
  by (simp add: received_def)

lemma flush_thread_main_unfold:
  "flush_thread_main E fd bs sch chan flag i s =
     (if received E fd bs sch chan 0 s = Some Shutdown \<or> flag i then Some (thread_state E fd bs sch chan 1 s)
      else flush_thread_main E fd bs sch chan flag (Suc i) (thread_state E fd bs sch chan 1 s))"
  by (subst flush_thread_main.simps) (simp only: flush_iteration_split prod.case)

text \<open>However many iterations the thread makes, it preserves what clients see.\<close>

lemma thread_state_keeps:
  assumes "env_ok E disk fd"
  shows "cache_inv disk s \<Longrightarrow> bs = mp_block_size (cs_pool s) \<Longrightarrow>
    cache_inv disk (thread_state E fd bs sch chan n s) \<and> view disk (thread_state E fd bs sch chan n s) = view disk s \<and>
    flushed_to s (thread_state E fd bs sch chan n s)"
proof (induction n arbitrary: s)
  case 0
  then show ?case using flushed_to_refl [of s "cs_world s"] by simp
next
  case (Suc n)
  obtain stop s1 where it: "flush_iteration E fd bs sch \<lparr>fl_chan = chan, fl_stop = False\<rparr> s = (stop, s1)" by fastforce
  note p = flush_iteration_post [OF assms Suc.prems(1) it [unfolded Suc.prems(2)]]
  have "bs = mp_block_size (cs_pool s1)" using Suc.prems(2) p(3) by (simp add: flushed_to_def)
  from Suc.IH [OF p(1) this] show ?case using p(2) flushed_to_trans [OF p(3)] it by simp
qed

text \<open>The last iteration leaves everything on a device that accepts the writes.\<close>

lemma thread_state_settled:
  assumes env: "env_ok E disk fd" and inv: "cache_inv disk s" and live: "pwrite_live E fd dev_size" "on_device dev_size s"
    and bs: "bs = mp_block_size (cs_pool s)"
    and s': "s' = thread_state E fd bs sch chan (Suc n) s"
  shows "cache_inv disk s' \<and> all_clean s' \<and> (\<forall>lba. disk_block (disk (cs_world s')) (bsize s) lba = view disk s lba)"
proof -
  have last: "thread_state E fd bs sch chan (Suc n) s = thread_state E fd bs sch chan 1 (thread_state E fd bs sch chan n s)"
    by (induction n arbitrary: s) simp_all
  define s0 where "s0 = thread_state E fd bs sch chan n s"
  obtain stop s1 where it: "flush_iteration E fd bs sch \<lparr>fl_chan = chan, fl_stop = False\<rparr> s0 = (stop, s1)" by fastforce
  have k: "cache_inv disk s0" "view disk s0 = view disk s" "flushed_to s s0"
    using thread_state_keeps [OF env inv bs] by (auto simp: s0_def)
  have pool: "bs = mp_block_size (cs_pool s0)" using k(3) bs by (simp add: flushed_to_def)
  note p = flush_iteration_post [OF env k(1) it [unfolded pool]]
  have "s' = s1" using last it by (simp add: s' s0_def)
  moreover have clean: "all_clean s1" by (rule p(4) [OF live(1) flushed_to_on_device [OF k(3) live(2)]])
  moreover have "disk_block (disk (cs_world s1)) (bsize s) lba = view disk s lba" for lba
    using settled_if_clean [OF p(1) clean] p(2,3) k by (simp add: settled_def flushed_to_def)
  ultimately show ?thesis using p(1) by simp
qed

lemma flush_thread_main_returns:
  "received E fd bs sch chan n s = Some Shutdown \<or> flag (i + n) \<Longrightarrow>
   \<forall>k < n. received E fd bs sch chan k s \<noteq> Some Shutdown \<and> \<not> flag (i + k) \<Longrightarrow>
   flush_thread_main E fd bs sch chan flag i s = Some (thread_state E fd bs sch chan (Suc n) s)"
proof (induction n arbitrary: i s)
  case 0
  then show ?case by (subst flush_thread_main_unfold) auto
next
  case (Suc n)
  let ?s = "thread_state E fd bs sch chan 1 s"
  have "received E fd bs sch chan k ?s \<noteq> Some Shutdown \<and> \<not> flag (Suc i + k)" if "k < n" for k
    using Suc.prems(2) [rule_format, of "Suc k"] that by (simp add: received_Suc)
  then have "flush_thread_main E fd bs sch chan flag (Suc i) ?s = Some (thread_state E fd bs sch chan (Suc n) ?s)"
    using Suc.IH [of ?s "Suc i"] Suc.prems(1) by (simp add: received_Suc)
  moreover have "received E fd bs sch chan 0 s \<noteq> Some Shutdown" "\<not> flag i" using Suc.prems(2) [rule_format, of 0] by simp_all
  ultimately show ?case by (subst flush_thread_main_unfold) simp
qed

lemma flush_thread_main_told:
  assumes "flush_thread_main E fd bs sch chan flag i s = Some s'"
  shows "\<exists>n. received E fd bs sch chan n s = Some Shutdown \<or> flag (i + n)"
proof (rule flush_thread_main.raw_induct [where P =
      "\<lambda>E fd bs sch chan flag i s s'. \<exists>n. received E fd bs sch chan n s = Some Shutdown \<or> flag (i + n)", OF _ assms])
  fix main :: "'a env \<Rightarrow> i32 \<Rightarrow> usize \<Rightarrow> flush_schedule \<Rightarrow> nat \<Rightarrow> (nat \<Rightarrow> bool) \<Rightarrow> nat \<Rightarrow> 'a cache_state \<Rightarrow> 'a cache_state option"
    and E fd bs sch chan flag i s s'
  assume IH: "\<And>E fd bs sch chan flag i s s'. main E fd bs sch chan flag i s = Some s' \<Longrightarrow>
      \<exists>n. received E fd bs sch chan n s = Some Shutdown \<or> flag (i + n)"
    and body: "(case flush_iteration E fd bs sch \<lparr>fl_chan = chan, fl_stop = flag i\<rparr> s of
      (stop, s1) \<Rightarrow> if stop then Some s1 else main E fd bs sch chan flag (Suc i) s1) = Some s'"
  show "\<exists>n. received E fd bs sch chan n s = Some Shutdown \<or> flag (i + n)"
  proof (cases "received E fd bs sch chan 0 s = Some Shutdown \<or> flag i")
    case True
    then show ?thesis by (intro exI [of _ 0]) simp
  next
    case False
    then have "main E fd bs sch chan flag (Suc i) (thread_state E fd bs sch chan 1 s) = Some s'"
      using body unfolding flush_iteration_split by simp
    from IH [OF this] obtain n where
      "received E fd bs sch chan n (thread_state E fd bs sch chan 1 s) = Some Shutdown \<or> flag (Suc i + n)" by blast
    then show ?thesis by (intro exI [of _ "Suc n"]) (simp add: received_Suc)
  qed
qed

lemma flusher_shutdown_idle:
  assumes "bf_handle B = Some th"
  defines "link \<equiv> (bf_notifier B)\<lparr>fl_stop := True\<rparr>"
  shows "flusher_shutdown E False B s =
    Some (Inr (), B\<lparr>bf_notifier := link, bf_handle := None\<rparr>,
      snd (flush_iteration E (ft_fd th) (ft_block_size th) (ft_schedule th) link
        (s\<lparr>cs_world := env_try_send E (fl_chan link) Shutdown (cs_world s)\<rparr>)))"
proof -
  have "link = \<lparr>fl_chan = fl_chan (bf_notifier B), fl_stop = True\<rparr>" by (simp add: link_def)
  then show ?thesis
    using assms(1) by (simp add: flusher_shutdown_def notifier_shutdown_def flush_thread_main_stopped Let_def)
qed

text \<open>A world in which the descriptor refuses every write.\<close>

definition refused_at :: "'w env \<Rightarrow> i32 \<Rightarrow> 'w \<Rightarrow> bool" where
  "refused_at E fd w \<longleftrightarrow> (\<forall>bs off. \<exists>e. env_pwrite E fd bs off w = (Inl e, w))"

lemma write_lba_refused:
  assumes "refused_at E fd w" "buf \<noteq> []"
  shows "\<exists>e. write_lba E fd lba bs buf w = (Inl e, w)"
proof -
  obtain e where "env_pwrite E fd (drop 0 buf) (lba * bs) w = (Inl e, w)"
    using assms(1) unfolding refused_at_def by blast
  with assms(2) show ?thesis
    by (auto simp: write_lba_def write_block_def write_loop.simps)
qed

lemma flush_loop_refused:
  assumes ref: "refused_at E fd (cs_world s)" and struct: "struct_inv s"
  shows "snapshot_ok ds s \<Longrightarrow> flush_loop E fd (mp_block_size (cs_pool s)) ds k s = (k, s)"
proof (induction ds)
  case Nil
  then show ?case by simp
next
  case (Cons d ds)
  obtain e where hit: "cached s (fst d) = Some e" "snd d = ce_pool_index e"
    using Cons.prems by (auto simp: snapshot_ok_def)
  have "0 < bsize s" using struct_invD(2) [OF struct] by (simp add: pool_shape_def unat_gt_0)
  then have "slot_data s (ce_pool_index e) \<noteq> []"
    by (metis length_block_data length_greater_0_conv)
  from write_lba_refused [OF ref this] obtain x where
    "write_lba E fd (fst d) (mp_block_size (cs_pool s)) (slot_data s (ce_pool_index e)) (cs_world s) = (Inl x, cs_world s)"
    by blast
  then have "flush_entry E fd (mp_block_size (cs_pool s)) d s = (False, s)"
    by (simp add: flush_entry_def hit(2) cached_block [OF struct hit(1)] block_buffer_as_ref_def
        block_data_def Let_def)
  moreover have "snapshot_ok ds s" by (rule snapshot_ok_Cons [OF Cons.prems]) simp
  ultimately show ?case using Cons by simp
qed

lemma shutdown_refused:
  assumes env: "env_ok E disk fd" and inv: "cache_inv disk s"
    and th: "bf_handle B = Some \<lparr>ft_fd = fd, ft_block_size = mp_block_size (cs_pool s), ft_schedule = sch\<rparr>"
  defines "w \<equiv> snd (receiver_wait E (fl_chan (bf_notifier B)) (fs_interval sch)
    (env_try_send E (fl_chan (bf_notifier B)) Shutdown (cs_world s)))"
  assumes ref: "refused_at E fd w"
  shows "flusher_shutdown E False B s =
      Some (Inr (), B\<lparr>bf_notifier := (bf_notifier B)\<lparr>fl_stop := True\<rparr>, bf_handle := None\<rparr>, s\<lparr>cs_world := w\<rparr>)"
    "disk w = disk (cs_world s)"
proof -
  note quiet = env_okD(3) [OF env]
  let ?s = "s\<lparr>cs_world := w\<rparr>"
  show dw: "disk w = disk (cs_world s)"
    using receiver_wait_disk [OF quiet] quiet_okD [OF quiet] by (simp add: w_def)
  have inv': "cache_inv disk ?s" using world_change [OF dw] inv by simp
  then have "struct_inv ?s" by (simp add: cache_inv_def)
  then have "flush_dirty_blocks E fd (mp_block_size (cs_pool s)) ?s = (0, ?s)"
    using flush_loop_refused [of E fd ?s, OF _ _ snapshot_ok_dirty [OF inv' env_okD(4) [OF env]]] ref
    by (simp add: flush_dirty_blocks_def Let_def)
  then show "flusher_shutdown E False B s =
      Some (Inr (), B\<lparr>bf_notifier := (bf_notifier B)\<lparr>fl_stop := True\<rparr>, bf_handle := None\<rparr>, ?s)"
    using flusher_shutdown_idle [OF th, of E s]
    by (simp add: flush_iteration_def w_def Let_def case_prod_unfold)
qed

section \<open>Properties\<close>

text \<open>
  C7. One flush cycle keeps the cache invariant and every block's content as clients see it,
  whichever of its writes fail: it only turns dirty entries into clean ones, and the number
  it returns is the number of entries it turned. A clean entry holds what the device holds,
  so each block counted is on the device.
\<close>

theorem flush_cycle_spec:
  assumes "env_ok E disk fd" "cache_inv disk s" "block_size = mp_block_size (cs_pool s)"
  shows "case flush_dirty_blocks E fd block_size s of
      (n, s') \<Rightarrow>
        cache_inv disk s' \<and> view disk s' = view disk s \<and> flushed_to s s' \<and>
        n = of_nat (length (filter (is_clean s' \<circ> fst) (dirty_entries E (cs_table s))))"
  using flush_dirty_blocks_post [OF assms(1,2)] assms(3) by (auto simp: cycle_post_def split: prod.splits)

theorem flush_cycle_spec_witness:
  "cache_inv sim_disk sample_cache \<and>
   (case flush_dirty_blocks sim_env 3 4096 sample_cache of
      (n, s') \<Rightarrow> cache_inv sim_disk s' \<and> view sim_disk s' 3 = replicate 4096 7)"
  using flush_cycle_spec [OF sim_env_ok sample_cache_inv, where fd = 3 and block_size = 4096] sample_cache_inv
  by (auto simp: sample_cache_view split: prod.splits)

text \<open>
  When the device accepts the writes, one iteration of the flush thread leaves every
  cached block clean and the device holding every block exactly as clients see it.
\<close>

theorem flush_iteration_settles:
  assumes "env_ok E disk fd" "cache_inv disk s" "pwrite_live E fd dev_size" "on_device dev_size s"
    "block_size = mp_block_size (cs_pool s)"
  shows "case flush_iteration E fd block_size sch link s of
      (stop, s') \<Rightarrow> cache_inv disk s' \<and> all_clean s' \<and>
        (\<forall>lba. disk_block (disk (cs_world s')) (bsize s) lba = view disk s lba)"
proof -
  obtain stop s' where it: "flush_iteration E fd block_size sch link s = (stop, s')" by fastforce
  note p = flush_iteration_post [OF assms(1,2) it [unfolded assms(5)]]
  have "all_clean s'" using p(4) assms(3,4) by blast
  with settled_if_clean [OF p(1)] p(1-3) it show ?thesis by (simp add: settled_def flushed_to_def)
qed

theorem flush_iteration_settles_witness:
  "case flush_iteration reliable_env 3 4096 flush_schedule_default \<lparr>fl_chan = 0, fl_stop = False\<rparr> sample_cache of
     (stop, s') \<Rightarrow> all_clean s' \<and> disk_block (sim_disk (cs_world s')) 4096 3 = replicate 4096 7"
  using flush_iteration_settles [OF reliable_env_ok sample_cache_inv reliable_pwrite_live sample_on_device,
      where fd = 3 and block_size = 4096 and sch = flush_schedule_default and link = "\<lparr>fl_chan = 0, fl_stop = False\<rparr>"]
  by (auto simp: sample_cache_view split: prod.splits)

text \<open>
  C8. Shutting down a flusher whose thread waits for a signal returns, with \<open>Ok\<close>: the
  thread makes one more cycle and ends. If the device accepts the writes, every block is on
  the device then, as clients saw it; the handle is gone, so a later \<open>drop\<close> does nothing.
\<close>

theorem shutdown_persists:
  assumes "env_ok E disk fd" "cache_inv disk s" "pwrite_live E fd dev_size" "on_device dev_size s"
    "bf_handle B = Some \<lparr>ft_fd = fd, ft_block_size = mp_block_size (cs_pool s), ft_schedule = sch\<rparr>"
  shows "\<exists>B' s'. flusher_shutdown E False B s = Some (Inr (), B', s') \<and>
    cache_inv disk s' \<and> all_clean s' \<and>
    (\<forall>lba. disk_block (disk (cs_world s')) (bsize s) lba = view disk s lba) \<and>
    flusher_drop E panicked B' s' = Some s'"
proof -
  let ?link = "(bf_notifier B)\<lparr>fl_stop := True\<rparr>"
  let ?s = "s\<lparr>cs_world := env_try_send E (fl_chan ?link) Shutdown (cs_world s)\<rparr>"
  have s: "cache_inv disk ?s" "view disk ?s = view disk s"
    using world_change [of disk "env_try_send E (fl_chan ?link) Shutdown (cs_world s)" s] assms(2)
    by (simp_all add: quiet_okD [OF env_okD(3) [OF assms(1)]])
  obtain stop s' where it: "flush_iteration E fd (mp_block_size (cs_pool ?s)) sch ?link ?s = (stop, s')" by fastforce
  note p = flush_iteration_post [OF assms(1) s(1) it]
  have "on_device dev_size ?s" using assms(4) by (simp add: on_device_def)
  then have clean: "all_clean s'" using p(4) assms(3) by blast
  have "disk_block (disk (cs_world s')) (bsize s) lba = view disk s lba" for lba
    using settled_if_clean [OF p(1) clean] p(2,3) s(2) by (simp add: settled_def flushed_to_def)
  moreover have "flusher_shutdown E False B s = Some (Inr (), B\<lparr>bf_notifier := ?link, bf_handle := None\<rparr>, s')"
    using flusher_shutdown_idle [OF assms(5), of E s] it by simp
  moreover have "flusher_drop E panicked (B\<lparr>bf_notifier := ?link, bf_handle := None\<rparr>) s' = Some s'"
    by (simp add: flusher_drop_def)
  ultimately show ?thesis using p(1) clean by blast
qed

definition sample_flusher :: background_flusher where
  "sample_flusher = \<lparr>bf_notifier = \<lparr>fl_chan = 0, fl_stop = False\<rparr>,
     bf_handle = Some \<lparr>ft_fd = 3, ft_block_size = 4096, ft_schedule = flush_schedule_default\<rparr>\<rparr>"

theorem shutdown_persists_witness:
  "\<exists>B' s'. flusher_shutdown reliable_env False sample_flusher sample_cache = Some (Inr (), B', s') \<and>
     disk_block (sim_disk (cs_world s')) 4096 3 = replicate 4096 7"
  using shutdown_persists [OF reliable_env_ok sample_cache_inv reliable_pwrite_live sample_on_device,
      where fd = 3 and B = sample_flusher and sch = flush_schedule_default and panicked = False]
  by (auto simp: sample_flusher_def sample_cache_view)

text \<open>
  C38. Write errors of the final flush are not reported: on a descriptor that refuses every
  write, shutting down still returns \<open>Ok\<close>, with the dirty blocks still dirty, the device
  unchanged and the thread gone.
\<close>

theorem shutdown_hides_write_errors:
  assumes "env_ok E disk fd" "cache_inv disk s" "pwrite_refused E fd"
    "bf_handle B = Some \<lparr>ft_fd = fd, ft_block_size = mp_block_size (cs_pool s), ft_schedule = sch\<rparr>"
  shows "\<exists>B' s'. flusher_shutdown E False B s = Some (Inr (), B', s') \<and>
    bf_handle B' = None \<and> cs_table s' = cs_table s \<and> disk (cs_world s') = disk (cs_world s)"
proof -
  have "refused_at E fd w" for w using assms(3) by (simp add: pwrite_refused_def refused_at_def)
  from shutdown_refused [OF assms(1,2,4) this] show ?thesis by auto
qed

definition refusing_env :: "sim_world env" where
  "refusing_env = sim_env\<lparr>env_pwrite := (\<lambda>fd bs off w. (Inl ebadf, w))\<rparr>"

lemma refusing_env_ok: "env_ok refusing_env sim_disk fd"
proof -
  have "pread_ok refusing_env sim_disk fd" "quiet_ok refusing_env sim_disk" "hash_ok refusing_env"
    using sim_pread_ok [of fd] sim_quiet_ok sim_hash_ok
    by (simp_all add: pread_ok_def quiet_ok_def hash_ok_def refusing_env_def)
  moreover have "pwrite_ok refusing_env sim_disk fd"
    by (auto simp: pwrite_ok_def refusing_env_def)
  ultimately show ?thesis by (simp add: env_ok_def)
qed

theorem shutdown_hides_write_errors_witness:
  "\<exists>B' s'. flusher_shutdown refusing_env False sample_flusher sample_cache = Some (Inr (), B', s') \<and>
     sim_disk (cs_world s') = (\<lambda>_. 9)"
proof -
  have "pwrite_refused refusing_env 3" by (simp add: pwrite_refused_def refusing_env_def)
  from shutdown_hides_write_errors [OF refusing_env_ok sample_cache_inv this,
      where B = sample_flusher and sch = flush_schedule_default]
  show ?thesis by (auto simp: sample_flusher_def sample_cache_def sim_init_def)
qed

text \<open>
  C14. When the flush thread ends, and with what: whatever values its tests read of the stop
  flag, which other threads may set at any time, the thread returns if and only if some
  iteration receives a shutdown signal or finds the flag set, and then at the end of the first
  such iteration. What was dirty before that iteration is written in it: if the device accepts
  the writes, the thread leaves every block on the device as clients saw it.
\<close>

theorem flush_thread_ends_when_told:
  assumes "env_ok E disk fd" "cache_inv disk s" "pwrite_live E fd dev_size" "on_device dev_size s"
    "bs = mp_block_size (cs_pool s)"
  shows "case flush_thread_main E fd bs sch chan flag 0 s of
      None \<Rightarrow> \<forall>n. received E fd bs sch chan n s \<noteq> Some Shutdown \<and> \<not> flag n
    | Some s' \<Rightarrow>
        (\<exists>n. (received E fd bs sch chan n s = Some Shutdown \<or> flag n) \<and>
           (\<forall>k < n. received E fd bs sch chan k s \<noteq> Some Shutdown \<and> \<not> flag k) \<and>
           s' = thread_state E fd bs sch chan (Suc n) s) \<and>
        cache_inv disk s' \<and> all_clean s' \<and> (\<forall>lba. disk_block (disk (cs_world s')) (bsize s) lba = view disk s lba)"
proof -
  let ?told = "\<lambda>n. received E fd bs sch chan n s = Some Shutdown \<or> flag n"
  show ?thesis
  proof (cases "\<exists>n. ?told n")
    case True
    then obtain n where n: "?told n" "\<forall>k < n. \<not> ?told k" using exists_least_iff [of ?told] by blast
    then have "flush_thread_main E fd bs sch chan flag 0 s = Some (thread_state E fd bs sch chan (Suc n) s)"
      by (intro flush_thread_main_returns) simp_all
    then show ?thesis
      using n thread_state_settled [OF assms refl, where sch = sch and chan = chan and n = n]
      by (auto simp del: thread_state.simps)
  next
    case False
    then have "flush_thread_main E fd bs sch chan flag 0 s = None"
      using flush_thread_main_told [of E fd bs sch chan flag 0 s] by (cases "flush_thread_main E fd bs sch chan flag 0 s") auto
    then show ?thesis using False by simp
  qed
qed

theorem flush_thread_ends_when_told_witness:
  "\<exists>s'. flush_thread_main reliable_env 3 4096 flush_schedule_default 0 (\<lambda>i. 2 \<le> i) 0 sample_cache = Some s' \<and>
     disk_block (sim_disk (cs_world s')) 4096 3 = replicate 4096 7"
  using flush_thread_ends_when_told [OF reliable_env_ok sample_cache_inv reliable_pwrite_live sample_on_device,
      where fd = 3 and bs = 4096 and sch = flush_schedule_default and chan = 0 and flag = "\<lambda>i. 2 \<le> i"]
  by (auto simp: sample_cache_view split: option.splits)

end
