(* ===== verification/Fmt.thy ===== *)
theory Fmt
  imports Flush_Control
begin

text \<open>
  What the crate uses of Rust's formatting of floating-point numbers and of its string and
  path functions: \<open>{:.N}\<close> and \<open>{}\<close> of an \<open>f64\<close>, \<open>str::trim\<close>, \<open>Path::file_name\<close> and the test
  \<open>CString::new\<close> makes. Strings are UTF-8 text and \<open>trim\<close> removes ASCII white space.
\<close>

section \<open>Numbers\<close>

text \<open>\<open>{:.N}\<close>: the exact value rounded to \<open>n\<close> decimals, ties to even.\<close>

definition zero_pad :: "nat \<Rightarrow> string \<Rightarrow> string" where
  "zero_pad n s = replicate (n - length s) CHR ''0'' @ s"

definition show_scaled :: "nat \<Rightarrow> nat \<Rightarrow> string" where
  "show_scaled n k =
     (if n = 0 then show_nat k
      else show_nat (k div 10 ^ n) @ ''.'' @ zero_pad n (show_nat (k mod 10 ^ n)))"

definition show_fixed :: "nat \<Rightarrow> rat \<Rightarrow> string" where
  "show_fixed n x = (if x < 0 then ''-'' else []) @ show_scaled n (nat (rne (\<bar>x\<bar> * 10 ^ n)))"

fun f64_fixed :: "nat \<Rightarrow> f64 \<Rightarrow> string" where
  "f64_fixed n (Fin x) = show_fixed n x"
| "f64_fixed n Inf = ''inf''"
| "f64_fixed n NegInf = ''-inf''"
| "f64_fixed n NaN = ''NaN''"

text \<open>Multiplication by a positive constant.\<close>

fun f64_scale :: "f64 \<Rightarrow> rat \<Rightarrow> f64" where
  "f64_scale (Fin x) c = Fin (if x < 0 then - round53 (- x * c) else round53 (x * c))"
| "f64_scale Inf c = Inf"
| "f64_scale NegInf c = NegInf"
| "f64_scale NaN c = NaN"

text \<open>
  \<open>{}\<close>: the shortest decimal that rounds to the value. With \<open>k\<close> decimals the candidates are
  the two neighbours of the value; the first \<open>k\<close> for which one of them rounds to it is taken.
\<close>

definition decimal_at :: "rat \<Rightarrow> int \<Rightarrow> int option" where
  "decimal_at x k =
     (let scale = (if 0 \<le> k then 10 ^ nat k else 1 / 10 ^ nat (- k));
          lo = \<lfloor>x * scale\<rfloor>; hi = \<lceil>x * scale\<rceil>;
          fits = (\<lambda>c. 0 < c \<and> round53 (of_int c / scale) = x)
      in if fits lo \<and> (\<not> fits hi \<or> x * scale - of_int lo \<le> of_int hi - x * scale) then Some lo
         else if fits hi then Some hi else None)"

definition show_decimal :: "int \<Rightarrow> int \<Rightarrow> string" where
  "show_decimal c k = (if 0 \<le> k then show_scaled (nat k) (nat c) else show_nat (nat c * 10 ^ nat (- k)))"

definition show_shortest :: "rat \<Rightarrow> string" where
  "show_shortest x =
     (if x = 0 then ''0''
      else case List.find (\<lambda>k. decimal_at \<bar>x\<bar> k \<noteq> None) (map (\<lambda>i. int i - 308) [0..<1400]) of
        None \<Rightarrow> []
      | Some k \<Rightarrow> (if x < 0 then ''-'' else []) @ show_decimal (the (decimal_at \<bar>x\<bar> k)) k)"

fun f64_display :: "f64 \<Rightarrow> string" where
  "f64_display (Fin x) = show_shortest x"
| "f64_display Inf = ''inf''"
| "f64_display NegInf = ''-inf''"
| "f64_display NaN = ''NaN''"

definition show_bool :: "bool \<Rightarrow> string" where
  "show_bool b = (if b then ''true'' else ''false'')"

section \<open>Strings and paths\<close>

definition is_space :: "char \<Rightarrow> bool" where
  "is_space c \<longleftrightarrow> c \<in> {CHR '' '', CHR 0x09, CHR 0x0A, CHR 0x0B, CHR 0x0C, CHR 0x0D}"

definition trim :: "string \<Rightarrow> string" where
  "trim s = rev (dropWhile is_space (rev (dropWhile is_space s)))"

fun components :: "string \<Rightarrow> string \<Rightarrow> string list" where
  "components acc [] = [rev acc]"
| "components acc (c # cs) =
     (if c = CHR ''/'' then rev acc # components [] cs else components (c # acc) cs)"

text \<open>The last normal component; none if the path is empty, a root or ends in \<open>..\<close>.\<close>

definition file_name :: "string \<Rightarrow> string option" where
  "file_name p =
     (let cs = filter (\<lambda>c. c \<noteq> [] \<and> c \<noteq> ''.'') (components [] p)
      in if cs = [] \<or> last cs = ''..'' then None else Some (last cs))"

definition has_nul :: "string \<Rightarrow> bool" where
  "has_nul p \<longleftrightarrow> CHR 0x00 \<in> set p"

end
