(* ===== verification/Engine_Config.thy ===== *)
theory Engine_Config
  imports Fmt Pool
begin

text \<open>
  The configuration of the engine and its validation (\<open>src/src/engine/config.rs\<close>). Sizes are
  \<open>usize\<close>, so the conversion from megabytes to bytes wraps in a release build.
\<close>

section \<open>State and operations\<close>

definition DEFAULT_CACHE_SIZE_MB :: usize where "DEFAULT_CACHE_SIZE_MB = 256"
definition DEFAULT_BLOCK_SIZE :: usize where "DEFAULT_BLOCK_SIZE = 4096"
definition DEFAULT_FLUSH_INTERVAL_SECS :: u64 where "DEFAULT_FLUSH_INTERVAL_SECS = 5"
definition DEFAULT_DIRTY_WATERMARK :: f64 where "DEFAULT_DIRTY_WATERMARK = Fin (3 / 4)"

record cache_config =
  cfg_device_path :: string
  cfg_cache_size_mb :: usize
  cfg_block_size :: usize
  cfg_flush_interval_secs :: u64
  cfg_dirty_watermark :: f64
  cfg_read_only :: bool

definition config_new :: "string \<Rightarrow> cache_config" where
  "config_new device_path =
     \<lparr>cfg_device_path = device_path, cfg_cache_size_mb = DEFAULT_CACHE_SIZE_MB,
      cfg_block_size = DEFAULT_BLOCK_SIZE, cfg_flush_interval_secs = DEFAULT_FLUSH_INTERVAL_SECS,
      cfg_dirty_watermark = DEFAULT_DIRTY_WATERMARK, cfg_read_only = False\<rparr>"

definition cache_size_bytes :: "cache_config \<Rightarrow> usize" where
  "cache_size_bytes cfg = cfg_cache_size_mb cfg * 1024 * 1024"

definition block_count :: "cache_config \<Rightarrow> usize" where
  "block_count cfg = cache_size_bytes cfg div cfg_block_size cfg"

definition validate :: "cache_config \<Rightarrow> unit cache_result" where
  "validate cfg =
     (if cfg_device_path cfg = [] then Inl (config_err ''device_path must not be empty'')
      else if cfg_cache_size_mb cfg = 0 then Inl (config_err ''cache_size_mb must be > 0'')
      else if cfg_block_size cfg = 0 \<or> \<not> is_multiple_of (cfg_block_size cfg) PAGE_ALIGNMENT then
        Inl (config_err (''block_size ('' @ show_word (cfg_block_size cfg) @
          '') must be a non-zero multiple of '' @ show_word PAGE_ALIGNMENT))
      else if \<not> is_multiple_of (cache_size_bytes cfg) (cfg_block_size cfg) then
        Inl (config_err (''cache_size ('' @ show_word (cfg_cache_size_mb cfg) @ '' MiB = '' @
          show_word (cache_size_bytes cfg) @ '' bytes) must be a multiple of block_size ('' @
          show_word (cfg_block_size cfg) @ '')''))
      else if \<not> in_unit_range (cfg_dirty_watermark cfg) then
        Inl (config_err (''dirty_watermark ('' @ f64_display (cfg_dirty_watermark cfg) @
          '') must be in [0.0, 1.0]''))
      else if cfg_flush_interval_secs cfg = 0 then
        Inl (config_err ''flush_interval_secs must be > 0'')
      else Inr ())"

definition config_display :: "cache_config \<Rightarrow> string" where
  "config_display cfg =
     ''CacheConfig {'' @ [CHR 0x0A] @ ''  device:     '' @ cfg_device_path cfg @ [CHR 0x0A] @
     ''  cache:      '' @ show_word (cfg_cache_size_mb cfg) @ '' MiB ('' @
     show_word (block_count cfg) @ '' blocks '' @ [CHR 0xC3, CHR 0x97] @ '' '' @
     show_word (cfg_block_size cfg) @ '' B)'' @ [CHR 0x0A] @
     ''  flush:      every '' @ show_word (cfg_flush_interval_secs cfg) @ '' s (watermark '' @
     f64_fixed 0 (f64_scale (cfg_dirty_watermark cfg) 100) @ ''%)'' @ [CHR 0x0A] @
     ''  read_only:  '' @ show_bool (cfg_read_only cfg) @ [CHR 0x0A] @ ''}''"

section \<open>Facts\<close>

lemma cache_size_exact:
  assumes "unat (cfg_cache_size_mb cfg) < 2 ^ 44"
  shows "unat (cache_size_bytes cfg) = unat (cfg_cache_size_mb cfg) * 1048576"
proof -
  have "cache_size_bytes cfg = cfg_cache_size_mb cfg * 1048576"
    by (simp add: cache_size_bytes_def mult.assoc)
  moreover have "unat (cfg_cache_size_mb cfg) * unat (1048576 :: usize) < 2 ^ 64"
    using assms by simp
  ultimately show ?thesis using unat_mult_no_wrap by simp
qed

lemma validate_Inr_iff:
  "validate cfg = Inr () \<longleftrightarrow>
     cfg_device_path cfg \<noteq> [] \<and> cfg_cache_size_mb cfg \<noteq> 0 \<and> cfg_block_size cfg \<noteq> 0 \<and>
     4096 dvd unat (cfg_block_size cfg) \<and> unat (cfg_block_size cfg) dvd unat (cache_size_bytes cfg) \<and>
     in_unit_range (cfg_dirty_watermark cfg) \<and> cfg_flush_interval_secs cfg \<noteq> 0"
  by (auto simp: validate_def PAGE_ALIGNMENT_def is_multiple_of_dvd)

lemma validate_error: "validate cfg = Inl e \<Longrightarrow> \<exists>msg. e = Config msg"
  by (auto simp: validate_def config_err_def split: if_splits)

section \<open>Properties\<close>

text \<open>
  C33. Validation accepts exactly the configurations with a path, a non-zero cache size, a
  block size that is a non-zero multiple of 4096 and divides the cache size in bytes, a
  watermark between 0 and 1 and a non-zero interval; every refusal is a configuration error.
  For sizes below \<open>2 ^ 44\<close> MiB, where the byte count does not wrap, an accepted configuration
  is one the memory pool accepts too, with \<open>block_count\<close> blocks that fill the cache exactly,
  and one the flush schedule accepts.
\<close>

theorem validate_spec:
  fixes E :: "'w env"
  assumes "unat (cfg_cache_size_mb cfg) < 2 ^ 44"
  shows "(validate cfg = Inr () \<longleftrightarrow>
      cfg_device_path cfg \<noteq> [] \<and> 0 < unat (cfg_cache_size_mb cfg) \<and> 0 < unat (cfg_block_size cfg) \<and>
      4096 dvd unat (cfg_block_size cfg) \<and> unat (cfg_block_size cfg) dvd unat (cfg_cache_size_mb cfg) * 1048576 \<and>
      in_unit_range (cfg_dirty_watermark cfg) \<and> 0 < unat (cfg_flush_interval_secs cfg)) \<and>
    (\<forall>e. validate cfg = Inl e \<longrightarrow> get_error_code e = ''E0001'') \<and>
    (validate cfg = Inr () \<longrightarrow>
      unat (block_count cfg) * unat (cfg_block_size cfg) = unat (cfg_cache_size_mb cfg) * 1048576 \<and>
      0 < block_count cfg \<and>
      flush_schedule_new (cfg_flush_interval_secs cfg) (cfg_dirty_watermark cfg) \<noteq> None \<and>
      (\<forall>w m e. fst (pool_new E (cache_size_bytes cfg) (cfg_block_size cfg) w m) = Inl e \<longrightarrow>
         get_error_code e \<noteq> ''E0001''))"
proof (intro conjI impI allI)
  show "validate cfg = Inr () \<longleftrightarrow>
      cfg_device_path cfg \<noteq> [] \<and> 0 < unat (cfg_cache_size_mb cfg) \<and> 0 < unat (cfg_block_size cfg) \<and>
      4096 dvd unat (cfg_block_size cfg) \<and> unat (cfg_block_size cfg) dvd unat (cfg_cache_size_mb cfg) * 1048576 \<and>
      in_unit_range (cfg_dirty_watermark cfg) \<and> 0 < unat (cfg_flush_interval_secs cfg)"
    unfolding validate_Inr_iff cache_size_exact [OF assms] by (simp add: unat_gt_0)
  show "get_error_code e = ''E0001''" if "validate cfg = Inl e" for e using validate_error [OF that] by auto
  assume ok: "validate cfg = Inr ()"
  note v = ok [unfolded validate_Inr_iff]
  show div: "unat (block_count cfg) * unat (cfg_block_size cfg) = unat (cfg_cache_size_mb cfg) * 1048576"
    using v by (simp add: block_count_def unat_div cache_size_exact [OF assms])
  have pos: "0 < unat (cfg_cache_size_mb cfg)" using v by (simp add: unat_gt_0)
  with div have "block_count cfg \<noteq> 0" by (metis mult_is_0 nat_neq_iff unat_0 zero_neq_numeral)
  then show "0 < block_count cfg" by (simp add: word_neq_0_conv)
  show "flush_schedule_new (cfg_flush_interval_secs cfg) (cfg_dirty_watermark cfg) \<noteq> None"
    using v by (simp add: flush_schedule_new_def)
  have "cache_size_bytes cfg \<noteq> 0"
    using cache_size_exact [OF assms] pos by (metis mult_is_0 nat_neq_iff unat_0 zero_neq_numeral)
  then show "get_error_code e \<noteq> ''E0001''"
    if "fst (pool_new E (cache_size_bytes cfg) (cfg_block_size cfg) w m) = Inl e" for w m e
    using that v
    by (auto simp: pool_new_def is_multiple_of_dvd PAGE_ALIGNMENT_def aligned_buffer_new_def Let_def
        split: prod.splits sum.splits if_splits)
qed

theorem validate_spec_witness:
  "validate (config_new ''/dev/sda'') = Inr () \<and>
   unat (block_count (config_new ''/dev/sda'')) * 4096 = 256 * 1048576"
proof -
  have v: "validate (config_new ''/dev/sda'') = Inr ()"
    by (simp add: validate_Inr_iff config_new_def cache_size_bytes_def DEFAULT_CACHE_SIZE_MB_def
        DEFAULT_BLOCK_SIZE_def DEFAULT_FLUSH_INTERVAL_SECS_def DEFAULT_DIRTY_WATERMARK_def)
  have f: "cfg_cache_size_mb (config_new ''/dev/sda'') = 256" "cfg_block_size (config_new ''/dev/sda'') = 4096"
    by (simp_all add: config_new_def DEFAULT_CACHE_SIZE_MB_def DEFAULT_BLOCK_SIZE_def)
  show ?thesis
    using validate_spec [where cfg = "config_new ''/dev/sda''" and E = sim_env] by (simp add: v f)
qed

text \<open>
  The byte count wraps: a configuration that asks for \<open>2 ^ 44 + 1\<close> MiB is valid and
  builds a cache of 256 blocks (one MiB), and one that asks for \<open>2 ^ 44\<close> MiB is valid
  although the pool then refuses its size of zero.
\<close>

theorem cache_size_wraps:
  "validate ((config_new ''/dev/sda'')\<lparr>cfg_cache_size_mb := 2 ^ 44 + 1\<rparr>) = Inr () \<and>
   block_count ((config_new ''/dev/sda'')\<lparr>cfg_cache_size_mb := 2 ^ 44 + 1\<rparr>) = 256 \<and>
   validate ((config_new ''/dev/sda'')\<lparr>cfg_cache_size_mb := 2 ^ 44\<rparr>) = Inr () \<and>
   isl (fst (pool_new E (cache_size_bytes ((config_new ''/dev/sda'')\<lparr>cfg_cache_size_mb := 2 ^ 44\<rparr>)) 4096 w m))"
  by (simp add: validate_Inr_iff config_new_def cache_size_bytes_def block_count_def DEFAULT_BLOCK_SIZE_def
      DEFAULT_FLUSH_INTERVAL_SECS_def DEFAULT_DIRTY_WATERMARK_def pool_new_def PAGE_ALIGNMENT_def
      is_multiple_of_dvd)

end
