(* ===== verification/Device.thy ===== *)
theory Device
  imports Fmt
begin

text \<open>
  The block device: querying its metadata (\<open>src/src/io/device_info.rs\<close>) and opening and
  closing it (\<open>src/src/io/device.rs\<close>).
\<close>

section \<open>Metadata\<close>

record device_info =
  di_path :: string
  di_total_bytes :: u64
  di_sector_size :: u64
  di_sector_count :: u64
  di_model :: string

definition open_readonly :: "'w env \<Rightarrow> string \<Rightarrow> 'w \<Rightarrow> i32 cache_result \<times> 'w" where
  "open_readonly E path w =
     (if has_nul path then (Inl (config_err (''path contains null byte: '' @ path)), w)
      else case env_open E path O_RDONLY_plain w of
        (Inl e, w') \<Rightarrow> (Inl (io_err ''open (read-only)'' e), w')
      | (Inr fd, w') \<Rightarrow> (Inr fd, w'))"

definition close_fd :: "'w env \<Rightarrow> i32 \<Rightarrow> 'w \<Rightarrow> 'w" where
  "close_fd E fd w = env_close E fd w"

definition ioctl_get_size :: "'w env \<Rightarrow> i32 \<Rightarrow> 'w \<Rightarrow> u64 cache_result" where
  "ioctl_get_size E fd w =
     (case env_blkgetsize64 E fd w of
        Inl e \<Rightarrow> Inl (io_err ''ioctl BLKGETSIZE64'' e) | Inr sz \<Rightarrow> Inr sz)"

text \<open>The \<open>c_int\<close> the kernel fills in is sign-extended to 64 bits.\<close>

definition ioctl_get_sector_size :: "'w env \<Rightarrow> i32 \<Rightarrow> 'w \<Rightarrow> u64 cache_result" where
  "ioctl_get_sector_size E fd w =
     (case env_blksszget E fd w of
        Inl e \<Rightarrow> Inl (io_err ''ioctl BLKSSZGET'' e) | Inr ss \<Rightarrow> Inr (scast ss))"

definition read_device_model :: "'w env \<Rightarrow> string \<Rightarrow> 'w \<Rightarrow> string" where
  "read_device_model E path w =
     (case file_name path of
        None \<Rightarrow> ''unknown''
      | Some dev_name \<Rightarrow>
          (case env_read_to_string E (''/sys/block/'' @ dev_name @ ''/device/model'') w of
             Inl _ \<Rightarrow> ''unknown'' | Inr s \<Rightarrow> trim s))"

definition query :: "'w env \<Rightarrow> string \<Rightarrow> 'w \<Rightarrow> device_info cache_result \<times> 'w" where
  "query E path w =
     (if \<not> env_exists E path w then (Inl (DeviceNotFound path), w)
      else case env_metadata E path w of
        Inl e \<Rightarrow> (Inl (io_err ''stat'' e), w)
      | Inr is_block_device \<Rightarrow>
          if \<not> is_block_device then (Inl (NotBlockDevice path), w)
          else case open_readonly E path w of
            (Inl e, w1) \<Rightarrow> (Inl e, w1)
          | (Inr fd, w1) \<Rightarrow>
              (case ioctl_get_size E fd w1 of
                 Inl e \<Rightarrow> (Inl e, w1)
               | Inr total_bytes \<Rightarrow>
                   (case ioctl_get_sector_size E fd w1 of
                      Inl e \<Rightarrow> (Inl e, w1)
                    | Inr sector_size \<Rightarrow>
                        (let w2 = close_fd E fd w1
                         in (Inr \<lparr>di_path = path, di_total_bytes = total_bytes, di_sector_size = sector_size,
                               di_sector_count = (if sector_size = 0 then 0 else total_bytes div sector_size),
                               di_model = read_device_model E path w2\<rparr>, w2)))))"

definition max_lba :: "device_info \<Rightarrow> u64 \<Rightarrow> u64" where
  "max_lba info block_size = (if block_size = 0 then 0 else di_total_bytes info div block_size)"

definition device_info_display :: "device_info \<Rightarrow> string" where
  "device_info_display info =
     (let size_gib = round53 (usize_as_f64 (di_total_bytes info) / 1073741824)
      in ''Device: '' @ di_path info @ [CHR 0x0A] @
         ''  Model:       '' @ di_model info @ [CHR 0x0A] @
         ''  Size:        '' @ show_fixed 2 size_gib @ '' GiB ('' @ show_word (di_total_bytes info) @ '' bytes)'' @
         [CHR 0x0A] @ ''  Sector size: '' @ show_word (di_sector_size info) @ '' bytes'' @ [CHR 0x0A] @
         ''  Sectors:     '' @ show_word (di_sector_count info))"

section \<open>The handle\<close>

record block_device =
  bd_fd :: i32
  bd_path :: string
  bd_info :: device_info

definition device_open :: "'w env \<Rightarrow> string \<Rightarrow> bool \<Rightarrow> 'w \<Rightarrow> block_device cache_result \<times> 'w" where
  "device_open E path read_only w =
     (case query E path w of
        (Inl e, w1) \<Rightarrow> (Inl e, w1)
      | (Inr info, w1) \<Rightarrow>
          (let flags = (if read_only then O_RDONLY_DIRECT else O_RDWR_DIRECT)
           in if has_nul path then (Inl (config_err (''device path contains null byte: '' @ path)), w1)
              else case env_open E path flags w1 of
                (Inl e, w2) \<Rightarrow> (Inl (io_err ''open (O_DIRECT)'' e), w2)
              | (Inr fd, w2) \<Rightarrow> (Inr \<lparr>bd_fd = fd, bd_path = path, bd_info = info\<rparr>, w2)))"

definition device_get_fd :: "block_device \<Rightarrow> i32" where
  "device_get_fd dev = bd_fd dev"

definition device_get_info :: "block_device \<Rightarrow> device_info" where
  "device_get_info dev = bd_info dev"

definition device_get_path :: "block_device \<Rightarrow> string" where
  "device_get_path dev = bd_path dev"

definition device_drop :: "'w env \<Rightarrow> block_device \<Rightarrow> 'w \<Rightarrow> 'w" where
  "device_drop E dev w = (if 0 \<le> sint (bd_fd dev) then env_close E (bd_fd dev) w else w)"

section \<open>Facts\<close>

lemma max_lba_bound:
  assumes "lba < max_lba info bs"
  shows "unat lba * unat bs + unat bs \<le> unat (di_total_bytes info)" "bs \<noteq> 0"
proof -
  show "bs \<noteq> 0" using assms by (auto simp: max_lba_def)
  then have "Suc (unat lba) \<le> unat (di_total_bytes info) div unat bs"
    using assms by (simp add: max_lba_def word_less_nat_alt unat_div)
  then have "Suc (unat lba) * unat bs \<le> unat (di_total_bytes info) div unat bs * unat bs"
    by (rule mult_le_mono1)
  also have "\<dots> \<le> unat (di_total_bytes info)" by (rule div_times_less_eq_dividend)
  finally show "unat lba * unat bs + unat bs \<le> unat (di_total_bytes info)" by simp
qed

text \<open>The descriptor \<open>query\<close> opens, and whether both size queries answer on it.\<close>

definition query_opens :: "'w env \<Rightarrow> string \<Rightarrow> 'w \<Rightarrow> i32 \<Rightarrow> 'w \<Rightarrow> bool" where
  "query_opens E path w fd w1 \<longleftrightarrow> env_exists E path w \<and> env_metadata E path w = Inr True \<and>
     \<not> has_nul path \<and> env_open E path O_RDONLY_plain w = (Inr fd, w1)"

definition ioctls_answer :: "'w env \<Rightarrow> i32 \<Rightarrow> 'w \<Rightarrow> bool" where
  "ioctls_answer E fd w \<longleftrightarrow> \<not> isl (env_blkgetsize64 E fd w) \<and> \<not> isl (env_blksszget E fd w)"

lemma query_cases:
  assumes "fd_ok E opened"
  obtains (refused) e w' where "query E path w = (Inl e, w')" "\<nexists>fd w1. query_opens E path w fd w1"
      "opened w' = opened w"
  | (failed) fd w1 e where "query_opens E path w fd w1" "\<not> ioctls_answer E fd w1"
      "query E path w = (Inl e, w1)" "opened w1 = insert fd (opened w)" "fd \<notin> opened w"
  | (answered) fd w1 info where "query_opens E path w fd w1" "ioctls_answer E fd w1"
      "query E path w = (Inr info, env_close E fd w1)" "di_path info = path"
      "env_blkgetsize64 E fd w1 = Inr (di_total_bytes info)"
      "opened (env_close E fd w1) = opened w"
proof (cases "\<exists>fd w1. query_opens E path w fd w1")
  case True
  then obtain fd w1 where q: "query_opens E path w fd w1" by blast
  then have fd: "fd \<notin> opened w" "opened w1 = insert fd (opened w)"
    using fd_okD(1) [OF assms, of path O_RDONLY_plain w fd w1] by (simp_all add: query_opens_def)
  then have cl: "opened (env_close E fd w1) = opened w" by (simp add: fd_okD(3) [OF assms])
  show ?thesis
  proof (cases "ioctls_answer E fd w1")
    case True
    then obtain tb ss where io: "env_blkgetsize64 E fd w1 = Inr tb" "env_blksszget E fd w1 = Inr ss"
      by (cases "env_blkgetsize64 E fd w1"; cases "env_blksszget E fd w1") (auto simp: ioctls_answer_def)
    then obtain info where "query E path w = (Inr info, env_close E fd w1)"
      "di_path info = path" "di_total_bytes info = tb"
      using q by (auto simp: query_def query_opens_def open_readonly_def ioctl_get_size_def
          ioctl_get_sector_size_def close_fd_def Let_def)
    then show ?thesis using answered [OF q True] io(1) cl by simp
  next
    case False
    then have "\<exists>e. query E path w = (Inl e, w1)"
      using q by (cases "env_blkgetsize64 E fd w1"; cases "env_blksszget E fd w1")
        (auto simp: query_def query_opens_def ioctls_answer_def open_readonly_def
          ioctl_get_size_def ioctl_get_sector_size_def)
    then obtain e where "query E path w = (Inl e, w1)" by blast
    then show ?thesis by (rule failed [OF q False _ fd(2,1)])
  qed
next
  case False
  obtain r w' where run: "query E path w = (r, w')" by fastforce
  have "isl r \<and> opened w' = opened w"
    using run False
    by (auto simp: query_def query_opens_def open_readonly_def fd_okD(2) [OF assms]
        split: if_splits sum.splits prod.splits)
  then show ?thesis using refused False run by (cases r) auto
qed

section \<open>Properties\<close>

text \<open>
  C35. The account of descriptors of opening a device. On success the query's own descriptor has
  been closed again and exactly one new one is held, opened by path with direct transfers and
  for writing exactly if the caller did not ask for a read-only device; the metadata carry the
  size the kernel reported. On an error no new descriptor is held, except that a query whose
  size requests fail leaves its descriptor open: the error is returned before it is closed.
\<close>

theorem device_open_spec:
  assumes "fd_ok E opened"
  shows "case device_open E path ro w of
      (Inr dev, w') \<Rightarrow>
        bd_fd dev \<notin> opened w \<and> opened w' = insert (bd_fd dev) (opened w) \<and>
        bd_path dev = path \<and> di_path (bd_info dev) = path \<and>
        (\<exists>fd w1. query_opens E path w fd w1 \<and> env_blkgetsize64 E fd w1 = Inr (di_total_bytes (bd_info dev)) \<and>
           env_open E path (if ro then O_RDONLY_DIRECT else O_RDWR_DIRECT) (env_close E fd w1) = (Inr (bd_fd dev), w'))
    | (Inl e, w') \<Rightarrow>
        if \<exists>fd w1. query_opens E path w fd w1 \<and> \<not> ioctls_answer E fd w1
        then \<exists>fd. fd \<notin> opened w \<and> opened w' = insert fd (opened w) \<and> (\<exists>w1. query_opens E path w fd w1)
        else opened w' = opened w"
  using assms
proof (cases rule: query_cases [of E opened path w])
  case (refused e w')
  then show ?thesis by (simp add: device_open_def)
next
  case (failed fd w1 e)
  then show ?thesis unfolding device_open_def by (simp (no_asm_simp)) blast
next
  case (answered fd w1 info)
  obtain r w2 where op: "env_open E path (if ro then O_RDONLY_DIRECT else O_RDWR_DIRECT) (env_close E fd w1) = (r, w2)"
    by fastforce
  have nul: "\<not> has_nul path" using answered(1) by (simp add: query_opens_def)
  have no_leak: "\<not> (\<exists>fd w1. query_opens E path w fd w1 \<and> \<not> ioctls_answer E fd w1)"
    using answered(1,2) by (auto simp: query_opens_def)
  show ?thesis
  proof (cases r)
    case (Inl e)
    then show ?thesis
      using answered(3,6) op nul no_leak fd_okD(2) [OF assms op [unfolded Inl]]
      by (simp add: device_open_def Let_def del: not_ex de_Morgan_conj)
  next
    case (Inr fd2)
    then have dev: "device_open E path ro w = (Inr \<lparr>bd_fd = fd2, bd_path = path, bd_info = info\<rparr>, w2)"
      using answered(3) op nul by (simp add: device_open_def Let_def)
    moreover have "fd2 \<notin> opened w" "opened w2 = insert fd2 (opened w)"
      using fd_okD(1) [OF assms op [unfolded Inr]] answered(6) by simp_all
    ultimately show ?thesis
      using answered(1,4,5) op [unfolded Inr] by (cases ro) (auto simp: dev)
  qed
qed

theorem device_open_spec_witness:
  "(case device_open sim_env ''/dev/sdb'' False (sim_init\<lparr>sim_closed := [3]\<rparr>) of
      (Inr dev, w') \<Rightarrow> sim_opened w' = {bd_fd dev} | (Inl e, w') \<Rightarrow> sim_opened w' = {}) \<and>
   (case device_open (sim_env\<lparr>env_blksszget := \<lambda>fd w. Inl eio\<rparr>) ''/dev/sdb'' False (sim_init\<lparr>sim_closed := [3]\<rparr>) of
      (Inr dev, w') \<Rightarrow> False | (Inl e, w') \<Rightarrow> sim_opened w' = {3})"
proof
  let ?E = "sim_env\<lparr>env_blksszget := \<lambda>fd w. Inl eio\<rparr>" and ?w = "sim_init\<lparr>sim_closed := [3]\<rparr>"
  have o: "sim_opened ?w = {}" by (simp add: sim_opened_def)
  have "ioctls_answer sim_env fd w" for fd w by (simp add: ioctls_answer_def sim_env_def)
  then show "case device_open sim_env ''/dev/sdb'' False ?w of
      (Inr dev, w') \<Rightarrow> sim_opened w' = {bd_fd dev} | (Inl e, w') \<Rightarrow> sim_opened w' = {}"
    using device_open_spec [OF sim_fd_ok, where path = "''/dev/sdb''" and ro = False and w = ?w]
    by (auto simp: o split: prod.splits sum.splits)
  have ok: "fd_ok ?E sim_opened" using sim_fd_ok by (simp add: fd_ok_def)
  have q: "query_opens ?E ''/dev/sdb'' ?w fd w1 \<longleftrightarrow> fd = 3 \<and> w1 = ?w\<lparr>sim_closed := []\<rparr>" for fd w1
    by (auto simp: query_opens_def sim_defs has_nul_def)
  have n: "\<not> ioctls_answer ?E fd w" for fd w by (simp add: ioctls_answer_def)
  obtain e w' where d: "device_open ?E ''/dev/sdb'' False ?w = (Inl e, w')"
    by (simp add: device_open_def query_def open_readonly_def ioctl_get_size_def ioctl_get_sector_size_def sim_defs has_nul_def)
  have "sim_opened w' = {3}"
    using device_open_spec [OF ok, where path = "''/dev/sdb''" and ro = False and w = ?w]
    unfolding d q o by (simp add: n)
  then show "case device_open ?E ''/dev/sdb'' False ?w of (Inr dev, w') \<Rightarrow> False | (Inl e, w') \<Rightarrow> sim_opened w' = {3}"
    by (simp add: d)
qed

end
