(* ===== verification/Engine.thy ===== *)
theory Engine
  imports Flusher Engine_Config Device
begin

text \<open>
  The cache engine (\<open>src/src/engine/cache_engine.rs\<close>), which owns the configuration, the
  device handle, the pool, the table and the flusher and is the only interface the command
  line and the benchmarks use. Its abstract specification is a store of blocks with a read
  and a write operation: the locale \<open>block_store\<close>, interpreted on the engine's operations.
\<close>

section \<open>State and operations\<close>

text \<open>\<open>eg_state\<close> holds the pool and the table (the engine's \<open>Arc\<close>s), memory and the world.\<close>

record 'w engine =
  eg_config :: cache_config
  eg_device :: block_device
  eg_flusher :: "background_flusher option"
  eg_flush_schedule :: flush_schedule
  eg_state :: "'w cache_state"

text \<open>\<open>None\<close> is the panic of the assertion in \<open>FlushSchedule::new\<close>.\<close>

definition engine_new ::
  "'w env \<Rightarrow> cache_config \<Rightarrow> 'w \<Rightarrow> store \<Rightarrow> ((cache_error \<times> 'w \<times> store) + 'w engine) option" where
  "engine_new E config w m =
     (case validate config of
        Inl e \<Rightarrow> Some (Inl (e, w, m))
      | Inr _ \<Rightarrow>
          (case pool_new E (cache_size_bytes config) (cfg_block_size config) w m of
             (Inl e, w1, m1) \<Rightarrow> Some (Inl (e, w1, m1))
           | (Inr pool, w1, m1) \<Rightarrow>
               (case device_open E (cfg_device_path config) (cfg_read_only config) w1 of
                  (Inl e, w2) \<Rightarrow> Some (Inl (e, w2, m1))
                | (Inr device, w2) \<Rightarrow>
                    (let table = table_new (block_count config)
                     in case flush_schedule_new (cfg_flush_interval_secs config) (cfg_dirty_watermark config) of
                          None \<Rightarrow> None
                        | Some schedule \<Rightarrow>
                            Some (Inr \<lparr>eg_config = config, eg_device = device, eg_flusher = None,
                              eg_flush_schedule = schedule,
                              eg_state = \<lparr>cs_world = w2, cs_mem = m1, cs_pool = pool, cs_table = table\<rparr>\<rparr>)))))"

definition engine_start :: "'w env \<Rightarrow> 'w engine \<Rightarrow> 'w engine" where
  "engine_start E eg =
     (if eg_flusher eg \<noteq> None then eg
      else if cfg_read_only (eg_config eg) then eg
      else
        (case flusher_spawn E (bd_fd (eg_device eg)) (cfg_block_size (eg_config eg)) (eg_flush_schedule eg)
                (cs_world (eg_state eg)) of
           (flusher, w) \<Rightarrow>
             eg\<lparr>eg_flusher := Some flusher, eg_state := (eg_state eg)\<lparr>cs_world := w\<rparr>\<rparr>))"

definition engine_stop ::
  "'w env \<Rightarrow> bool \<Rightarrow> 'w engine \<Rightarrow> (unit cache_result \<times> 'w engine) option" where
  "engine_stop E panicked eg =
     (case eg_flusher eg of
        None \<Rightarrow> Some (Inr (), eg)
      | Some flusher \<Rightarrow>
          (case flusher_shutdown E panicked flusher (eg_state eg) of
             None \<Rightarrow> None
           | Some (Inl e, flusher', s) \<Rightarrow> Some (Inl e, eg\<lparr>eg_flusher := Some flusher', eg_state := s\<rparr>)
           | Some (Inr _, flusher', s) \<Rightarrow> Some (Inr (), eg\<lparr>eg_flusher := None, eg_state := s\<rparr>)))"

definition validate_lba :: "'w engine \<Rightarrow> u64 \<Rightarrow> unit cache_result" where
  "validate_lba eg lba =
     (let m = max_lba (bd_info (eg_device eg)) (cfg_block_size (eg_config eg))
      in if m \<le> lba then Inl (LbaOutOfRange lba m) else Inr ())"

text \<open>Without a flusher each operation makes a channel of its own whose receiver is dropped.\<close>

definition flush_notifier_or_noop :: "'w env \<Rightarrow> 'w engine \<Rightarrow> nat \<times> 'w engine" where
  "flush_notifier_or_noop E eg =
     (case eg_flusher eg of
        Some flusher \<Rightarrow> (flusher_notifier flusher, eg)
      | None \<Rightarrow>
          (case flush_channel E (cs_world (eg_state eg)) of
             (link, w) \<Rightarrow> (fl_chan link, eg\<lparr>eg_state := (eg_state eg)\<lparr>cs_world := w\<rparr>\<rparr>)))"

definition engine_read ::
  "'w env \<Rightarrow> u64 \<Rightarrow> nat \<Rightarrow> 'w engine \<Rightarrow> read_result cache_result \<times> 'w engine" where
  "engine_read E lba buf eg =
     (case validate_lba eg lba of
        Inl e \<Rightarrow> (Inl e, eg)
      | Inr _ \<Rightarrow>
          (case flush_notifier_or_noop E eg of
             (notifier, eg') \<Rightarrow>
               (case cached_read E lba buf (bd_fd (eg_device eg')) notifier (eg_state eg') of
                  (r, s) \<Rightarrow> (r, eg'\<lparr>eg_state := s\<rparr>))))"

definition engine_write ::
  "'w env \<Rightarrow> u64 \<Rightarrow> nat \<Rightarrow> 'w engine \<Rightarrow> (write_result cache_result \<times> 'w engine) option" where
  "engine_write E lba buf eg =
     (case validate_lba eg lba of
        Inl e \<Rightarrow> Some (Inl e, eg)
      | Inr _ \<Rightarrow>
          (case flush_notifier_or_noop E eg of
             (notifier, eg') \<Rightarrow>
               (case cached_write E lba buf (bd_fd (eg_device eg')) notifier (eg_flush_schedule eg')
                       (cfg_read_only (eg_config eg')) (eg_state eg') of
                  None \<Rightarrow> None
                | Some (r, s) \<Rightarrow> Some (r, eg'\<lparr>eg_state := s\<rparr>))))"

text \<open>
  The drop glue: fields are dropped in the order they are declared, so the device is closed
  before the flusher (which keeps the pool and the table alive) is.
\<close>

definition engine_drop :: "'w env \<Rightarrow> bool \<Rightarrow> 'w engine \<Rightarrow> 'w cache_state option" where
  "engine_drop E panicked eg =
     (let s = (eg_state eg)\<lparr>cs_world := device_drop E (eg_device eg) (cs_world (eg_state eg))\<rparr>
      in case eg_flusher eg of None \<Rightarrow> Some s | Some flusher \<Rightarrow> flusher_drop E panicked flusher s)"

text \<open>The accessors. The table and the pool are shared with the flush thread.\<close>

definition engine_config :: "'w engine \<Rightarrow> cache_config" where
  "engine_config eg = eg_config eg"

definition engine_device :: "'w engine \<Rightarrow> block_device" where
  "engine_device eg = eg_device eg"

definition engine_pool :: "'w engine \<Rightarrow> memory_pool" where
  "engine_pool eg = cs_pool (eg_state eg)"

definition engine_table :: "'w engine \<Rightarrow> lba_table" where
  "engine_table eg = cs_table (eg_state eg)"

section \<open>The background iterations\<close>

text \<open>
  One iteration of the flush thread between two operations of the engine; nothing happens
  when there is no thread.
\<close>

definition engine_background :: "'w env \<Rightarrow> 'w engine \<Rightarrow> 'w engine" where
  "engine_background E eg =
     (case eg_flusher eg of
        None \<Rightarrow> eg
      | Some flusher \<Rightarrow>
          (case bf_handle flusher of
             None \<Rightarrow> eg
           | Some th \<Rightarrow>
               eg\<lparr>eg_state := snd (flush_iteration E (ft_fd th) (ft_block_size th) (ft_schedule th)
                  (bf_notifier flusher) (eg_state eg))\<rparr>))"

section \<open>Invariant\<close>

definition dev_bytes :: "'w engine \<Rightarrow> nat" where
  "dev_bytes eg = unat (di_total_bytes (bd_info (eg_device eg)))"

definition engine_view :: "'w disk_view \<Rightarrow> 'w engine \<Rightarrow> u64 \<Rightarrow> u8 list" where
  "engine_view disk eg = view disk (eg_state eg)"

definition engine_inv :: "'w env \<Rightarrow> 'w disk_view \<Rightarrow> 'w engine \<Rightarrow> bool" where
  "engine_inv E disk eg \<longleftrightarrow>
     env_ok E disk (bd_fd (eg_device eg)) \<and> cache_inv disk (eg_state eg) \<and>
     cfg_block_size (eg_config eg) = mp_block_size (cs_pool (eg_state eg)) \<and>
     dev_bytes eg < 2 ^ 63 \<and> on_device (dev_bytes eg) (eg_state eg) \<and>
     (\<forall>B th. eg_flusher eg = Some B \<longrightarrow> bf_handle B = Some th \<longrightarrow>
        ft_fd th = bd_fd (eg_device eg) \<and> ft_block_size th = cfg_block_size (eg_config eg))"

text \<open>What the operations keep of the engine.\<close>

definition same_setup :: "'w engine \<Rightarrow> 'w engine \<Rightarrow> bool" where
  "same_setup eg eg' \<longleftrightarrow> eg_config eg' = eg_config eg \<and> eg_device eg' = eg_device eg \<and>
     eg_flusher eg' = eg_flusher eg \<and> eg_flush_schedule eg' = eg_flush_schedule eg \<and>
     same_geometry (eg_state eg) (eg_state eg')"

lemma valid_lba_fits:
  assumes "engine_inv E disk eg" "validate_lba eg lba = Inr ()"
  shows "lba_fits (bsize (eg_state eg)) lba"
    "unat lba * bsize (eg_state eg) + bsize (eg_state eg) \<le> dev_bytes eg"
proof -
  have "lba < max_lba (bd_info (eg_device eg)) (mp_block_size (cs_pool (eg_state eg)))"
    using assms by (auto simp: engine_inv_def validate_lba_def Let_def not_le split: if_splits)
  from max_lba_bound(1) [OF this]
  show d: "unat lba * bsize (eg_state eg) + bsize (eg_state eg) \<le> dev_bytes eg"
    by (simp add: dev_bytes_def)
  then show "lba_fits (bsize (eg_state eg)) lba"
    using assms(1) by (simp add: lba_fits_def engine_inv_def)
qed

lemma grows_on_device:
  assumes "grows_by lba s s'" "on_device n s" "same_geometry s s'" "unat lba * bsize s + bsize s \<le> n"
  shows "on_device n s'"
proof -
  have "unat l * bsize s + bsize s \<le> n" if "cached s' l = Some e" for l e
    using that assms(1,2,4) unfolding grows_by_def on_device_def
    by (metis option.distinct(1) option.exhaust)
  then show ?thesis by (simp add: on_device_def same_geometryD [OF assms(3)])
qed

lemma engine_state_inv:
  assumes "engine_inv E disk eg" "cache_inv disk s'" "same_geometry (eg_state eg) s'"
    "on_device (dev_bytes eg) s'"
  shows "engine_inv E disk (eg\<lparr>eg_state := s'\<rparr>)"
  using assms same_geometryD(1) [OF assms(3)] by (simp add: engine_inv_def dev_bytes_def)

lemma notifier_step:
  assumes inv: "engine_inv E disk eg" and run: "flush_notifier_or_noop E eg = (chan, eg')"
  obtains w where "eg' = eg\<lparr>eg_state := (eg_state eg)\<lparr>cs_world := w\<rparr>\<rparr>" "disk w = disk (cs_world (eg_state eg))"
proof (cases "eg_flusher eg")
  case None
  have "quiet_ok E disk" using inv by (simp add: engine_inv_def env_ok_def)
  then have "disk (snd (env_bounded1 E (cs_world (eg_state eg)))) = disk (cs_world (eg_state eg))"
    by (rule quiet_okD)
  then show ?thesis
    using None run
    by (intro that [of "snd (env_bounded1 E (cs_world (eg_state eg)))"])
      (auto simp: flush_notifier_or_noop_def flush_channel_def case_prod_unfold)
next
  case (Some B)
  then show ?thesis
    using run by (intro that [of "cs_world (eg_state eg)"]) (simp_all add: flush_notifier_or_noop_def)
qed

section \<open>The operations on the invariant\<close>

lemma engine_read_run:
  assumes inv: "engine_inv E disk eg" and ok: "validate_lba eg lba = Inr ()"
    and run: "engine_read E lba ptr eg = (r, eg')"
  obtains chan w s' where "disk w = disk (cs_world (eg_state eg))"
    "cached_read E lba ptr (bd_fd (eg_device eg)) chan ((eg_state eg)\<lparr>cs_world := w\<rparr>) = (r, s')"
    "eg' = eg\<lparr>eg_state := s'\<rparr>"
proof -
  obtain chan eg1 where n: "flush_notifier_or_noop E eg = (chan, eg1)" by fastforce
  from notifier_step [OF inv n] obtain w where
    w: "eg1 = eg\<lparr>eg_state := (eg_state eg)\<lparr>cs_world := w\<rparr>\<rparr>" "disk w = disk (cs_world (eg_state eg))" .
  obtain r' s' where c: "cached_read E lba ptr (bd_fd (eg_device eg)) chan ((eg_state eg)\<lparr>cs_world := w\<rparr>) = (r', s')"
    by fastforce
  have "r' = r" "eg' = eg\<lparr>eg_state := s'\<rparr>"
    using run ok n w(1) c by (simp_all add: engine_read_def)
  with w c show ?thesis by (intro that) auto
qed

lemma engine_read_post:
  assumes inv: "engine_inv E disk eg" and buf: "user_buf_ok (eg_state eg) ptr"
    and run: "engine_read E lba ptr eg = (r, eg')"
  shows "engine_inv E disk eg'" "engine_view disk eg' = engine_view disk eg" "same_setup eg eg'"
    "mem_frame (eg_state eg) ptr (cs_mem (eg_state eg'))"
    "r = Inr v \<Longrightarrow> load_bytes (cs_mem (eg_state eg')) ptr (bsize (eg_state eg)) = engine_view disk eg lba \<and>
       validate_lba eg lba = Inr () \<and> rr_cache_hit v = table_contains (cs_table (eg_state eg)) lba \<and>
       (unaccounted n (eg_state eg) \<longrightarrow> unaccounted n (eg_state eg'))"
proof -
  have goals: "engine_inv E disk eg' \<and> engine_view disk eg' = engine_view disk eg \<and> same_setup eg eg' \<and>
    mem_frame (eg_state eg) ptr (cs_mem (eg_state eg')) \<and>
    (\<forall>v. r = Inr v \<longrightarrow> load_bytes (cs_mem (eg_state eg')) ptr (bsize (eg_state eg)) = engine_view disk eg lba \<and>
       validate_lba eg lba = Inr () \<and> rr_cache_hit v = table_contains (cs_table (eg_state eg)) lba \<and>
       (unaccounted n (eg_state eg) \<longrightarrow> unaccounted n (eg_state eg')))"
  proof (cases "validate_lba eg lba")
    case (Inl e)
    then show ?thesis using run inv by (auto simp: engine_read_def same_setup_def)
  next
    case (Inr u)
    then have ok: "validate_lba eg lba = Inr ()" by simp
    from engine_read_run [OF inv ok run] obtain chan w s' where w: "disk w = disk (cs_world (eg_state eg))"
      and c: "cached_read E lba ptr (bd_fd (eg_device eg)) chan ((eg_state eg)\<lparr>cs_world := w\<rparr>) = (r, s')"
      and eg': "eg' = eg\<lparr>eg_state := s'\<rparr>" .
    let ?s = "(eg_state eg)\<lparr>cs_world := w\<rparr>"
    have s: "cache_inv disk ?s" "view disk ?s = view disk (eg_state eg)"
      using world_change [OF w] inv by (simp_all add: engine_inv_def)
    have side: "env_ok E disk (bd_fd (eg_device eg))" "user_buf_ok ?s ptr" "lba_fits (bsize ?s) lba"
      using inv buf valid_lba_fits(1) [OF inv ok] by (simp_all add: engine_inv_def user_buf_ok_def)
    note post = cached_read_post [OF side(1) s(1) side(2,3) c, unfolded read_post_def]
    have geo: "same_geometry (eg_state eg) s'" "grows_by lba (eg_state eg) s'"
      using post by (simp_all add: same_geometry_def grows_by_def)
    have "on_device (dev_bytes eg) s'"
      using grows_on_device [OF geo(2) _ geo(1) valid_lba_fits(2) [OF inv ok]] inv by (simp add: engine_inv_def)
    with engine_state_inv [OF inv _ geo(1)] post have "engine_inv E disk eg'" by (simp add: eg')
    then show ?thesis
      using post geo s(2) ok
      by (auto simp: eg' engine_view_def same_setup_def mem_frame_def unaccounted_def table_contains_get)
  qed
  then show "engine_inv E disk eg'" "engine_view disk eg' = engine_view disk eg" "same_setup eg eg'"
    "mem_frame (eg_state eg) ptr (cs_mem (eg_state eg'))"
    "r = Inr v \<Longrightarrow> load_bytes (cs_mem (eg_state eg')) ptr (bsize (eg_state eg)) = engine_view disk eg lba \<and>
       validate_lba eg lba = Inr () \<and> rr_cache_hit v = table_contains (cs_table (eg_state eg)) lba \<and>
       (unaccounted n (eg_state eg) \<longrightarrow> unaccounted n (eg_state eg'))"
    by blast+
qed

text \<open>A write of an aligned buffer returns; it is an error exactly as \<open>cached_write\<close>'s is.\<close>

definition engine_write_post ::
  "'w env \<Rightarrow> 'w disk_view \<Rightarrow> 'w engine \<Rightarrow> u64 \<Rightarrow> nat \<Rightarrow> write_result cache_result \<Rightarrow> 'w engine \<Rightarrow> bool" where
  "engine_write_post E disk eg lba ptr r eg' \<longleftrightarrow>
     engine_inv E disk eg' \<and> same_setup eg eg' \<and>
     agree_outside (mp_base_ptr (cs_pool (eg_state eg))) (pool_size (cs_pool (eg_state eg)))
       (cs_mem (eg_state eg)) (cs_mem (eg_state eg')) \<and>
     (\<forall>n. unaccounted n (eg_state eg) \<longrightarrow> unaccounted n (eg_state eg')) \<and>
     (case r of
        Inl e \<Rightarrow> engine_view disk eg' = engine_view disk eg
      | Inr v \<Rightarrow> validate_lba eg lba = Inr () \<and> \<not> cfg_read_only (eg_config eg) \<and>
          engine_view disk eg' = (engine_view disk eg)
            (lba := load_bytes (cs_mem (eg_state eg)) ptr (bsize (eg_state eg))))"

lemma engine_write_quiet:
  assumes inv: "engine_inv E disk eg" and w: "disk w = disk (cs_world (eg_state eg))"
  shows "engine_write_post E disk eg lba ptr (Inl e) (eg\<lparr>eg_state := (eg_state eg)\<lparr>cs_world := w\<rparr>\<rparr>)"
proof -
  have "cache_inv disk ((eg_state eg)\<lparr>cs_world := w\<rparr>)" "view disk ((eg_state eg)\<lparr>cs_world := w\<rparr>) = view disk (eg_state eg)"
    using world_change [OF w] inv by (simp_all add: engine_inv_def)
  moreover have "on_device (dev_bytes eg) ((eg_state eg)\<lparr>cs_world := w\<rparr>)"
    using inv by (simp add: engine_inv_def on_device_def)
  ultimately show ?thesis
    using engine_state_inv [OF inv, of "(eg_state eg)\<lparr>cs_world := w\<rparr>"]
    by (simp add: engine_write_post_def same_setup_def engine_view_def unaccounted_def)
qed

lemma engine_write_accepted:
  assumes inv: "engine_inv E disk eg" and buf: "user_buf_ok (eg_state eg) ptr" "write_ptr_ok ptr"
    and ok: "validate_lba eg lba = Inr ()" and rw: "\<not> cfg_read_only (eg_config eg)"
    and w: "disk w = disk (cs_world (eg_state eg))"
  shows "\<exists>r s'. cached_write E lba ptr (bd_fd (eg_device eg)) chan (eg_flush_schedule eg) False
      ((eg_state eg)\<lparr>cs_world := w\<rparr>) = Some (r, s') \<and> engine_write_post E disk eg lba ptr r (eg\<lparr>eg_state := s'\<rparr>)"
proof -
  let ?s = "(eg_state eg)\<lparr>cs_world := w\<rparr>"
  have s: "cache_inv disk ?s" "view disk ?s = view disk (eg_state eg)"
    using world_change [OF w] inv by (simp_all add: engine_inv_def)
  have side: "env_ok E disk (bd_fd (eg_device eg))" "user_buf_ok ?s ptr" "lba_fits (bsize ?s) lba"
    using inv buf(1) valid_lba_fits(1) [OF inv ok] by (simp_all add: engine_inv_def user_buf_ok_def)
  from cached_write_post [OF side(1) s(1) side(2) buf(2) side(3), of chan "eg_flush_schedule eg"]
  obtain r s' where c: "cached_write E lba ptr (bd_fd (eg_device eg)) chan (eg_flush_schedule eg) False ?s = Some (r, s')"
    and post: "write_post disk ?s lba ptr r s'" by blast
  have geo: "same_geometry (eg_state eg) s'" "grows_by lba (eg_state eg) s'"
    using post by (simp_all add: write_post_def same_geometry_def grows_by_def)
  have "on_device (dev_bytes eg) s'"
    using grows_on_device [OF geo(2) _ geo(1) valid_lba_fits(2) [OF inv ok]] inv by (simp add: engine_inv_def)
  with engine_state_inv [OF inv _ geo(1)] post have "engine_inv E disk (eg\<lparr>eg_state := s'\<rparr>)"
    by (simp add: write_post_def)
  then have "engine_write_post E disk eg lba ptr r (eg\<lparr>eg_state := s'\<rparr>)"
    using post geo s(2) ok rw
    by (cases r) (auto simp: engine_write_post_def write_post_def engine_view_def same_setup_def unaccounted_def)
  with c show ?thesis by blast
qed

lemma engine_write_total:
  assumes inv: "engine_inv E disk eg" and buf: "user_buf_ok (eg_state eg) ptr" "write_ptr_ok ptr"
  shows "\<exists>r eg'. engine_write E lba ptr eg = Some (r, eg') \<and> engine_write_post E disk eg lba ptr r eg'"
proof (cases "validate_lba eg lba")
  case (Inl e)
  have "eg\<lparr>eg_state := (eg_state eg)\<lparr>cs_world := cs_world (eg_state eg)\<rparr>\<rparr> = eg" by simp
  then show ?thesis
    using Inl engine_write_quiet [OF inv refl, of lba ptr e] by (simp add: engine_write_def)
next
  case (Inr u)
  then have ok: "validate_lba eg lba = Inr ()" by simp
  obtain chan eg1 where n: "flush_notifier_or_noop E eg = (chan, eg1)" by fastforce
  from notifier_step [OF inv n] obtain w where
    w: "eg1 = eg\<lparr>eg_state := (eg_state eg)\<lparr>cs_world := w\<rparr>\<rparr>" "disk w = disk (cs_world (eg_state eg))" .
  show ?thesis
  proof (cases "cfg_read_only (eg_config eg)")
    case True
    then show ?thesis
      using ok n w(1) engine_write_quiet [OF inv w(2), of lba ptr]
      by (simp add: engine_write_def cached_write_def)
  next
    case False
    then show ?thesis
      using engine_write_accepted [OF inv buf ok False w(2), of chan] ok n w(1)
      by (auto simp: engine_write_def)
  qed
qed

lemma engine_background_post:
  assumes inv: "engine_inv E disk eg"
  shows "engine_inv E disk (engine_background E eg)"
    "engine_view disk (engine_background E eg) = engine_view disk eg"
    "same_setup eg (engine_background E eg)"
    "cs_mem (eg_state (engine_background E eg)) = cs_mem (eg_state eg)"
    "unaccounted n (eg_state (engine_background E eg)) = unaccounted n (eg_state eg)"
proof -
  let ?eg = "engine_background E eg"
  have "engine_inv E disk ?eg \<and> engine_view disk ?eg = engine_view disk eg \<and> same_setup eg ?eg \<and>
    cs_mem (eg_state ?eg) = cs_mem (eg_state eg) \<and> unaccounted n (eg_state ?eg) = unaccounted n (eg_state eg)"
  proof (cases "\<exists>B th. eg_flusher eg = Some B \<and> bf_handle B = Some th")
    case False
    then have "?eg = eg" by (auto simp: engine_background_def split: option.splits)
    then show ?thesis using inv by (simp add: same_setup_def)
  next
    case True
    then obtain B th where th: "eg_flusher eg = Some B" "bf_handle B = Some th" by blast
    then have ft: "ft_fd th = bd_fd (eg_device eg)" "ft_block_size th = mp_block_size (cs_pool (eg_state eg))"
      using inv by (simp_all add: engine_inv_def)
    obtain stop s' where it: "flush_iteration E (bd_fd (eg_device eg)) (mp_block_size (cs_pool (eg_state eg)))
        (ft_schedule th) (bf_notifier B) (eg_state eg) = (stop, s')" by fastforce
    have env: "env_ok E disk (bd_fd (eg_device eg))" "cache_inv disk (eg_state eg)" "on_device (dev_bytes eg) (eg_state eg)"
      using inv by (simp_all add: engine_inv_def)
    note p = flush_iteration_post [OF env(1,2) it]
    have eg: "?eg = eg\<lparr>eg_state := s'\<rparr>" using th ft it by (simp add: engine_background_def)
    have fl: "cs_pool s' = cs_pool (eg_state eg)" "cs_mem s' = cs_mem (eg_state eg)"
      using p(3) by (simp_all add: flushed_to_def)
    have "unaccounted n s' = unaccounted n (eg_state eg)"
      using flushed_to_unaccounted [OF p(3)] env(2) p(1) by (simp add: cache_inv_def)
    then show ?thesis
      using engine_state_inv [OF inv p(1) same_geometry_refl [OF fl(1)] flushed_to_on_device [OF p(3) env(3)]] p(2) fl
      by (simp add: eg same_setup_def engine_view_def)
  qed
  then show "engine_inv E disk ?eg" "engine_view disk ?eg = engine_view disk eg" "same_setup eg ?eg"
    "cs_mem (eg_state ?eg) = cs_mem (eg_state eg)" "unaccounted n (eg_state ?eg) = unaccounted n (eg_state eg)"
    by blast+
qed

section \<open>The abstract store\<close>

text \<open>
  What the engine promises: a store of blocks. Requests are answered in order; between them
  the store may do work of its own (\<open>Background\<close>) that no client can see.
\<close>

datatype ('k, 'v) request = Get 'k | Put 'k 'v | Background

datatype ('e, 'v) reply = Got "'e + 'v" | Stored "'e + unit" | Silent

fun run_store ::
  "('k \<Rightarrow> 's \<Rightarrow> ('e + 'v) \<times> 's) \<Rightarrow> ('k \<Rightarrow> 'v \<Rightarrow> 's \<Rightarrow> (('e + unit) \<times> 's) option) \<Rightarrow> ('s \<Rightarrow> 's) \<Rightarrow>
   ('k, 'v) request list \<Rightarrow> 's \<Rightarrow> (('e, 'v) reply list \<times> 's) option" where
  "run_store rd wr bg [] s = Some ([], s)"
| "run_store rd wr bg (Get k # qs) s =
     (case rd k s of (r, s') \<Rightarrow>
        map_option (\<lambda>(as, s''). (Got r # as, s'')) (run_store rd wr bg qs s'))"
| "run_store rd wr bg (Put k v # qs) s =
     (case wr k v s of
        None \<Rightarrow> None
      | Some (r, s') \<Rightarrow> map_option (\<lambda>(as, s''). (Stored r # as, s'')) (run_store rd wr bg qs s'))"
| "run_store rd wr bg (Background # qs) s =
     map_option (\<lambda>(as, s''). (Silent # as, s'')) (run_store rd wr bg qs (bg s))"

text \<open>
  The specification: replies are right for the requests if every successful read returns the
  value of the last successful write of its key before it, or the initial value; and the
  contents afterwards.
\<close>

fun replies_ok :: "('k, 'v) request list \<Rightarrow> ('e, 'v) reply list \<Rightarrow> ('k \<Rightarrow> 'v) \<Rightarrow> bool" where
  "replies_ok [] [] c \<longleftrightarrow> True"
| "replies_ok (Get k # qs) (Got r # as) c \<longleftrightarrow> (case r of Inl e \<Rightarrow> True | Inr v \<Rightarrow> v = c k) \<and> replies_ok qs as c"
| "replies_ok (Put k v # qs) (Stored r # as) c \<longleftrightarrow>
     replies_ok qs as (case r of Inl e \<Rightarrow> c | Inr _ \<Rightarrow> c(k := v))"
| "replies_ok (Background # qs) (Silent # as) c \<longleftrightarrow> replies_ok qs as c"
| "replies_ok _ _ c \<longleftrightarrow> False"

fun contents_after :: "('k, 'v) request list \<Rightarrow> ('e, 'v) reply list \<Rightarrow> ('k \<Rightarrow> 'v) \<Rightarrow> 'k \<Rightarrow> 'v" where
  "contents_after (Put k v # qs) (Stored (Inr _) # as) c = contents_after qs as (c(k := v))"
| "contents_after (q # qs) (a # as) c = contents_after qs as c"
| "contents_after _ _ c = c"

fun puts_ok :: "('v \<Rightarrow> bool) \<Rightarrow> ('k, 'v) request list \<Rightarrow> bool" where
  "puts_ok ok [] \<longleftrightarrow> True"
| "puts_ok ok (Put k v # qs) \<longleftrightarrow> ok v \<and> puts_ok ok qs"
| "puts_ok ok (q # qs) \<longleftrightarrow> puts_ok ok qs"

locale block_store =
  fixes inv :: "'s \<Rightarrow> bool"
    and content :: "'s \<Rightarrow> 'k \<Rightarrow> 'v"
    and ok :: "'v \<Rightarrow> bool"
    and rd :: "'k \<Rightarrow> 's \<Rightarrow> ('e + 'v) \<times> 's"
    and wr :: "'k \<Rightarrow> 'v \<Rightarrow> 's \<Rightarrow> (('e + unit) \<times> 's) option"
    and bg :: "'s \<Rightarrow> 's"
  assumes rd_law: "inv s \<Longrightarrow> rd k s = (r, s') \<Longrightarrow>
      inv s' \<and> content s' = content s \<and> (\<forall>v. r = Inr v \<longrightarrow> v = content s k)"
    and wr_law: "inv s \<Longrightarrow> ok v \<Longrightarrow> \<exists>r s'. wr k v s = Some (r, s') \<and> inv s' \<and>
      content s' = (case r of Inl e \<Rightarrow> content s | Inr _ \<Rightarrow> (content s)(k := v))"
    and bg_law: "inv s \<Longrightarrow> inv (bg s) \<and> content (bg s) = content s"
begin

lemma run_refines:
  "inv s \<Longrightarrow> puts_ok ok qs \<Longrightarrow>
   \<exists>as s'. run_store rd wr bg qs s = Some (as, s') \<and> inv s' \<and> replies_ok qs as (content s) \<and>
     content s' = contents_after qs as (content s)"
proof (induction qs arbitrary: s)
  case Nil
  then show ?case by simp
next
  case (Cons q qs)
  show ?case
  proof (cases q)
    case (Get k)
    obtain r s1 where r: "rd k s = (r, s1)" by fastforce
    note l = rd_law [OF Cons.prems(1) r]
    obtain as s2 where "run_store rd wr bg qs s1 = Some (as, s2)" "inv s2" "replies_ok qs as (content s)"
      "content s2 = contents_after qs as (content s)"
      using Cons.IH [of s1] Cons.prems(2) l by (auto simp: Get)
    then show ?thesis using l r by (auto simp: Get split: sum.splits)
  next
    case (Put k v)
    then obtain r s1 where w: "wr k v s = Some (r, s1)" "inv s1"
      "content s1 = (case r of Inl e \<Rightarrow> content s | Inr _ \<Rightarrow> (content s)(k := v))"
      using wr_law [OF Cons.prems(1), of v k] Cons.prems(2) by auto
    obtain as s2 where "run_store rd wr bg qs s1 = Some (as, s2)" "inv s2" "replies_ok qs as (content s1)"
      "content s2 = contents_after qs as (content s1)"
      using Cons.IH [OF w(2)] Cons.prems(2) by (auto simp: Put)
    then show ?thesis using w by (cases r) (auto simp: Put)
  next
    case Background
    note l = bg_law [OF Cons.prems(1)]
    obtain as s2 where "run_store rd wr bg qs (bg s) = Some (as, s2)" "inv s2" "replies_ok qs as (content s)"
      "content s2 = contents_after qs as (content s)"
      using Cons.IH [of "bg s"] Cons.prems(2) l by (auto simp: Background)
    then show ?thesis by (auto simp: Background)
  qed
qed

end

section \<open>The engine is such a store\<close>

text \<open>
  A client as the benchmarks are: it owns one buffer at \<open>ptr\<close>, reads into it and writes from it.
\<close>

definition client_read :: "'w env \<Rightarrow> nat \<Rightarrow> u64 \<Rightarrow> 'w engine \<Rightarrow> (cache_error + u8 list) \<times> 'w engine" where
  "client_read E ptr lba eg =
     (case engine_read E lba ptr eg of
        (Inl e, eg') \<Rightarrow> (Inl e, eg')
      | (Inr _, eg') \<Rightarrow> (Inr (load_bytes (cs_mem (eg_state eg')) ptr (unat (cfg_block_size (eg_config eg)))), eg'))"

definition fill_buffer :: "nat \<Rightarrow> u8 list \<Rightarrow> 'w engine \<Rightarrow> 'w engine" where
  "fill_buffer ptr bs eg = eg\<lparr>eg_state := (eg_state eg)\<lparr>cs_mem := store_bytes (cs_mem (eg_state eg)) ptr bs\<rparr>\<rparr>"

definition client_write ::
  "'w env \<Rightarrow> nat \<Rightarrow> u64 \<Rightarrow> u8 list \<Rightarrow> 'w engine \<Rightarrow> ((cache_error + unit) \<times> 'w engine) option" where
  "client_write E ptr lba bs eg =
     map_option (\<lambda>(r, eg'). (map_sum id (\<lambda>_. ()) r, eg')) (engine_write E lba ptr (fill_buffer ptr bs eg))"

text \<open>An engine set up as \<open>eg0\<close> with the client's buffer outside its pool.\<close>

definition client_inv :: "'w env \<Rightarrow> 'w disk_view \<Rightarrow> nat \<Rightarrow> 'w engine \<Rightarrow> 'w engine \<Rightarrow> bool" where
  "client_inv E disk ptr eg0 eg \<longleftrightarrow> engine_inv E disk eg \<and> same_setup eg0 eg \<and>
     user_buf_ok (eg_state eg) ptr \<and> write_ptr_ok ptr"

lemma same_setup_trans: "same_setup eg eg' \<Longrightarrow> same_setup eg' eg'' \<Longrightarrow> same_setup eg eg''"
  unfolding same_setup_def by (metis same_geometry_trans)

lemma same_setup_refl [simp]: "same_setup eg eg"
  by (simp add: same_setup_def)

lemma client_inv_step:
  assumes "client_inv E disk ptr eg0 eg" "engine_inv E disk eg'" "same_setup eg eg'"
  shows "client_inv E disk ptr eg0 eg'"
proof -
  have "user_buf_ok (eg_state eg') = user_buf_ok (eg_state eg)"
    using assms(3) by (intro same_geometryD(6)) (simp add: same_setup_def)
  then show ?thesis
    using assms same_setup_trans by (auto simp: client_inv_def)
qed

lemma client_inv_bsize:
  assumes "client_inv E disk ptr eg0 eg"
  shows "bsize (eg_state eg) = bsize (eg_state eg0)" "unat (cfg_block_size (eg_config eg)) = bsize (eg_state eg)"
proof -
  have "same_geometry (eg_state eg0) (eg_state eg)" using assms by (simp add: client_inv_def same_setup_def)
  from same_geometryD(1) [OF this] show "bsize (eg_state eg) = bsize (eg_state eg0)" by simp
  show "unat (cfg_block_size (eg_config eg)) = bsize (eg_state eg)"
    using assms by (simp add: client_inv_def engine_inv_def)
qed

lemma client_read_law:
  assumes inv: "client_inv E disk ptr eg0 eg" and run: "client_read E ptr lba eg = (r, eg')"
  shows "client_inv E disk ptr eg0 eg' \<and> engine_view disk eg' = engine_view disk eg \<and>
    (\<forall>bs. r = Inr bs \<longrightarrow> bs = engine_view disk eg lba)"
proof -
  obtain q eg1 where e: "engine_read E lba ptr eg = (q, eg1)" by fastforce
  have side: "engine_inv E disk eg" "user_buf_ok (eg_state eg) ptr" using inv by (simp_all add: client_inv_def)
  note p = engine_read_post [OF side e]
  have "eg' = eg1" using run e by (auto simp: client_read_def split: sum.splits)
  moreover have "r = Inr bs \<Longrightarrow> bs = engine_view disk eg lba" for bs
    using run e p(5) client_inv_bsize(2) [OF inv] by (cases q) (auto simp: client_read_def)
  ultimately show ?thesis using client_inv_step [OF inv p(1,3)] p(2) by blast
qed

lemma fill_buffer_inv:
  assumes inv: "client_inv E disk ptr eg0 eg" and len: "length bs = bsize (eg_state eg)"
  shows "client_inv E disk ptr eg0 (fill_buffer ptr bs eg)"
    "engine_view disk (fill_buffer ptr bs eg) = engine_view disk eg"
proof -
  let ?s = "(eg_state eg)\<lparr>cs_mem := store_bytes (cs_mem (eg_state eg)) ptr bs\<rparr>"
  have e: "engine_inv E disk eg" and struct: "struct_inv (eg_state eg)"
    and buf: "disjoint_ranges ptr (bsize (eg_state eg)) (mp_base_ptr (cs_pool (eg_state eg))) (pool_size (cs_pool (eg_state eg)))"
    using inv by (simp_all add: client_inv_def engine_inv_def cache_inv_def user_buf_ok_def)
  have "agree_outside ptr (bsize (eg_state eg)) (cs_mem (eg_state eg)) (store_bytes (cs_mem (eg_state eg)) ptr bs)"
    by (rule agree_outside_store) (simp add: len)
  note m = mem_outside [OF struct this buf, of disk]
  have "on_device (dev_bytes eg) ?s" using e by (simp add: engine_inv_def on_device_def)
  then have "engine_inv E disk (fill_buffer ptr bs eg)"
    using engine_state_inv [OF e, of ?s] m(1) e by (simp add: fill_buffer_def engine_inv_def)
  then show "client_inv E disk ptr eg0 (fill_buffer ptr bs eg)"
    by (rule client_inv_step [OF inv]) (simp add: fill_buffer_def same_setup_def)
  show "engine_view disk (fill_buffer ptr bs eg) = engine_view disk eg"
    using m(2) by (simp add: fill_buffer_def engine_view_def)
qed

lemma client_write_law:
  assumes inv: "client_inv E disk ptr eg0 eg" and len: "length bs = bsize (eg_state eg0)"
  shows "\<exists>r eg'. client_write E ptr lba bs eg = Some (r, eg') \<and> client_inv E disk ptr eg0 eg' \<and>
    engine_view disk eg' = (case r of Inl e \<Rightarrow> engine_view disk eg | Inr _ \<Rightarrow> (engine_view disk eg)(lba := bs))"
proof -
  have l: "length bs = bsize (eg_state eg)" using len client_inv_bsize(1) [OF inv] by simp
  let ?eg = "fill_buffer ptr bs eg"
  note f = fill_buffer_inv [OF inv l]
  have side: "engine_inv E disk ?eg" "user_buf_ok (eg_state ?eg) ptr" "write_ptr_ok ptr"
    using f(1) by (simp_all add: client_inv_def)
  obtain r eg' where w: "engine_write E lba ptr ?eg = Some (r, eg')" and p: "engine_write_post E disk ?eg lba ptr r eg'"
    using engine_write_total [OF side] by blast
  have "client_inv E disk ptr eg0 eg'"
    using client_inv_step [OF f(1)] p by (simp add: engine_write_post_def)
  moreover have "load_bytes (cs_mem (eg_state ?eg)) ptr (bsize (eg_state ?eg)) = bs"
    by (simp add: fill_buffer_def load_store_same l)
  ultimately show ?thesis
    using w p f(2) by (cases r) (auto simp: client_write_def engine_write_post_def)
qed

interpretation eng: block_store "client_inv E disk ptr eg0" "engine_view disk"
    "\<lambda>bs. length bs = bsize (eg_state eg0)" "client_read E ptr" "client_write E ptr" "engine_background E"
  for E disk ptr eg0
proof unfold_locales
  show "client_inv E disk ptr eg0 (engine_background E eg) \<and>
      engine_view disk (engine_background E eg) = engine_view disk eg"
    if "client_inv E disk ptr eg0 eg" for eg
    using engine_background_post [of E disk eg] client_inv_step [OF that] that by (simp add: client_inv_def)
qed (use client_read_law client_write_law in blast)+

section \<open>Life cycle\<close>

lemma query_disk:
  assumes "quiet_ok E disk"
  shows "disk (snd (query E p w)) = disk w"
proof -
  note q = quiet_okD [OF assms]
  have "disk (snd (open_readonly E p w)) = disk w"
    using q(6) [of p O_RDONLY_plain w] by (auto simp: open_readonly_def split: prod.splits sum.splits)
  then show ?thesis
    using q(7) by (auto simp: query_def close_fd_def Let_def split: prod.splits sum.splits)
qed

lemma device_open_disk:
  assumes "quiet_ok E disk" "device_open E p ro w = (r, w')"
  shows "disk w' = disk w"
proof -
  have "disk w2 = disk (snd (query E p w))"
    if "env_open E p f (snd (query E p w)) = (x, w2)" for f x w2
    using quiet_okD(6) [OF assms(1), of p f "snd (query E p w)"] that by simp
  with query_disk [OF assms(1), of p w] show ?thesis
    using assms(2) by (auto simp: device_open_def Let_def split: prod.splits sum.splits if_splits)
qed

lemma pool_new_disk:
  assumes "quiet_ok E disk" "pool_new E tot bs w m = (r, w', m')"
  shows "disk w' = disk w"
proof -
  have "disk w1 = disk w" if "env_alloc_zeroed E n a w = (p, w1)" for n a p w1
    using quiet_okD(8) [OF assms(1), of n a w] that by simp
  then show ?thesis
    using assms(2)
    by (auto simp: pool_new_def aligned_buffer_new_def Let_def split: if_splits prod.splits sum.splits)
qed

lemma engine_new_Inr:
  assumes "engine_new E cfg w m = Some (Inr eg)"
  obtains w1 m1 where "validate cfg = Inr ()"
    "pool_new E (cache_size_bytes cfg) (cfg_block_size cfg) w m = (Inr (cs_pool (eg_state eg)), w1, m1)"
    "device_open E (cfg_device_path cfg) (cfg_read_only cfg) w1 = (Inr (eg_device eg), cs_world (eg_state eg))"
    "eg_config eg = cfg" "eg_flusher eg = None" "cs_mem (eg_state eg) = m1"
    "cs_table (eg_state eg) = table_new (block_count cfg)"
  using assms
  by (auto simp: engine_new_def Let_def split: sum.splits prod.splits option.splits)

lemma engine_new_post:
  assumes new: "engine_new E cfg w m = Some (Inr eg)" and alloc: "alloc_ok E"
    and env: "env_ok E disk (bd_fd (eg_device eg))" and big: "dev_bytes eg < 2 ^ 63"
  shows "engine_inv E disk eg" "no_leak (eg_state eg)"
    "free_count (cs_pool (eg_state eg)) = block_count cfg" "mp_capacity (cs_pool (eg_state eg)) = block_count cfg"
    "pool_free (cs_pool (eg_state eg)) = {i. i < block_count cfg}" "cached (eg_state eg) = Map.empty"
    "engine_view disk eg = disk_block (disk w) (unat (cfg_block_size cfg))"
proof -
  from engine_new_Inr [OF new] obtain w1 m1 where
    p: "pool_new E (cache_size_bytes cfg) (cfg_block_size cfg) w m = (Inr (cs_pool (eg_state eg)), w1, m1)"
    and d: "device_open E (cfg_device_path cfg) (cfg_read_only cfg) w1 = (Inr (eg_device eg), cs_world (eg_state eg))"
    and f: "eg_config eg = cfg" "eg_flusher eg = None" "cs_table (eg_state eg) = table_new (block_count cfg)" .
  note pi = pool_new_inv [OF alloc p] and pf = pool_new_Inr [OF p]
  have empty: "cached (eg_state eg) lba = None" for lba by (simp add: f table_new_def table_get_def)
  have "disk (cs_world (eg_state eg)) = disk w"
    using device_open_disk [OF env_okD(3) [OF env] d] pool_new_disk [OF env_okD(3) [OF env] p] by simp
  then show "engine_view disk eg = disk_block (disk w) (unat (cfg_block_size cfg))"
    by (intro ext) (simp add: engine_view_def view_def empty pf(1))
  show "no_leak (eg_state eg)"
    by (simp add: no_leak_def f table_new_def pf(2,8))
  show "mp_capacity (cs_pool (eg_state eg)) = block_count cfg" by (simp add: pf(2) block_count_def)
  show "free_count (cs_pool (eg_state eg)) = block_count cfg" by (simp add: free_count_def pf(8) block_count_def)
  show "pool_free (cs_pool (eg_state eg)) = {i. i < block_count cfg}"
    unfolding pool_free_def pf(8) index_list_set by (simp add: block_count_def)
  show "cached (eg_state eg) = Map.empty" using empty by blast
  have "cache_inv disk (eg_state eg)"
    using pi(1) by (simp add: cache_inv_def struct_inv_def coherent_def slots_unique_def f
        table_new_def table_inv_def table_get_def)
  moreover have "on_device (dev_bytes eg) (eg_state eg)" by (simp add: on_device_def empty)
  ultimately show "engine_inv E disk eg"
    using env big by (simp add: engine_inv_def f pf(1))
qed

lemma engine_start_post:
  assumes inv: "engine_inv E disk eg"
  shows "engine_inv E disk (engine_start E eg)" "engine_view disk (engine_start E eg) = engine_view disk eg"
    "same_geometry (eg_state eg) (eg_state (engine_start E eg))"
    "eg_device (engine_start E eg) = eg_device eg" "eg_config (engine_start E eg) = eg_config eg"
    "unaccounted n (eg_state (engine_start E eg)) = unaccounted n (eg_state eg)"
proof -
  let ?w = "snd (env_bounded1 E (cs_world (eg_state eg)))" and ?eg = "engine_start E eg"
  have env: "env_ok E disk (bd_fd (eg_device eg))" using inv by (simp add: engine_inv_def)
  have w: "disk ?w = disk (cs_world (eg_state eg))" by (rule quiet_okD(4) [OF env_okD(3) [OF env]])
  note c = world_change [OF w]
  have "engine_inv E disk ?eg \<and> engine_view disk ?eg = engine_view disk eg \<and>
    same_geometry (eg_state eg) (eg_state ?eg) \<and> eg_device ?eg = eg_device eg \<and> eg_config ?eg = eg_config eg \<and>
    unaccounted n (eg_state ?eg) = unaccounted n (eg_state eg)"
    using inv c
    by (simp add: engine_start_def flusher_spawn_def flush_channel_def case_prod_unfold engine_inv_def
        engine_view_def dev_bytes_def on_device_def unaccounted_def)
  then show "engine_inv E disk ?eg" "engine_view disk ?eg = engine_view disk eg"
    "same_geometry (eg_state eg) (eg_state ?eg)" "eg_device ?eg = eg_device eg" "eg_config ?eg = eg_config eg"
    "unaccounted n (eg_state ?eg) = unaccounted n (eg_state eg)"
    by blast+
qed

text \<open>An engine whose flush thread runs.\<close>

definition running :: "'w engine \<Rightarrow> bool" where
  "running eg \<longleftrightarrow> (\<exists>B th. eg_flusher eg = Some B \<and> bf_handle B = Some th)"

lemma engine_start_running:
  assumes "\<not> cfg_read_only (eg_config eg)" "eg_flusher eg = None"
  shows "running (engine_start E eg)"
  using assms by (simp add: running_def engine_start_def flusher_spawn_def case_prod_unfold)

lemma engine_stop_settles:
  assumes inv: "engine_inv E disk eg" and live: "pwrite_live E (bd_fd (eg_device eg)) (dev_bytes eg)"
    and run: "running eg"
  shows "\<exists>eg'. engine_stop E False eg = Some (Inr (), eg') \<and> eg_flusher eg' = None \<and>
    all_clean (eg_state eg') \<and>
    (\<forall>lba. disk_block (disk (cs_world (eg_state eg'))) (bsize (eg_state eg)) lba = engine_view disk eg lba)"
proof -
  obtain B th where th: "eg_flusher eg = Some B" "bf_handle B = Some th" using run by (auto simp: running_def)
  have e: "env_ok E disk (bd_fd (eg_device eg))" "cache_inv disk (eg_state eg)" "on_device (dev_bytes eg) (eg_state eg)"
    "ft_fd th = bd_fd (eg_device eg)" "ft_block_size th = mp_block_size (cs_pool (eg_state eg))"
    using inv th by (auto simp: engine_inv_def)
  let ?link = "(bf_notifier B)\<lparr>fl_stop := True\<rparr>"
  let ?w = "env_try_send E (fl_chan ?link) Shutdown (cs_world (eg_state eg))"
  let ?s = "(eg_state eg)\<lparr>cs_world := ?w\<rparr>"
  have s: "cache_inv disk ?s" "view disk ?s = view disk (eg_state eg)"
    using world_change [of disk ?w "eg_state eg"] e(2) by (simp_all add: quiet_okD [OF env_okD(3) [OF e(1)]])
  obtain stop s' where it: "flush_iteration E (bd_fd (eg_device eg)) (mp_block_size (cs_pool ?s)) (ft_schedule th) ?link ?s
      = (stop, s')" by fastforce
  note p = flush_iteration_post [OF e(1) s(1) it]
  have "on_device (dev_bytes eg) ?s" using e(3) by (simp add: on_device_def)
  then have clean: "all_clean s'" using p(4) live by blast
  have "disk_block (disk (cs_world s')) (bsize (eg_state eg)) lba = engine_view disk eg lba" for lba
    using settled_if_clean [OF p(1) clean] p(2,3) s(2) by (simp add: settled_def flushed_to_def engine_view_def)
  then show ?thesis
    using flusher_shutdown_idle [OF th(2), of E "eg_state eg"] it th clean e(4,5) by (simp add: engine_stop_def)
qed

lemma engine_new_total: "engine_new E cfg w m \<noteq> None"
proof -
  have "flush_schedule_new (cfg_flush_interval_secs cfg) (cfg_dirty_watermark cfg) \<noteq> None" if "validate cfg = Inr ()"
    using that by (simp add: validate_Inr_iff flush_schedule_new_def)
  then show ?thesis
    by (auto simp: engine_new_def Let_def split: sum.splits prod.splits option.splits)
qed

section \<open>Properties\<close>

text \<open>
  An engine over a device of one MiB whose pool of one block holds the dirty LBA 3, with its
  flush thread running.
\<close>

definition sample_engine :: "sim_world engine" where
  "sample_engine = \<lparr>eg_config = (config_new ''/dev/sdb''), 
     eg_device = \<lparr>bd_fd = 3, bd_path = ''/dev/sdb'', bd_info = \<lparr>di_path = ''/dev/sdb'', di_total_bytes = 1048576,
       di_sector_size = 512, di_sector_count = 2048, di_model = ''SIM''\<rparr>\<rparr>,
     eg_flusher = Some sample_flusher, eg_flush_schedule = flush_schedule_default, eg_state = sample_cache\<rparr>"

lemma sample_engine_simps [simp]:
  "eg_state sample_engine = sample_cache" "dev_bytes sample_engine = 1048576"
  "bd_fd (eg_device sample_engine) = 3" "eg_flusher sample_engine = Some sample_flusher"
  by (simp_all add: sample_engine_def dev_bytes_def)

lemma sample_engine_inv: "env_ok E sim_disk 3 \<Longrightarrow> engine_inv E sim_disk sample_engine"
  using sample_cache_inv sample_on_device
  by (simp add: engine_inv_def)
    (simp add: sample_engine_def sample_flusher_def config_new_def DEFAULT_BLOCK_SIZE_def)

lemma sample_client_inv: "env_ok E sim_disk 3 \<Longrightarrow> client_inv E sim_disk 65536 sample_engine sample_engine"
  using sample_engine_inv sample_cache_buf by (simp add: client_inv_def write_ptr_ok_def)

text \<open>
  C1. Refinement: for every sequence of reads, writes and background flush iterations, the
  engine answers as a plain store of blocks does. Every successful read returns the bytes of
  the last successful write of its block before it, or the initial content; failed requests
  change nothing; no request faults or hangs; at the end the contents are those of the
  abstract store.
\<close>

theorem engine_refines_block_store:
  assumes "engine_inv E disk eg" "user_buf_ok (eg_state eg) ptr" "ptr mod 16 = 0"
    "puts_ok (\<lambda>bs. length bs = bsize (eg_state eg)) qs"
  shows "\<exists>as eg'. run_store (client_read E ptr) (client_write E ptr) (engine_background E) qs eg = Some (as, eg') \<and>
    engine_inv E disk eg' \<and> replies_ok qs as (engine_view disk eg) \<and>
    engine_view disk eg' = contents_after qs as (engine_view disk eg)"
proof -
  have "client_inv E disk ptr eg eg" using assms(1-3) by (simp add: client_inv_def write_ptr_ok_def)
  from eng.run_refines [OF this assms(4)] show ?thesis unfolding client_inv_def by blast
qed

theorem engine_refines_block_store_witness:
  "\<exists>as eg'. run_store (client_read sim_env 65536) (client_write sim_env 65536) (engine_background sim_env)
      [Put 5 (replicate 4096 1), Get 3, Background, Get 5] sample_engine = Some (as, eg') \<and>
    engine_inv sim_env sim_disk eg'"
proof -
  have "engine_inv sim_env sim_disk sample_engine" by (rule sample_engine_inv [OF sim_env_ok])
  moreover have "user_buf_ok (eg_state sample_engine) 65536" using sample_cache_buf by simp
  ultimately show ?thesis
    using engine_refines_block_store [where E = sim_env and disk = sim_disk and eg = sample_engine and ptr = 65536
        and qs = "[Put 5 (replicate 4096 1), Get 3, Background, Get 5]"] by auto
qed

text \<open>
  C2. Durability: on a device that accepts writes, any sequence of requests to a running
  engine followed by \<open>stop\<close> ends with \<open>stop\<close> returning \<open>Ok\<close> and with the device holding, for
  every block, the bytes of the last successful write of it, or what it held as seen before.
\<close>

theorem engine_session_durable:
  assumes "engine_inv E disk eg" "user_buf_ok (eg_state eg) ptr" "ptr mod 16 = 0" "running eg"
    "pwrite_live E (bd_fd (eg_device eg)) (dev_bytes eg)"
    "puts_ok (\<lambda>bs. length bs = bsize (eg_state eg)) qs"
  shows "\<exists>as eg' eg''.
    run_store (client_read E ptr) (client_write E ptr) (engine_background E) qs eg = Some (as, eg') \<and>
    engine_stop E False eg' = Some (Inr (), eg'') \<and>
    (\<forall>lba. disk_block (disk (cs_world (eg_state eg''))) (bsize (eg_state eg)) lba =
       contents_after qs as (engine_view disk eg) lba)"
proof -
  have "client_inv E disk ptr eg eg" using assms(1-3) by (simp add: client_inv_def write_ptr_ok_def)
  from eng.run_refines [OF this assms(6)] obtain as eg' where
    r: "run_store (client_read E ptr) (client_write E ptr) (engine_background E) qs eg = Some (as, eg')"
      "client_inv E disk ptr eg eg'" "engine_view disk eg' = contents_after qs as (engine_view disk eg)" by blast
  have c: "engine_inv E disk eg'" "same_setup eg eg'" using r(2) by (simp_all add: client_inv_def)
  have "running eg'" "pwrite_live E (bd_fd (eg_device eg')) (dev_bytes eg')"
    using assms(4,5) c(2) by (simp_all add: same_setup_def running_def dev_bytes_def)
  from engine_stop_settles [OF c(1) this(2,1)] r client_inv_bsize(1) [OF r(2)] show ?thesis by auto
qed

theorem engine_session_durable_witness:
  "\<exists>as eg' eg''.
     run_store (client_read reliable_env 65536) (client_write reliable_env 65536) (engine_background reliable_env)
       [Background] sample_engine = Some (as, eg') \<and>
     engine_stop reliable_env False eg' = Some (Inr (), eg'') \<and>
     disk_block (sim_disk (cs_world (eg_state eg''))) 4096 3 = replicate 4096 7"
proof -
  have "engine_inv reliable_env sim_disk sample_engine" by (rule sample_engine_inv [OF reliable_env_ok])
  moreover have "running sample_engine" by (simp add: running_def sample_flusher_def)
  ultimately show ?thesis
    using engine_session_durable [where E = reliable_env and disk = sim_disk and eg = sample_engine and ptr = 65536
        and qs = "[Background]"] sample_cache_buf
    by (auto simp: reliable_pwrite_live engine_view_def sample_cache_view)
qed

text \<open>
  C31. Building an engine never panics; an engine that is built satisfies the engine
  invariant with no flusher yet, has the number of slots of its configuration, all of them on
  the free-list, and an empty table, and shows the device's content unchanged.
\<close>

theorem engine_new_spec:
  assumes "alloc_ok E"
  shows "engine_new E cfg w m \<noteq> None \<and>
    (\<forall>eg. engine_new E cfg w m = Some (Inr eg) \<and> env_ok E disk (bd_fd (eg_device eg)) \<and> dev_bytes eg < 2 ^ 63 \<longrightarrow>
       engine_inv E disk eg \<and> eg_flusher eg = None \<and> mp_capacity (cs_pool (eg_state eg)) = block_count cfg \<and>
       free_count (cs_pool (eg_state eg)) = block_count cfg \<and> pool_free (cs_pool (eg_state eg)) = {i. i < block_count cfg} \<and>
       cached (eg_state eg) = Map.empty \<and> engine_view disk eg = disk_block (disk w) (unat (cfg_block_size cfg)))"
proof (rule conjI [OF engine_new_total], rule allI, rule impI)
  fix eg assume "engine_new E cfg w m = Some (Inr eg) \<and> env_ok E disk (bd_fd (eg_device eg)) \<and> dev_bytes eg < 2 ^ 63"
  then have new: "engine_new E cfg w m = Some (Inr eg)" and ok: "env_ok E disk (bd_fd (eg_device eg))" "dev_bytes eg < 2 ^ 63"
    by simp_all
  have "eg_flusher eg = None" using engine_new_Inr [OF new] by metis
  then show "engine_inv E disk eg \<and> eg_flusher eg = None \<and> mp_capacity (cs_pool (eg_state eg)) = block_count cfg \<and>
       free_count (cs_pool (eg_state eg)) = block_count cfg \<and> pool_free (cs_pool (eg_state eg)) = {i. i < block_count cfg} \<and>
       cached (eg_state eg) = Map.empty \<and> engine_view disk eg = disk_block (disk w) (unat (cfg_block_size cfg))"
    using engine_new_post [OF new assms ok] by blast
qed

definition sample_config :: cache_config where
  "sample_config = (config_new ''/dev/sdb'')\<lparr>cfg_cache_size_mb := 1\<rparr>"

lemma sample_new:
  "\<exists>eg. engine_new sim_env sample_config (sim_init\<lparr>sim_closed := [3]\<rparr>) (\<lambda>_. 0) = Some (Inr eg) \<and>
     dev_bytes eg = 1048576"
proof -
  have v: "validate sample_config = Inr ()" "cache_size_bytes sample_config = 1048576" "cfg_block_size sample_config = 4096"
    "cfg_device_path sample_config = ''/dev/sdb''"
    "flush_schedule_new (cfg_flush_interval_secs sample_config) (cfg_dirty_watermark sample_config) \<noteq> None"
    by (simp_all add: validate_Inr_iff sample_config_def config_new_def cache_size_bytes_def flush_schedule_new_def
        DEFAULT_CACHE_SIZE_MB_def DEFAULT_BLOCK_SIZE_def DEFAULT_FLUSH_INTERVAL_SECS_def DEFAULT_DIRTY_WATERMARK_def)
  obtain P w1 m1 where p: "pool_new sim_env 1048576 4096 (sim_init\<lparr>sim_closed := [3]\<rparr>) (\<lambda>_. 0) = (Inr P, w1, m1)"
    "sim_closed w1 = [3]"
    by (auto simp: pool_new_def aligned_buffer_new_def is_multiple_of_dvd PAGE_ALIGNMENT_def layout_valid_def
        sim_env_def sim_init_def Let_def)
  obtain d w2 where d: "device_open sim_env ''/dev/sdb'' ro w1 = (Inr d, w2)" "di_total_bytes (bd_info d) = 1048576"
    for ro using p(2)
    by (auto simp: device_open_def query_def open_readonly_def has_nul_def ioctl_get_size_def
        ioctl_get_sector_size_def close_fd_def sim_defs Let_def)
  show ?thesis
    using v p d by (auto simp: engine_new_def Let_def dev_bytes_def)
qed

theorem engine_new_spec_witness:
  "\<exists>eg. engine_new sim_env sample_config (sim_init\<lparr>sim_closed := [3]\<rparr>) (\<lambda>_. 0) = Some (Inr eg) \<and>
     engine_inv sim_env sim_disk eg \<and> free_count (cs_pool (eg_state eg)) = block_count sample_config"
proof -
  from sample_new obtain eg where
    e: "engine_new sim_env sample_config (sim_init\<lparr>sim_closed := [3]\<rparr>) (\<lambda>_. 0) = Some (Inr eg)" "dev_bytes eg = 1048576"
    by blast
  moreover have "env_ok sim_env sim_disk (bd_fd (eg_device eg))" by (rule sim_env_ok)
  ultimately show ?thesis
    using engine_new_spec [OF sim_alloc_ok, of sample_config "sim_init\<lparr>sim_closed := [3]\<rparr>" "\<lambda>_. 0" sim_disk] by auto
qed

text \<open>
  C32. A request for a block beyond the device is refused with the out-of-range error, with the
  block and the number of blocks, before any state is touched; every block below that number
  lies entirely on the device.
\<close>

theorem engine_range_check:
  assumes "engine_inv E disk eg"
  shows "if lba < max_lba (bd_info (eg_device eg)) (cfg_block_size (eg_config eg))
    then unat lba * bsize (eg_state eg) + bsize (eg_state eg) \<le> dev_bytes eg
    else engine_read E lba ptr eg =
        (Inl (LbaOutOfRange lba (max_lba (bd_info (eg_device eg)) (cfg_block_size (eg_config eg)))), eg) \<and>
      engine_write E lba ptr eg =
        Some (Inl (LbaOutOfRange lba (max_lba (bd_info (eg_device eg)) (cfg_block_size (eg_config eg)))), eg)"
  using valid_lba_fits(2) [OF assms, of lba]
  by (auto simp: validate_lba_def Let_def engine_read_def engine_write_def not_less not_le)

theorem engine_range_check_witness:
  "engine_read sim_env 256 65536 sample_engine = (Inl (LbaOutOfRange 256 256), sample_engine)"
  using engine_range_check [OF sample_engine_inv [OF sim_env_ok], where lba = 256 and ptr = 65536]
  by (simp add: sample_engine_def max_lba_def config_new_def DEFAULT_BLOCK_SIZE_def)

text \<open>
  C39. An engine that is dropped without \<open>stop\<close> loses its dirty blocks: the fields are dropped
  in declaration order, so the descriptor is closed before the flusher's own \<open>drop\<close> makes its
  final flush, and every write of that flush fails. The drop itself completes.
\<close>

theorem drop_without_stop_loses_writes:
  assumes "engine_inv E disk eg" "fd_ok E opened" "0 \<le> sint (bd_fd (eg_device eg))" "running eg"
  shows "\<exists>s'. engine_drop E False eg = Some s' \<and>
    disk (cs_world s') = disk (cs_world (eg_state eg)) \<and> cs_table s' = cs_table (eg_state eg)"
proof -
  let ?fd = "bd_fd (eg_device eg)" and ?s0 = "eg_state eg"
  obtain B th where th: "eg_flusher eg = Some B" "bf_handle B = Some th" using assms(4) by (auto simp: running_def)
  have e: "env_ok E disk ?fd" "cache_inv disk ?s0" "ft_fd th = ?fd" "ft_block_size th = mp_block_size (cs_pool ?s0)"
    using assms(1) th by (auto simp: engine_inv_def)
  note quiet = env_okD(3) [OF e(1)]
  define s where "s = ?s0\<lparr>cs_world := env_close E ?fd (cs_world ?s0)\<rparr>"
  have c: "disk (env_close E ?fd (cs_world ?s0)) = disk (cs_world ?s0)" by (rule quiet_okD(7) [OF quiet])
  have s: "cache_inv disk s" using world_change [OF c] e(2) by (simp add: s_def)
  define w where "w = snd (receiver_wait E (fl_chan (bf_notifier B)) (fs_interval (ft_schedule th))
    (env_try_send E (fl_chan (bf_notifier B)) Shutdown (cs_world s)))"
  have "snd (receiver_wait E c d v) = snd (env_recv_timeout E c d v)" for c d v
    by (simp add: receiver_wait_def split: prod.splits sum.splits recv_timeout_error.splits)
  then have "opened w = opened (cs_world ?s0) - {?fd}"
    by (simp add: w_def s_def fd_okD(3,5,6) [OF assms(2)])
  then have ref: "refused_at E ?fd w"
    using fd_okD(4) [OF assms(2)] by (simp add: refused_at_def)
  have "bf_handle B = Some \<lparr>ft_fd = ?fd, ft_block_size = mp_block_size (cs_pool s), ft_schedule = ft_schedule th\<rparr>"
    using th(2) e(3,4) by (simp add: s_def)
  from shutdown_refused [OF e(1) s this ref [unfolded w_def]] show ?thesis
    using assms(3) th c by (simp add: engine_drop_def device_drop_def flusher_drop_def s_def Let_def w_def)
qed

theorem drop_without_stop_loses_writes_witness:
  "\<exists>s'. engine_drop sim_env False sample_engine = Some s' \<and> sim_disk (cs_world s') = (\<lambda>_. 9) \<and>
     view sim_disk sample_cache 3 = replicate 4096 7"
proof -
  have "running sample_engine" "sim_disk (cs_world sample_cache) = (\<lambda>_. 9)"
    by (simp_all add: running_def sample_flusher_def sample_cache_def)
  then show ?thesis
    using drop_without_stop_loses_writes [OF sample_engine_inv [OF sim_env_ok] sim_fd_ok]
    by (auto simp: sample_cache_view)
qed

end
