(* ===== verification/Interleave.thy ===== *)
theory Interleave
  imports Engine
begin

text \<open>
  The threads of a running engine, step by step. The operations of the other theories run to
  their end; here each of them is cut at the points where another thread may run: between
  two uses of the table or of the pool (each takes its lock and releases it), before a
  request to the device and before a copy. A step is therefore one locked operation, one
  device transfer or one copy of a block. The system has any number of clients (callers of
  \<open>CacheEngine::read\<close> and \<open>CacheEngine::write\<close>, which take \<open>&self\<close>), the flush thread and
  the caller of \<open>stop\<close>, which takes \<open>&mut self\<close> and so runs only when no client does.

  The lemmas show that a client or the flush thread that runs alone does what the operations
  of the other theories say, and that every step of a client or of the flush thread keeps the
  ownership of slots if it finds what the client relies on. \<open>Claims\<close> says when it does,
  \<open>Races\<close> what happens otherwise. The store to the stop flag and the message to the channel,
  the two effects of \<open>FlushNotifier::shutdown\<close>, are one step: the flush thread reads the flag
  only at the end of an iteration and the channel only at its start.
\<close>

section \<open>Program points\<close>

text \<open>\<open>allocate_or_evict\<close>: the point is what the thread does next.\<close>

datatype alloc_pc =
    Allocate
  | Select
  | WriteBack eviction_candidate
  | Remove eviction_candidate
  | Deallocate eviction_candidate
  | Reallocate

definition alloc_next ::
  "'w env \<Rightarrow> i32 \<Rightarrow> nat \<Rightarrow> alloc_pc \<Rightarrow> 'w cache_state \<Rightarrow>
   (alloc_pc + (usize \<times> block_buffer) cache_result) \<times> 'w cache_state" where
  "alloc_next E fd chan pc s =
     (case pc of
        Allocate \<Rightarrow>
          (case pool_allocate (cs_pool s) of
             (Inr r, P) \<Rightarrow> (Inr (Inr r), s\<lparr>cs_pool := P\<rparr>)
           | (Inl _, _) \<Rightarrow> (Inl Select, s))
      | Select \<Rightarrow>
          (case select_eviction_candidate E (cs_table s) of
             None \<Rightarrow> (Inr (Inl (internal_err inconsistent_msg)), s)
           | Some c \<Rightarrow> (Inl (WriteBack c), s))
      | WriteBack c \<Rightarrow>
          (case flush_candidate E fd chan c s of
             (Inl e, s') \<Rightarrow> (Inr (Inl e), s')
           | (Inr _, s') \<Rightarrow> (Inl (Remove c), s'))
      | Remove c \<Rightarrow> (Inl (Deallocate c), s\<lparr>cs_table := snd (table_remove (cs_table s) (ec_lba c))\<rparr>)
      | Deallocate c \<Rightarrow> (Inl Reallocate, s\<lparr>cs_pool := pool_deallocate (cs_pool s) (ec_pool_index c)\<rparr>)
      | Reallocate \<Rightarrow> (case pool_allocate (cs_pool s) of (r, P) \<Rightarrow> (Inr r, s\<lparr>cs_pool := P\<rparr>)))"

datatype read_pc =
    RTouch
  | RHit usize
  | RAlloc alloc_pc
  | RFill usize block_buffer
  | RInsert usize block_buffer
  | RCopy block_buffer
  | RDone "read_result cache_result"

definition read_next ::
  "'w env \<Rightarrow> i32 \<Rightarrow> nat \<Rightarrow> u64 \<Rightarrow> nat \<Rightarrow> read_pc \<Rightarrow> 'w cache_state \<Rightarrow> read_pc \<times> 'w cache_state" where
  "read_next E fd chan lba user_ptr pc s =
     (case pc of
        RTouch \<Rightarrow>
          (case get_and_touch E (cs_table s) lba (cs_world s) of
             (Some pool_index, t, w) \<Rightarrow> (RHit pool_index, s\<lparr>cs_table := t, cs_world := w\<rparr>)
           | (None, _, _) \<Rightarrow> (RAlloc Allocate, s))
      | RHit pool_index \<Rightarrow>
          (RDone (Inr \<lparr>rr_cache_hit = True\<rparr>),
           s\<lparr>cs_mem := fast_copy_temporal E user_ptr (bb_ptr (get_block (cs_pool s) pool_index))
                        (unat (mp_block_size (cs_pool s))) (cs_mem s)\<rparr>)
      | RAlloc a \<Rightarrow>
          (case alloc_next E fd chan a s of
             (Inl a', s') \<Rightarrow> (RAlloc a', s')
           | (Inr (Inl e), s') \<Rightarrow> (RDone (Inl e), s')
           | (Inr (Inr (pool_index, pool_block)), s') \<Rightarrow> (RFill pool_index pool_block, s'))
      | RFill pool_index pool_block \<Rightarrow>
          (case read_lba E fd lba (mp_block_size (cs_pool s)) (bb_ptr pool_block)
                  (unat (bb_size pool_block)) (cs_world s) (cs_mem s) of
             (Inl e, w, m) \<Rightarrow> (RDone (Inl e), s\<lparr>cs_world := w, cs_mem := m\<rparr>)
           | (Inr _, w, m) \<Rightarrow> (RInsert pool_index pool_block, s\<lparr>cs_world := w, cs_mem := m\<rparr>))
      | RInsert pool_index pool_block \<Rightarrow>
          (case entry_new E lba pool_index (cs_world s) of (entry, w) \<Rightarrow>
             (RCopy pool_block, s\<lparr>cs_table := snd (table_insert (cs_table s) lba entry), cs_world := w\<rparr>))
      | RCopy pool_block \<Rightarrow>
          (RDone (Inr \<lparr>rr_cache_hit = False\<rparr>),
           s\<lparr>cs_mem := fast_copy_temporal E user_ptr (bb_ptr pool_block)
                        (unat (mp_block_size (cs_pool s))) (cs_mem s)\<rparr>)
      | RDone r \<Rightarrow> (RDone r, s))"

text \<open>\<open>WFault\<close> is the fault of a non-temporal store to a pointer that is not aligned.\<close>

datatype write_pc =
    WGet
  | WUpdate usize
  | WMark
  | WAlloc alloc_pc
  | WFill usize block_buffer
  | WInsert usize
  | WWake bool
  | WDone "write_result cache_result"
  | WFault

definition write_next ::
  "'w env \<Rightarrow> i32 \<Rightarrow> nat \<Rightarrow> flush_schedule \<Rightarrow> bool \<Rightarrow> u64 \<Rightarrow> nat \<Rightarrow> write_pc \<Rightarrow> 'w cache_state \<Rightarrow>
   write_pc \<times> 'w cache_state" where
  "write_next E fd chan schedule read_only lba user_ptr pc s =
     (case pc of
        WGet \<Rightarrow>
          (if read_only then (WDone (Inl (config_err read_only_msg)), s)
           else case table_get (cs_table s) lba of
                  Some entry \<Rightarrow> (WUpdate (ce_pool_index entry), s)
                | None \<Rightarrow> (WAlloc Allocate, s))
      | WUpdate pool_index \<Rightarrow>
          (case fast_copy_nontemporal (bb_ptr (get_block (cs_pool s) pool_index)) user_ptr
                  (unat (mp_block_size (cs_pool s))) (cs_mem s) of
             None \<Rightarrow> (WFault, s)
           | Some m \<Rightarrow> (WMark, s\<lparr>cs_mem := m\<rparr>))
      | WMark \<Rightarrow>
          (case table_mark_dirty E (cs_table s) lba (cs_world s) of
             (t, w) \<Rightarrow> (WWake True, s\<lparr>cs_table := t, cs_world := w\<rparr>))
      | WAlloc a \<Rightarrow>
          (case alloc_next E fd chan a s of
             (Inl a', s') \<Rightarrow> (WAlloc a', s')
           | (Inr (Inl e), s') \<Rightarrow> (WDone (Inl e), s')
           | (Inr (Inr (pool_index, pool_block)), s') \<Rightarrow> (WFill pool_index pool_block, s'))
      | WFill pool_index pool_block \<Rightarrow>
          (case fast_copy_nontemporal (bb_ptr pool_block) user_ptr
                  (unat (mp_block_size (cs_pool s))) (cs_mem s) of
             None \<Rightarrow> (WFault, s)
           | Some m \<Rightarrow> (WInsert pool_index, s\<lparr>cs_mem := m\<rparr>))
      | WInsert pool_index \<Rightarrow>
          (case entry_new E lba pool_index (cs_world s) of (entry, w1) \<Rightarrow>
           case entry_mark_dirty E entry w1 of (entry', w2) \<Rightarrow>
             (WWake False, s\<lparr>cs_table := snd (table_insert (cs_table s) lba entry'), cs_world := w2\<rparr>))
      | WWake was_update \<Rightarrow>
          (WDone (Inr \<lparr>wr_was_update = was_update\<rparr>),
           s\<lparr>cs_world := maybe_wake_flusher E (cs_table s) chan schedule (cs_world s)\<rparr>)
      | WDone r \<Rightarrow> (WDone r, s)
      | WFault \<Rightarrow> (WFault, s))"

text \<open>The flush thread. \<open>FWrite\<close> holds the rest of the list taken by \<open>dirty_entries\<close>.\<close>

datatype flusher_pc =
    FWait
  | FSnapshot "flush_signal option"
  | FWrite "(u64 \<times> usize) list" usize "flush_signal option"
  | FMark u64 "(u64 \<times> usize) list" usize "flush_signal option"
  | FSync usize "flush_signal option"
  | FCheck "flush_signal option"
  | FExit

fun flusher_next ::
  "'w env \<Rightarrow> i32 \<Rightarrow> usize \<Rightarrow> flush_schedule \<Rightarrow> flush_link \<Rightarrow> flusher_pc \<Rightarrow> 'w cache_state \<Rightarrow>
   flusher_pc \<times> 'w cache_state" where
  "flusher_next E fd block_size schedule link FWait s =
     (case receiver_wait E (fl_chan link) (fs_interval schedule) (cs_world s) of
        (sig, w) \<Rightarrow> (FSnapshot sig, s\<lparr>cs_world := w\<rparr>))"
| "flusher_next E fd block_size schedule link (FSnapshot sig) s =
     (FWrite (dirty_entries E (cs_table s)) 0 sig, s)"
| "flusher_next E fd block_size schedule link (FWrite [] n sig) s =
     (if 0 < n then FSync n sig else FCheck sig, s)"
| "flusher_next E fd block_size schedule link (FWrite (d # ds) n sig) s =
     (case write_lba E fd (fst d) block_size
             (block_buffer_as_ref (get_block (cs_pool s) (snd d)) (cs_mem s)) (cs_world s) of
        (Inr _, w) \<Rightarrow> (FMark (fst d) ds n sig, s\<lparr>cs_world := w\<rparr>)
      | (Inl _, w) \<Rightarrow> (FWrite ds n sig, s\<lparr>cs_world := w\<rparr>))"
| "flusher_next E fd block_size schedule link (FMark lba ds n sig) s =
     (FWrite ds (n + 1) sig, s\<lparr>cs_table := table_mark_clean (cs_table s) lba\<rparr>)"
| "flusher_next E fd block_size schedule link (FSync n sig) s =
     (FCheck sig, s\<lparr>cs_world := snd (sync_device E fd (cs_world s))\<rparr>)"
| "flusher_next E fd block_size schedule link (FCheck sig) s =
     (if sig = Some Shutdown \<or> is_stopped link then FExit else FWait, s)"
| "flusher_next E fd block_size schedule link FExit s = (FExit, s)"

section \<open>The system\<close>

datatype client_pc =
    Idle
  | Reading u64 nat read_pc
  | Writing u64 nat write_pc

fun client_lba :: "client_pc \<Rightarrow> u64" where
  "client_lba Idle = 0"
| "client_lba (Reading lba ptr pc) = lba"
| "client_lba (Writing lba ptr pc) = lba"

record session =
  ss_fd :: i32
  ss_max_lba :: u64
  ss_schedule :: flush_schedule
  ss_read_only :: bool

record 'w sys =
  sy_state :: "'w cache_state"
  sy_clients :: "nat \<Rightarrow> client_pc"
  sy_flusher :: flusher_pc
  sy_link :: flush_link

definition client_next ::
  "'w env \<Rightarrow> session \<Rightarrow> nat \<Rightarrow> client_pc \<Rightarrow> 'w cache_state \<Rightarrow> client_pc \<times> 'w cache_state" where
  "client_next E S chan c s =
     (case c of
        Idle \<Rightarrow> (Idle, s)
      | Reading lba ptr pc \<Rightarrow> apfst (Reading lba ptr) (read_next E (ss_fd S) chan lba ptr pc s)
      | Writing lba ptr pc \<Rightarrow>
          apfst (Writing lba ptr)
            (write_next E (ss_fd S) chan (ss_schedule S) (ss_read_only S) lba ptr pc s))"

text \<open>A faulted client does not move again; letting the others go on only adds executions.\<close>

fun finished :: "client_pc \<Rightarrow> bool" where
  "finished (Reading lba ptr (RDone r)) = True"
| "finished (Writing lba ptr (WDone r)) = True"
| "finished c = False"

fun active :: "client_pc \<Rightarrow> bool" where
  "active Idle = False"
| "active (Reading lba ptr (RDone r)) = False"
| "active (Writing lba ptr (WDone r)) = False"
| "active (Writing lba ptr WFault) = False"
| "active c = True"

fun starting :: "client_pc \<Rightarrow> bool" where
  "starting (Reading lba ptr RTouch) = True"
| "starting (Writing lba ptr WGet) = True"
| "starting c = False"

definition client_move :: "'w env \<Rightarrow> session \<Rightarrow> nat \<Rightarrow> 'w sys \<Rightarrow> 'w sys" where
  "client_move E S i x =
     (case client_next E S (fl_chan (sy_link x)) (sy_clients x i) (sy_state x) of
        (c, s) \<Rightarrow> x\<lparr>sy_clients := (sy_clients x)(i := c), sy_state := s\<rparr>)"

definition flusher_move :: "'w env \<Rightarrow> session \<Rightarrow> 'w sys \<Rightarrow> 'w sys" where
  "flusher_move E S x =
     (case flusher_next E (ss_fd S) (mp_block_size (cs_pool (sy_state x))) (ss_schedule S) (sy_link x)
             (sy_flusher x) (sy_state x) of
        (f, s) \<Rightarrow> x\<lparr>sy_flusher := f, sy_state := s\<rparr>)"

definition stop_move :: "'w env \<Rightarrow> 'w sys \<Rightarrow> 'w sys" where
  "stop_move E x =
     (case notifier_shutdown E (sy_link x) (cs_world (sy_state x)) of
        (link, w) \<Rightarrow> x\<lparr>sy_link := link, sy_state := (sy_state x)\<lparr>cs_world := w\<rparr>\<rparr>)"

text \<open>
  The steps. An operation may begin while the engine is not being stopped, for a block that
  passed the range check; \<open>stop\<close> needs the engine for itself.
\<close>

inductive sys_step :: "'w env \<Rightarrow> session \<Rightarrow> 'w sys \<Rightarrow> 'w sys \<Rightarrow> bool" for E S where
  call: "sy_clients x i = Idle \<Longrightarrow> starting c \<Longrightarrow> client_lba c < ss_max_lba S \<Longrightarrow> \<not> is_stopped (sy_link x) \<Longrightarrow>
     sys_step E S x (x\<lparr>sy_clients := (sy_clients x)(i := c)\<rparr>)"
| client: "active (sy_clients x i) \<Longrightarrow> sys_step E S x (client_move E S i x)"
| return: "finished (sy_clients x i) \<Longrightarrow> sys_step E S x (x\<lparr>sy_clients := (sy_clients x)(i := Idle)\<rparr>)"
| flusher: "sys_step E S x (flusher_move E S x)"
| stop: "(\<forall>i. sy_clients x i = Idle) \<Longrightarrow> sys_step E S x (stop_move E x)"

section \<open>A thread that runs alone\<close>

primrec client_alone ::
  "'w env \<Rightarrow> session \<Rightarrow> nat \<Rightarrow> nat \<Rightarrow> client_pc \<Rightarrow> 'w cache_state \<Rightarrow> client_pc \<times> 'w cache_state" where
  "client_alone E S chan 0 c s = (c, s)"
| "client_alone E S chan (Suc n) c s = (case client_next E S chan c s of (c', s') \<Rightarrow> client_alone E S chan n c' s')"

definition leads ::
  "'w env \<Rightarrow> session \<Rightarrow> nat \<Rightarrow> nat \<Rightarrow> client_pc \<times> 'w cache_state \<Rightarrow> client_pc \<times> 'w cache_state \<Rightarrow> bool" where
  "leads E S chan k x y \<longleftrightarrow> (\<exists>n \<le> k. client_alone E S chan n (fst x) (snd x) = y)"

lemma leads_refl [simp]: "leads E S chan k x x"
  unfolding leads_def by (rule exI [of _ 0]) simp

lemma leads_step:
  assumes "client_next E S chan c s = z" "leads E S chan k z y"
  shows "leads E S chan (Suc k) (c, s) y"
proof -
  obtain n where "n \<le> k" "client_alone E S chan n (fst z) (snd z) = y" using assms(2) by (auto simp: leads_def)
  then show ?thesis
    unfolding leads_def using assms(1) by (intro exI [of _ "Suc n"]) (simp add: case_prod_unfold)
qed

lemma client_alone_add:
  "client_alone E S chan (m + n) c s =
     (case client_alone E S chan m c s of (c', s') \<Rightarrow> client_alone E S chan n c' s')"
  by (induction m arbitrary: c s) (simp_all add: case_prod_unfold)

lemma leads_trans:
  assumes "leads E S chan j x y" "leads E S chan k y z"
  shows "leads E S chan (j + k) x z"
proof -
  obtain m n where "m \<le> j" "client_alone E S chan m (fst x) (snd x) = y"
    "n \<le> k" "client_alone E S chan n (fst y) (snd y) = z"
    using assms by (auto simp: leads_def)
  then show ?thesis
    unfolding leads_def by (intro exI [of _ "m + n"]) (simp add: client_alone_add case_prod_unfold)
qed

lemma leads_mono: "leads E S chan j x y \<Longrightarrow> j \<le> k \<Longrightarrow> leads E S chan k x y"
  unfolding leads_def using le_trans by blast

text \<open>The allocation, inside whichever operation called it.\<close>

lemma leads_allocate:
  assumes step: "\<And>a s. client_next E S chan (W a) s =
      (case alloc_next E (ss_fd S) chan a s of (Inl a', s') \<Rightarrow> (W a', s') | (Inr r, s') \<Rightarrow> (F r, s'))"
  shows "leads E S chan 6 (W Allocate, s) (apfst F (allocate_or_evict E (ss_fd S) chan s))"
proof -
  note eqs = step alloc_next_def allocate_or_evict_def Let_def
  have last: "leads E S chan 3 (W (Remove c), s) (apfst F (case pool_allocate (pool_deallocate (cs_pool s) (ec_pool_index c)) of
      (r, P) \<Rightarrow> (r, s\<lparr>cs_table := snd (table_remove (cs_table s) (ec_lba c)), cs_pool := P\<rparr>)))" for c s
    unfolding numeral_3_eq_3
    by (rule leads_step [OF refl], simp add: eqs case_prod_unfold)+
  show ?thesis
  proof (cases "pool_allocate (cs_pool s)")
    case (Pair r P)
    show ?thesis
    proof (cases r)
      case Inr
      then show ?thesis
        using Pair leads_step [OF refl leads_refl, of E S chan 5 "W Allocate" s]
        by (simp add: eqs)
    next
      case (Inl e)
      then have one: "leads E S chan 1 (W Allocate, s) (W Select, s)"
        using Pair leads_step [OF refl leads_refl, of E S chan 0 "W Allocate" s] by (simp add: eqs)
      have "leads E S chan 5 (W Select, s) (apfst F (allocate_or_evict E (ss_fd S) chan s))"
      proof (cases "select_eviction_candidate E (cs_table s)")
        case None
        then show ?thesis
          using Pair Inl leads_step [OF refl leads_refl, of E S chan 4 "W Select" s] by (simp add: eqs)
      next
        case (Some c)
        then have two: "client_next E S chan (W Select) s = (W (WriteBack c), s)" by (simp add: eqs)
        obtain r1 s1 where f: "flush_candidate E (ss_fd S) chan c s = (r1, s1)" by fastforce
        have "leads E S chan 4 (W (WriteBack c), s) (apfst F (allocate_or_evict E (ss_fd S) chan s))"
        proof (cases r1)
          case (Inl e1)
          then show ?thesis
            using Pair \<open>r = Inl e\<close> Some f leads_step [OF refl leads_refl, of E S chan 3 "W (WriteBack c)" s]
            by (simp add: eqs)
        next
          case (Inr u)
          then have "client_next E S chan (W (WriteBack c)) s = (W (Remove c), s1)" using f by (simp add: eqs)
          from leads_step [OF this last]
          show ?thesis using Pair \<open>r = Inl e\<close> Some f Inr by (simp add: eqs)
        qed
        from leads_step [OF two this] show ?thesis by simp
      qed
      from leads_trans [OF one this] show ?thesis by simp
    qed
  qed
qed


lemma alloc_keeps_block_size:
  "mp_block_size (cs_pool (snd (allocate_or_evict E fd chan s))) = mp_block_size (cs_pool s)"
  by (auto simp: allocate_or_evict_def flush_candidate_def pool_allocate_def pool_deallocate_def Let_def
      split: option.splits prod.splits sum.splits list.splits if_splits)

lemma read_alone:
  "leads E S chan 10 (Reading lba ptr RTouch, s)
     (case cached_read E lba ptr (ss_fd S) chan s of (r, s') \<Rightarrow> (Reading lba ptr (RDone r), s'))"
proof (cases "table_get (cs_table s) lba")
  case (Some e)
  have "leads E S chan 2 (Reading lba ptr RTouch, s)
     (case cached_read E lba ptr (ss_fd S) chan s of (r, s') \<Rightarrow> (Reading lba ptr (RDone r), s'))"
    unfolding numeral_2_eq_2
    by (rule leads_step [OF refl],
        simp add: client_next_def read_next_def get_and_touch_eq Some cached_read_def Let_def)+
  then show ?thesis by (rule leads_mono) simp
next
  case None
  let ?F = "\<lambda>r. Reading lba ptr (case r of Inl e \<Rightarrow> RDone (Inl e) | Inr (i, b) \<Rightarrow> RFill i b)"
  have "client_next E S chan (Reading lba ptr RTouch) s = (Reading lba ptr (RAlloc Allocate), s)"
    by (simp add: client_next_def read_next_def get_and_touch_eq None)
  moreover have "leads E S chan 6 (Reading lba ptr (RAlloc Allocate), s)
      (apfst ?F (allocate_or_evict E (ss_fd S) chan s))"
    by (rule leads_allocate [of _ _ _ "\<lambda>a. Reading lba ptr (RAlloc a)"])
      (auto simp: client_next_def read_next_def split: prod.splits sum.splits)
  ultimately have alloc: "leads E S chan 7 (Reading lba ptr RTouch, s)
      (apfst ?F (allocate_or_evict E (ss_fd S) chan s))"
    using leads_step [of E S chan "Reading lba ptr RTouch" s _ 6] by simp
  obtain r s' where a: "allocate_or_evict E (ss_fd S) chan s = (r, s')" by fastforce
  have bs: "mp_block_size (cs_pool s') = mp_block_size (cs_pool s)"
    using alloc_keeps_block_size [of E "ss_fd S" chan s] a by simp
  have "leads E S chan 3 (?F r, s')
     (case cached_read E lba ptr (ss_fd S) chan s of (r, s') \<Rightarrow> (Reading lba ptr (RDone r), s'))"
  proof (cases r)
    case (Inl e)
    then show ?thesis by (simp add: cached_read_def get_and_touch_eq None a Let_def)
  next
    case (Inr ib)
    obtain i b q w m where ib: "ib = (i, b)" and q: "read_lba E (ss_fd S) lba (mp_block_size (cs_pool s))
        (bb_ptr b) (unat (bb_size b)) (cs_world s') (cs_mem s') = (q, w, m)"
      by (metis prod.exhaust)
    show ?thesis
      unfolding numeral_3_eq_3 Inr ib
      by (cases q; (rule leads_step [OF refl], simp add: client_next_def read_next_def get_and_touch_eq None
          cached_read_def a Inr ib q bs Let_def case_prod_unfold)+)
  qed
  from leads_trans [OF alloc, unfolded a apfst_conv, OF this] show ?thesis by simp
qed


lemma write_alone:
  "\<exists>y. leads E S chan 10 (Writing lba ptr WGet, s) y \<and>
     (case cached_write E lba ptr (ss_fd S) chan (ss_schedule S) (ss_read_only S) s of
        None \<Rightarrow> fst y = Writing lba ptr WFault
      | Some (r, s') \<Rightarrow> y = (Writing lba ptr (WDone r), s'))"
  (is "\<exists>y. leads E S chan 10 ?x y \<and> ?ok y")
proof (cases "ss_read_only S \<or> table_get (cs_table s) lba \<noteq> None")
  case True
  have "\<exists>y. leads E S chan 4 ?x y \<and> ?ok y"
  proof (cases "ss_read_only S")
    case True
    then have "client_next E S chan (Writing lba ptr WGet) s = (Writing lba ptr (WDone (Inl (config_err read_only_msg))), s)"
      by (simp add: client_next_def write_next_def)
    from leads_step [OF this leads_refl, of 3] show ?thesis using True by (auto simp: cached_write_def)
  next
    case False
    with True obtain e where hit: "\<not> ss_read_only S" "table_get (cs_table s) lba = Some e" by blast
    let ?y = "case cached_write E lba ptr (ss_fd S) chan (ss_schedule S) (ss_read_only S) s of
        None \<Rightarrow> (Writing lba ptr WFault, s) | Some (r, s') \<Rightarrow> (Writing lba ptr (WDone r), s')"
    have "leads E S chan (Suc (Suc (Suc (Suc 0)))) ?x ?y"
      by (cases "fast_copy_nontemporal (bb_ptr (get_block (cs_pool s) (ce_pool_index e))) ptr (bsize s) (cs_mem s)";
        (rule leads_step [OF refl], simp add: client_next_def write_next_def cached_write_def hit Let_def
          case_prod_unfold)+)
    then show ?thesis by (intro exI [of _ ?y]) (simp add: eval_nat_numeral split: option.splits)
  qed
  then obtain y where "leads E S chan 4 ?x y" "?ok y" by blast
  then show ?thesis using leads_mono [of E S chan 4 ?x y 10] by (intro exI [of _ y]) simp
next
  case False
  then have miss: "\<not> ss_read_only S" "table_get (cs_table s) lba = None" by simp_all
  let ?F = "\<lambda>r. Writing lba ptr (case r of Inl e \<Rightarrow> WDone (Inl e) | Inr (i, b) \<Rightarrow> WFill i b)"
  have "client_next E S chan (Writing lba ptr WGet) s = (Writing lba ptr (WAlloc Allocate), s)"
    using False by (simp add: client_next_def write_next_def)
  moreover have "leads E S chan 6 (Writing lba ptr (WAlloc Allocate), s)
      (apfst ?F (allocate_or_evict E (ss_fd S) chan s))"
    by (rule leads_allocate [of _ _ _ "\<lambda>a. Writing lba ptr (WAlloc a)"])
      (auto simp: client_next_def write_next_def split: prod.splits sum.splits)
  ultimately have alloc: "leads E S chan 7 ?x (apfst ?F (allocate_or_evict E (ss_fd S) chan s))"
    using leads_step [of E S chan "Writing lba ptr WGet" s _ 6] by simp
  obtain r s' where a: "allocate_or_evict E (ss_fd S) chan s = (r, s')" by fastforce
  have bs: "mp_block_size (cs_pool s') = mp_block_size (cs_pool s)"
    using alloc_keeps_block_size [of E "ss_fd S" chan s] a by simp
  have "\<exists>y. leads E S chan 3 (?F r, s') y \<and> ?ok y"
  proof (cases r)
    case (Inl e)
    then show ?thesis using False by (simp add: cached_write_def a Let_def)
  next
    case (Inr ib)
    obtain i b where ib: "ib = (i, b)" by fastforce
    let ?y = "case cached_write E lba ptr (ss_fd S) chan (ss_schedule S) (ss_read_only S) s of
        None \<Rightarrow> (Writing lba ptr WFault, s') | Some (r, s') \<Rightarrow> (Writing lba ptr (WDone r), s')"
    have "leads E S chan 3 (?F r, s') ?y"
      unfolding numeral_3_eq_3 Inr ib
      by (cases "fast_copy_nontemporal (bb_ptr b) ptr (bsize s) (cs_mem s')";
        (rule leads_step [OF refl], simp add: client_next_def write_next_def cached_write_def miss a Inr ib bs Let_def
          case_prod_unfold table_insert_def)+)
    then show ?thesis by (intro exI [of _ ?y]) (simp split: option.splits)
  qed
  then obtain y where "leads E S chan 3 (?F r, s') y" "?ok y" by blast
  then show ?thesis
    using leads_trans [OF alloc, unfolded a apfst_conv, of 3 y] by (intro exI [of _ y]) simp
qed


text \<open>The flush thread alone: one iteration of its loop, from one wait to the next.\<close>

primrec flusher_alone ::
  "'w env \<Rightarrow> i32 \<Rightarrow> usize \<Rightarrow> flush_schedule \<Rightarrow> flush_link \<Rightarrow> nat \<Rightarrow> flusher_pc \<Rightarrow> 'w cache_state \<Rightarrow>
   flusher_pc \<times> 'w cache_state" where
  "flusher_alone E fd bs sch link 0 f s = (f, s)"
| "flusher_alone E fd bs sch link (Suc n) f s =
     (case flusher_next E fd bs sch link f s of (f', s') \<Rightarrow> flusher_alone E fd bs sch link n f' s')"

lemma flusher_alone_add:
  "flusher_alone E fd bs sch link (m + n) f s =
     (case flusher_alone E fd bs sch link m f s of (f', s') \<Rightarrow> flusher_alone E fd bs sch link n f' s')"
  by (induction m arbitrary: f s) (simp_all add: case_prod_unfold)

lemma flusher_loop_alone:
  "\<exists>n. flusher_alone E fd bs sch link n (FWrite ds k sig) s =
     (case flush_loop E fd bs ds k s of (k', s') \<Rightarrow> (FWrite [] k' sig, s'))"
proof (induction ds arbitrary: k s)
  case Nil
  show ?case by (rule exI [of _ 0]) simp
next
  case (Cons d ds)
  obtain q w where q: "write_lba E fd (fst d) bs (block_buffer_as_ref (get_block (cs_pool s) (snd d)) (cs_mem s))
      (cs_world s) = (q, w)" by fastforce
  define k' where "k' = (if isl q then k else k + 1)"
  define s' where "s' = snd (flush_entry E fd bs d s)"
  define m where "m = (if isl q then 1 else 2 :: nat)"
  have head: "flusher_alone E fd bs sch link m (FWrite (d # ds) k sig) s = (FWrite ds k' sig, s')"
    by (cases q) (simp_all add: m_def k'_def s'_def flush_entry_def q numeral_2_eq_2)
  from Cons.IH [of k' s'] obtain n where
    "flusher_alone E fd bs sch link n (FWrite ds k' sig) s' = (case flush_loop E fd bs ds k' s' of (k', s') \<Rightarrow> (FWrite [] k' sig, s'))"
    by blast
  moreover have "flush_loop E fd bs (d # ds) k s = flush_loop E fd bs ds k' s'"
    by (cases q) (simp_all add: k'_def s'_def flush_entry_def q)
  ultimately show ?case
    using head by (intro exI [of _ "m + n"]) (simp add: flusher_alone_add)
qed

lemma flusher_cycle_alone:
  "\<exists>n. flusher_alone E fd bs sch link n FWait s =
     (case flush_iteration E fd bs sch link s of (halt, s') \<Rightarrow> (if halt then FExit else FWait, s'))"
proof -
  obtain sig w where w: "receiver_wait E (fl_chan link) (fs_interval sch) (cs_world s) = (sig, w)" by fastforce
  let ?s = "s\<lparr>cs_world := w\<rparr>"
  obtain k s1 where k: "flush_loop E fd bs (dirty_entries E (cs_table s)) 0 ?s = (k, s1)" by fastforce
  have fdb: "flush_dirty_blocks E fd bs ?s = (k, s1)"
    using k by (auto simp: flush_dirty_blocks_def Let_def)
  from flusher_loop_alone [of E fd bs sch link "dirty_entries E (cs_table s)" 0 sig ?s] obtain n where
    n: "flusher_alone E fd bs sch link n (FWrite (dirty_entries E (cs_table s)) 0 sig) ?s = (FWrite [] k sig, s1)"
    using k by auto
  have tail: "flusher_alone E fd bs sch link (if 0 < k then 3 else 2) (FWrite [] k sig) s1 =
      (case flush_iteration E fd bs sch link s of (halt, s') \<Rightarrow> (if halt then FExit else FWait, s'))"
    by (simp add: flush_iteration_def w fdb eval_nat_numeral)
  have "flusher_alone E fd bs sch link (2 + n + (if 0 < k then 3 else 2)) FWait s =
      (case flush_iteration E fd bs sch link s of (halt, s') \<Rightarrow> (if halt then FExit else FWait, s'))"
    unfolding flusher_alone_add using tail n w by (simp add: numeral_2_eq_2)
  then show ?thesis by blast
qed

section \<open>Ownership of slots\<close>

definition owner :: "'w cache_state \<Rightarrow> u64 \<Rightarrow> usize option" where
  "owner s lba = map_option ce_pool_index (cached s lba)"

lemma owner_simps [simp]:
  "owner (s\<lparr>cs_world := w\<rparr>) = owner s" "owner (s\<lparr>cs_mem := m\<rparr>) = owner s" "owner (s\<lparr>cs_pool := P\<rparr>) = owner s"
  "owner (s\<lparr>cs_table := snd (table_insert (cs_table s) lba e)\<rparr>) = (owner s)(lba \<mapsto> ce_pool_index e)"
  "owner (s\<lparr>cs_table := snd (table_remove (cs_table s) lba)\<rparr>) = (owner s)(lba := None)"
  by (auto simp: owner_def fun_eq_iff)

lemma owner_Some: "owner s l = Some i \<longleftrightarrow> (\<exists>e. cached s l = Some e \<and> ce_pool_index e = i)"
  by (auto simp: owner_def)

lemma owner_None: "owner s l = None \<longleftrightarrow> cached s l = None"
  by (simp add: owner_def)

lemma struct_inv_owner:
  "struct_inv s \<longleftrightarrow> pool_inv (cs_pool s) \<and> table_inv (cs_table s) \<and>
     (\<forall>l l' i. owner s l = Some i \<and> owner s l' = Some i \<longrightarrow> l = l') \<and>
     (\<forall>l i. owner s l = Some i \<longrightarrow> i < mp_capacity (cs_pool s) \<and> i \<notin> pool_free (cs_pool s) \<and> lba_fits (bsize s) l)"
proof -
  have "slots_unique (cs_table s) \<longleftrightarrow> (\<forall>l l' i. owner s l = Some i \<and> owner s l' = Some i \<longrightarrow> l = l')"
    unfolding slots_unique_def owner_Some by blast
  moreover have "(\<forall>l e. cached s l = Some e \<longrightarrow> entry_ok (cs_pool s) l e) \<longleftrightarrow>
     (\<forall>l i. owner s l = Some i \<longrightarrow> i < mp_capacity (cs_pool s) \<and> i \<notin> pool_free (cs_pool s) \<and> lba_fits (bsize s) l)"
    unfolding entry_ok_def owner_Some by blast
  ultimately show ?thesis unfolding struct_inv_def by simp
qed

lemma in_hand_owner:
  "in_hand s i \<longleftrightarrow> i < mp_capacity (cs_pool s) \<and> i \<notin> pool_free (cs_pool s) \<and> (\<forall>l. owner s l \<noteq> Some i)"
  by (auto simp: in_hand_def owner_def)


text \<open>\<open>s'\<close> has the pool and the owners of \<open>s\<close>: what the flush thread and the world may change.\<close>

definition same_slots :: "'w cache_state \<Rightarrow> 'w cache_state \<Rightarrow> bool" where
  "same_slots s s' \<longleftrightarrow> cs_pool s' = cs_pool s \<and> owner s' = owner s \<and> (table_inv (cs_table s) \<longrightarrow> table_inv (cs_table s'))"

lemma same_slots_struct: "same_slots s s' \<Longrightarrow> struct_inv s \<Longrightarrow> struct_inv s'"
  by (simp add: same_slots_def struct_inv_owner)

lemma same_slots_in_hand: "same_slots s s' \<Longrightarrow> in_hand s' = in_hand s"
  by (simp add: same_slots_def in_hand_owner fun_eq_iff)

lemma same_slots_simple [simp]: "same_slots s s" "same_slots s (s\<lparr>cs_world := w\<rparr>)" "same_slots s (s\<lparr>cs_mem := m\<rparr>)"
  "same_slots s (s\<lparr>cs_world := w, cs_mem := m\<rparr>)"
  by (simp_all add: same_slots_def)

lemma same_slots_insert:
  assumes "cached s lba = Some e" "ce_pool_index e' = ce_pool_index e" "ce_lba e' = lba"
  shows "same_slots s (s\<lparr>cs_table := snd (table_insert (cs_table s) lba e')\<rparr>)"
  using assms lt.inv_put [of "cs_table s" e' lba] by (auto simp: same_slots_def owner_def fun_eq_iff)

definition slot_block :: "'w cache_state \<Rightarrow> usize \<Rightarrow> block_buffer" where
  "slot_block s i = \<lparr>bb_ptr = block_addr (cs_pool s) i, bb_size = mp_block_size (cs_pool s)\<rparr>"

fun alloc_ok_at :: "'w cache_state \<Rightarrow> alloc_pc \<Rightarrow> bool" where
  "alloc_ok_at s (WriteBack c) = (owner s (ec_lba c) = Some (ec_pool_index c))"
| "alloc_ok_at s (Remove c) = (owner s (ec_lba c) = Some (ec_pool_index c))"
| "alloc_ok_at s (Deallocate c) = in_hand s (ec_pool_index c)"
| "alloc_ok_at s a = True"

fun read_ok_at :: "'w cache_state \<Rightarrow> u64 \<Rightarrow> read_pc \<Rightarrow> bool" where
  "read_ok_at s lba (RHit i) = (owner s lba = Some i)"
| "read_ok_at s lba (RAlloc a) = (owner s lba = None \<and> alloc_ok_at s a)"
| "read_ok_at s lba (RFill i b) = (owner s lba = None \<and> in_hand s i \<and> b = slot_block s i)"
| "read_ok_at s lba (RInsert i b) = (owner s lba = None \<and> in_hand s i \<and> b = slot_block s i)"
| "read_ok_at s lba (RCopy b) = (\<exists>i. owner s lba = Some i \<and> b = slot_block s i)"
| "read_ok_at s lba pc = True"

fun write_ok_at :: "'w cache_state \<Rightarrow> u64 \<Rightarrow> write_pc \<Rightarrow> bool" where
  "write_ok_at s lba (WUpdate i) = (owner s lba = Some i)"
| "write_ok_at s lba WMark = (owner s lba \<noteq> None)"
| "write_ok_at s lba (WAlloc a) = (owner s lba = None \<and> alloc_ok_at s a)"
| "write_ok_at s lba (WFill i b) = (owner s lba = None \<and> in_hand s i \<and> b = slot_block s i)"
| "write_ok_at s lba (WInsert i) = (owner s lba = None \<and> in_hand s i)"
| "write_ok_at s lba (WWake u) = (owner s lba \<noteq> None)"
| "write_ok_at s lba pc = True"

fun client_ok_at :: "'w cache_state \<Rightarrow> client_pc \<Rightarrow> bool" where
  "client_ok_at s Idle = True"
| "client_ok_at s (Reading lba ptr pc) = (lba_fits (bsize s) lba \<and> read_ok_at s lba pc)"
| "client_ok_at s (Writing lba ptr pc) = (lba_fits (bsize s) lba \<and> write_ok_at s lba pc)"

lemma slot_block_pool: "cs_pool s' = cs_pool s \<Longrightarrow> slot_block s' = slot_block s"
  by (simp add: slot_block_def fun_eq_iff)

lemma same_slots_client:
  assumes "same_slots s s'"
  shows "client_ok_at s' c = client_ok_at s c"
proof -
  have eqs: "cs_pool s' = cs_pool s" "owner s' = owner s" "in_hand s' = in_hand s" "slot_block s' = slot_block s"
    using assms same_slots_in_hand [OF assms] slot_block_pool [of s' s] by (simp_all add: same_slots_def)
  have a: "alloc_ok_at s' a = alloc_ok_at s a" for a by (cases a) (simp_all add: eqs)
  have "read_ok_at s' l r = read_ok_at s l r" "write_ok_at s' l v = write_ok_at s l v" for l r v
    by (cases r; simp add: eqs a) (cases v; simp add: eqs a)
  then show ?thesis by (cases c) (simp_all add: eqs)
qed

lemma flusher_same_slots: "same_slots s (snd (flusher_next E fd bs sch link f s))"
proof -
  have "same_slots s (s\<lparr>cs_table := table_mark_clean (cs_table s) lba\<rparr>)" if "table_inv (cs_table s)" for lba
  proof (cases "cached s lba")
    case (Some e)
    then show ?thesis
      using same_slots_insert [of s lba e "entry_mark_clean e"] table_inv_get [OF that Some]
      by (simp add: table_mark_clean_eq)
  qed (simp add: table_mark_clean_eq same_slots_def)
  moreover have "owner (s\<lparr>cs_table := table_mark_clean (cs_table s) lba\<rparr>) = owner s" for lba
    by (auto simp: owner_def fun_eq_iff table_mark_clean_eq split: option.splits)
  ultimately have "same_slots s (s\<lparr>cs_table := table_mark_clean (cs_table s) lba\<rparr>)" for lba
    by (auto simp: same_slots_def)
  then show ?thesis
    by (cases "(E, fd, bs, sch, link, f, s)" rule: flusher_next.cases) (auto split: prod.splits sum.splits)
qed


text \<open>The allocation keeps the structure and hands out slots nobody owns.\<close>

definition alloc_step_ok :: "'w cache_state \<Rightarrow> (alloc_pc + (usize \<times> block_buffer) cache_result) \<Rightarrow> 'w cache_state \<Rightarrow> bool" where
  "alloc_step_ok s r s' \<longleftrightarrow> struct_inv s' \<and> same_geometry s s' \<and> (\<forall>l. owner s l = None \<longrightarrow> owner s' l = None) \<and>
     (case r of
        Inl a \<Rightarrow> alloc_ok_at s' a
      | Inr (Inl e) \<Rightarrow> True
      | Inr (Inr (i, b)) \<Rightarrow> in_hand s' i \<and> b = slot_block s' i)"

lemma pool_take_struct:
  assumes "struct_inv s" "mp_free_list (cs_pool s) = fl @ [i]"
  defines "s' \<equiv> s\<lparr>cs_pool := (cs_pool s)\<lparr>mp_free_list := fl\<rparr>\<rparr>"
  shows "struct_inv s'" "in_hand s' i" "same_geometry s s'" "slot_block s' = slot_block s"
proof -
  have pool: "pool_inv (cs_pool s)" "pool_free (cs_pool s) = set (fl @ [i])"
    using assms(1,2) by (simp_all add: struct_inv_def pool_free_def)
  then have pool': "pool_inv ((cs_pool s)\<lparr>mp_free_list := fl\<rparr>)" "i < mp_capacity (cs_pool s)" "i \<notin> set fl"
    using assms(2) by (simp_all add: pool_inv_def)
  have free: "owner s l = Some j \<Longrightarrow> j \<notin> set (fl @ [i])" for l j
    using assms(1) pool(2) unfolding struct_inv_owner by simp
  show "struct_inv s'"
    using assms(1) pool'(1) free unfolding struct_inv_owner s'_def by auto
  show "in_hand s' i"
    using pool'(2,3) free by (auto simp: in_hand_owner s'_def)
  show "same_geometry s s'" "slot_block s' = slot_block s"
    by (auto simp: s'_def same_geometry_def slot_block_def block_addr_def fun_eq_iff)
qed

lemma flush_candidate_same_slots: "same_slots s (snd (flush_candidate E fd chan c s))"
  by (auto simp: flush_candidate_def Let_def split: prod.splits sum.splits)

lemma same_slots_geometry: "same_slots s s' \<Longrightarrow> same_geometry s s'"
  by (simp add: same_slots_def same_geometry_refl)

lemma alloc_step_same:
  assumes "struct_inv s" "same_slots s s'" "\<And>a. r = Inl a \<Longrightarrow> alloc_ok_at s' a" "\<And>x. r \<noteq> Inr (Inr x)"
  shows "alloc_step_ok s r s'"
  using assms same_slots_struct [OF assms(2,1)] same_slots_geometry [OF assms(2)]
  by (auto simp: alloc_step_ok_def same_slots_def split: sum.splits)

lemma alloc_step_take:
  assumes inv: "struct_inv s" and run: "alloc_next E fd chan a s = (r, s')" and a: "a = Allocate \<or> a = Reallocate"
  shows "alloc_step_ok s r s'"
  using struct_invD(1) [OF inv]
proof (cases rule: pool_allocate_cases)
  case (slot i fl)
  then have "r = Inr (Inr (i, slot_block s i))" "s' = s\<lparr>cs_pool := (cs_pool s)\<lparr>mp_free_list := fl\<rparr>\<rparr>"
    using run a by (auto simp: alloc_next_def slot_block_def)
  then show ?thesis using pool_take_struct [OF inv slot(1)] by (simp add: alloc_step_ok_def)
next
  case full
  then have "s' = s" "r = Inl Select \<or> (\<exists>e. r = Inr (Inl e))"
    using run a by (auto simp: alloc_next_def)
  then show ?thesis by (intro alloc_step_same [OF inv]) auto
qed

lemma alloc_step_remove:
  assumes inv: "struct_inv s" and ok: "owner s (ec_lba c) = Some (ec_pool_index c)"
  shows "alloc_step_ok s (Inl (Deallocate c)) (s\<lparr>cs_table := snd (table_remove (cs_table s) (ec_lba c))\<rparr>)"
  using inv ok lt.inv_del [OF struct_invD(3) [OF inv]]
  by (auto simp: alloc_step_ok_def struct_inv_owner in_hand_owner)

lemma alloc_step_deallocate:
  assumes inv: "struct_inv s" and ok: "in_hand s (ec_pool_index c)"
  shows "alloc_step_ok s (Inl Reallocate) (s\<lparr>cs_pool := pool_deallocate (cs_pool s) (ec_pool_index c)\<rparr>)"
  using inv ok
  by (auto simp: alloc_step_ok_def struct_inv_owner in_hand_owner pool_deallocate_def pool_inv_def pool_free_def
      same_geometry_def pool_shape_def pool_size_def)

lemma alloc_step:
  assumes hash: "hash_ok E" and inv: "struct_inv s" and ok: "alloc_ok_at s a"
    and run: "alloc_next E fd chan a s = (r, s')"
  shows "alloc_step_ok s r s'"
proof (cases a)
  case Select
  show ?thesis
  proof (cases "select_eviction_candidate E (cs_table s)")
    case None
    then show ?thesis using run Select by (intro alloc_step_same [OF inv]) (auto simp: alloc_next_def)
  next
    case (Some c)
    from select_Some_entry [OF hash struct_invD(3) [OF inv] Some] have "owner s (ec_lba c) = Some (ec_pool_index c)"
      by (metis owner_Some)
    then show ?thesis using run Select Some by (intro alloc_step_same [OF inv]) (auto simp: alloc_next_def)
  qed
next
  case (WriteBack c)
  obtain q where q: "flush_candidate E fd chan c s = (q, s')"
    using run WriteBack by (auto simp: alloc_next_def split: prod.splits sum.splits)
  then have same: "same_slots s s'" using flush_candidate_same_slots [of s E fd chan c] by simp
  then show ?thesis
    using run WriteBack ok q
    by (intro alloc_step_same [OF inv]) (auto simp: alloc_next_def same_slots_def split: sum.splits)
next
  case (Remove c)
  then show ?thesis using run ok alloc_step_remove [OF inv, of c] by (simp add: alloc_next_def)
next
  case (Deallocate c)
  then show ?thesis using run ok alloc_step_deallocate [OF inv, of c] by (simp add: alloc_next_def)
qed (use alloc_step_take [OF inv run] in blast)+


text \<open>One step of a client keeps the structure and its own claims on slots.\<close>

lemma insert_struct:
  assumes "struct_inv s" "in_hand s (ce_pool_index e)" "owner s lba = None" "ce_lba e = lba" "lba_fits (bsize s) lba"
  shows "struct_inv (s\<lparr>cs_table := snd (table_insert (cs_table s) lba e)\<rparr>)"
  using assms lt.inv_put [OF struct_invD(3) [OF assms(1)] assms(4)]
  by (auto simp: struct_inv_owner in_hand_owner)

lemma step_same:
  assumes "struct_inv s" "same_slots s s'" "client_ok_at s c'"
  shows "struct_inv s' \<and> same_geometry s s' \<and> client_ok_at s' c'"
  using assms same_slots_struct same_slots_geometry same_slots_client by blast

lemma alloc_step_client:
  assumes "alloc_step_ok s r s'" "lba_fits (bsize s) lba" "owner s lba = None"
  shows "struct_inv s'" "same_geometry s s'" "lba_fits (bsize s') lba" "owner s' lba = None"
    "r = Inl a \<Longrightarrow> alloc_ok_at s' a" "r = Inr (Inr (i, b)) \<Longrightarrow> in_hand s' i \<and> b = slot_block s' i"
  using assms same_geometryD(1) [of s s'] by (auto simp: alloc_step_ok_def)

lemma same_slots_touch:
  assumes "struct_inv s" "cached s lba = Some e" "ce_pool_index e' = ce_pool_index e" "ce_lba e' = ce_lba e"
  shows "same_slots s (s\<lparr>cs_table := snd (table_insert (cs_table s) lba e'), cs_world := w\<rparr>)"
  using same_slots_insert [OF assms(2,3)] table_inv_get [OF struct_invD(3) [OF assms(1)] assms(2)] assms(4)
  by (simp add: same_slots_def)

lemma insert_step:
  fixes w
  assumes "struct_inv s" "in_hand s i" "owner s lba = None" "lba_fits (bsize s) lba" "ce_lba e = lba" "ce_pool_index e = i"
  defines "s' \<equiv> s\<lparr>cs_table := snd (table_insert (cs_table s) lba e), cs_world := w\<rparr>"
  shows "struct_inv s'" "same_geometry s s'" "owner s' lba = Some i" "slot_block s' = slot_block s" "bsize s' = bsize s"
proof -
  have "struct_inv (s\<lparr>cs_table := snd (table_insert (cs_table s) lba e)\<rparr>)"
    using assms by (intro insert_struct) simp_all
  then show "struct_inv s'" by (simp add: s'_def)
  have "owner s' = (owner s)(lba \<mapsto> ce_pool_index e)"
    by (simp add: s'_def)
  then show "owner s' lba = Some i" by (simp add: assms(6))
qed (simp_all add: s'_def slot_block_def fun_eq_iff same_geometry_refl)

lemma read_step:
  assumes hash: "hash_ok E" and inv: "struct_inv s" and ok: "client_ok_at s (Reading lba ptr pc)"
    and run: "read_next E fd chan lba ptr pc s = (pc', s')"
  shows "struct_inv s' \<and> same_geometry s s' \<and> client_ok_at s' (Reading lba ptr pc')"
proof (cases pc)
  case RTouch
  show ?thesis
  proof (cases "cached s lba")
    case None
    then show ?thesis
      using run RTouch inv ok by (auto simp: read_next_def get_and_touch_eq owner_None)
  next
    case (Some e)
    then have "s' = s\<lparr>cs_table := snd (table_insert (cs_table s) lba (fst (entry_touch E e (cs_world s)))),
        cs_world := snd (env_now E (cs_world s))\<rparr>" "pc' = RHit (ce_pool_index e)"
      using run RTouch by (simp_all add: read_next_def get_and_touch_eq)
    then show ?thesis
      unfolding \<open>s' = _\<close> using ok Some
      by (intro step_same [OF inv] same_slots_touch [OF inv Some]) (simp_all add: owner_Some)
  qed
next
  case (RAlloc a)
  obtain r where a: "alloc_next E fd chan a s = (r, s')"
    using run RAlloc by (auto simp: read_next_def split: prod.splits sum.splits)
  have "lba_fits (bsize s) lba" "owner s lba = None" "alloc_ok_at s a" using ok RAlloc by simp_all
  note p = alloc_step_client [OF alloc_step [OF hash inv this(3) a] this(1,2)]
  have "pc' = (case r of Inl a' \<Rightarrow> RAlloc a' | Inr (Inl e) \<Rightarrow> RDone (Inl e) | Inr (Inr (i, b)) \<Rightarrow> RFill i b)"
    using run RAlloc a by (auto simp: read_next_def split: sum.splits prod.splits)
  then show ?thesis using p by (auto split: sum.splits prod.splits)
next
  case (RFill i b)
  then show ?thesis
    using run ok by (intro step_same [OF inv]) (auto simp: read_next_def split: prod.splits sum.splits)
next
  case (RInsert i b)
  then have "in_hand s i" "owner s lba = None" "lba_fits (bsize s) lba" "b = slot_block s i" using ok by simp_all
  moreover have "s' = s\<lparr>cs_table := snd (table_insert (cs_table s) lba (fst (entry_new E lba i (cs_world s)))),
      cs_world := snd (env_now E (cs_world s))\<rparr>" "pc' = RCopy b"
    using run RInsert by (auto simp: read_next_def case_prod_unfold)
  ultimately show ?thesis
    using insert_step [OF inv, of i lba "fst (entry_new E lba i (cs_world s))"] by simp
next
  case (RHit i)
  then show ?thesis using run ok by (intro step_same [OF inv]) (auto simp: read_next_def)
next
  case (RCopy b)
  then show ?thesis using run ok by (intro step_same [OF inv]) (auto simp: read_next_def)
next
  case (RDone r)
  then show ?thesis using run ok by (intro step_same [OF inv]) (auto simp: read_next_def)
qed

lemma write_step:
  assumes hash: "hash_ok E" and inv: "struct_inv s" and ok: "client_ok_at s (Writing lba ptr pc)"
    and run: "write_next E fd chan sch ro lba ptr pc s = (pc', s')"
  shows "struct_inv s' \<and> same_geometry s s' \<and> client_ok_at s' (Writing lba ptr pc')"
proof (cases pc)
  case WGet
  then show ?thesis
    using run inv ok by (auto simp: write_next_def owner_Some owner_None split: option.splits if_splits)
next
  case WMark
  then obtain e where e: "cached s lba = Some e" using ok by (auto simp: owner_def)
  then have "s' = s\<lparr>cs_table := snd (table_insert (cs_table s) lba (fst (entry_mark_dirty E e (cs_world s)))),
      cs_world := snd (env_now E (cs_world s))\<rparr>" "pc' = WWake True"
    using run WMark by (simp_all add: write_next_def table_mark_dirty_eq)
  then show ?thesis
    unfolding \<open>s' = _\<close> using ok e
    by (intro step_same [OF inv] same_slots_touch [OF inv e]) (simp_all add: owner_def)
next
  case (WAlloc a)
  obtain r where a: "alloc_next E fd chan a s = (r, s')"
    using run WAlloc by (auto simp: write_next_def split: prod.splits sum.splits)
  have "lba_fits (bsize s) lba" "owner s lba = None" "alloc_ok_at s a" using ok WAlloc by simp_all
  note p = alloc_step_client [OF alloc_step [OF hash inv this(3) a] this(1,2)]
  have "pc' = (case r of Inl a' \<Rightarrow> WAlloc a' | Inr (Inl e) \<Rightarrow> WDone (Inl e) | Inr (Inr (i, b)) \<Rightarrow> WFill i b)"
    using run WAlloc a by (auto simp: write_next_def split: sum.splits prod.splits)
  then show ?thesis using p by (auto split: sum.splits prod.splits)
next
  case (WInsert i)
  then have "in_hand s i" "owner s lba = None" "lba_fits (bsize s) lba" using ok by simp_all
  moreover define e where "e = fst (entry_mark_dirty E (fst (entry_new E lba i (cs_world s))) (snd (env_now E (cs_world s))))"
  moreover have "\<exists>w. s' = s\<lparr>cs_table := snd (table_insert (cs_table s) lba e), cs_world := w\<rparr>" "pc' = WWake False"
    using run WInsert by (auto simp: write_next_def case_prod_unfold e_def)
  ultimately show ?thesis
    using insert_step [OF inv, of i lba e] by (auto simp: e_def)
next
  case (WUpdate i)
  then show ?thesis
    using run ok by (intro step_same [OF inv]) (auto simp: write_next_def split: option.splits)
next
  case (WFill i b)
  then show ?thesis
    using run ok by (intro step_same [OF inv]) (auto simp: write_next_def split: option.splits)
next
  case (WWake u)
  then show ?thesis using run ok by (intro step_same [OF inv]) (auto simp: write_next_def)
next
  case (WDone r)
  then show ?thesis using run ok by (intro step_same [OF inv]) (auto simp: write_next_def)
next
  case WFault
  then show ?thesis using run ok by (intro step_same [OF inv]) (auto simp: write_next_def)
qed

lemma client_step:
  assumes "hash_ok E" "struct_inv s" "client_ok_at s c" "client_next E S chan c s = (c', s')"
  shows "struct_inv s' \<and> same_geometry s s' \<and> client_ok_at s' c'"
proof (cases c)
  case Idle
  then show ?thesis using assms by (auto simp: client_next_def)
next
  case (Reading lba ptr pc)
  then show ?thesis
    using assms(3,4) read_step [OF assms(1,2), of lba ptr pc]
    by (auto simp: client_next_def apfst_def map_prod_def split: prod.splits simp del: client_ok_at.simps)
next
  case (Writing lba ptr pc)
  then show ?thesis
    using assms(3,4) write_step [OF assms(1,2), of lba ptr pc]
    by (auto simp: client_next_def apfst_def map_prod_def split: prod.splits simp del: client_ok_at.simps)
qed


section \<open>One client at a time\<close>

definition solo :: "'w sys \<Rightarrow> bool" where
  "solo x \<longleftrightarrow> (\<forall>i j. sy_clients x i \<noteq> Idle \<and> sy_clients x j \<noteq> Idle \<longrightarrow> i = j)"

text \<open>The executions in which no two client operations overlap; the flush thread runs at any time.\<close>

inductive serial_reach :: "'w env \<Rightarrow> session \<Rightarrow> 'w sys \<Rightarrow> 'w sys \<Rightarrow> bool" for E S x where
  start: "serial_reach E S x x"
| step: "serial_reach E S x y \<Longrightarrow> sys_step E S y z \<Longrightarrow> solo z \<Longrightarrow> serial_reach E S x z"

definition sys_inv :: "session \<Rightarrow> 'w sys \<Rightarrow> bool" where
  "sys_inv S x \<longleftrightarrow> struct_inv (sy_state x) \<and> (\<forall>i. client_ok_at (sy_state x) (sy_clients x i)) \<and>
     (\<forall>lba < ss_max_lba S. lba_fits (bsize (sy_state x)) lba)"

definition quiet_start :: "'w cache_state \<Rightarrow> flush_link \<Rightarrow> 'w sys" where
  "quiet_start s link = \<lparr>sy_state = s, sy_clients = (\<lambda>_. Idle), sy_flusher = FWait, sy_link = link\<rparr>"

lemma starting_ok: "starting c \<Longrightarrow> lba_fits (bsize s) (client_lba c) \<Longrightarrow> client_ok_at s c"
  by (cases c rule: starting.cases) simp_all

lemma sys_inv_same:
  assumes "sys_inv S x" "same_slots (sy_state x) (sy_state y)" "sy_clients y = sy_clients x"
  shows "sys_inv S y"
  using assms same_slots_struct [OF assms(2)] same_slots_client [OF assms(2)]
  by (simp add: sys_inv_def same_slots_def)

end
