(* ===== verification/Races.thy ===== *)
theory Races
  imports Interleave
begin

text \<open>
  Schedules of the threads of a running engine (\<open>Interleave\<close>) that the code does not exclude
  and in which data is lost. They are stated for every cache state of a given shape and every
  environment whose device works, so they are not accidents of one run: each theorem gives a
  schedule the threads can follow and what has become of the data at its end.
\<close>

section \<open>Schedules with one client\<close>

definition one_client :: "'w cache_state \<Rightarrow> client_pc \<Rightarrow> flusher_pc \<Rightarrow> flush_link \<Rightarrow> 'w sys" where
  "one_client s c f link = \<lparr>sy_state = s, sy_clients = (\<lambda>_. Idle)(0 := c), sy_flusher = f, sy_link = link\<rparr>"

lemma one_client_solo [simp]: "solo (one_client s c f link)"
  by (auto simp: solo_def one_client_def)

lemma quiet_start_one: "quiet_start s link = one_client s Idle FWait link"
  by (auto simp: quiet_start_def one_client_def fun_eq_iff)

lemma reach_call:
  assumes "serial_reach E S x (one_client s Idle f link)" "starting c" "client_lba c < ss_max_lba S" "\<not> is_stopped link"
  shows "serial_reach E S x (one_client s c f link)"
  using serial_reach.step [OF assms(1) sys_step.call [of _ 0 c]] assms(2-4)
  by (simp add: one_client_def solo_def)

lemma reach_flusher:
  assumes "serial_reach E S x (one_client s c f link)"
    "flusher_next E (ss_fd S) (mp_block_size (cs_pool s)) (ss_schedule S) link f s = (f', s')"
  shows "serial_reach E S x (one_client s' c f' link)"
  using serial_reach.step [OF assms(1) sys_step.flusher] assms(2)
  by (simp add: one_client_def flusher_move_def solo_def)

lemma reach_client:
  assumes "serial_reach E S x (one_client s c f link)" "client_next E S (fl_chan link) c s = (c', s')"
  shows "serial_reach E S x (one_client s' c' f link)"
proof (cases "active c")
  case True
  then show ?thesis
    using serial_reach.step [OF assms(1) sys_step.client [of _ 0]] assms(2)
    by (simp add: one_client_def client_move_def solo_def)
next
  case False
  then have "client_next E S (fl_chan link) c s = (c, s)"
    by (cases c rule: active.cases) (simp_all add: client_next_def read_next_def write_next_def)
  then show ?thesis using assms by simp
qed

lemma reach_run:
  assumes "serial_reach E S x (one_client s c f link)" "leads E S (fl_chan link) k (c, s) (c', s')"
  shows "serial_reach E S x (one_client s' c' f link)"
proof -
  have "serial_reach E S x (one_client s' c' f link)"
    if "serial_reach E S x (one_client s c f link)" "client_alone E S (fl_chan link) n c s = (c', s')" for n c s
    using that
  proof (induction n arbitrary: c s)
    case (Suc n)
    obtain c1 s1 where n: "client_next E S (fl_chan link) c s = (c1, s1)" by fastforce
    from reach_client [OF Suc.prems(1) n] Suc show ?case by (simp add: n)
  qed simp
  with assms show ?thesis by (auto simp: leads_def)
qed

lemma reach_return:
  assumes "serial_reach E S x (one_client s c f link)" "finished c"
  shows "serial_reach E S x (one_client s Idle f link)"
  using serial_reach.step [OF assms(1) sys_step.return [of _ 0]] assms(2)
  by (simp add: one_client_def solo_def)

lemma reach_stop:
  assumes "serial_reach E S x (one_client s Idle f link)"
  shows "serial_reach E S x (one_client (s\<lparr>cs_world := env_try_send E (fl_chan link) Shutdown (cs_world s)\<rparr>) Idle f
      (link\<lparr>fl_stop := True\<rparr>))"
  using serial_reach.step [OF assms sys_step.stop]
  by (simp add: one_client_def stop_move_def solo_def notifier_shutdown_def)

text \<open>The flush thread wakes up and takes its list of dirty entries.\<close>

lemma reach_snapshot:
  assumes "quiet_ok E disk"
  obtains w sig where "disk w = disk (cs_world s)"
    "serial_reach E S (quiet_start s link)
       (one_client (s\<lparr>cs_world := w\<rparr>) Idle (FWrite (dirty_entries E (cs_table s)) 0 sig) link)"
proof -
  obtain sig w where r: "receiver_wait E (fl_chan link) (fs_interval (ss_schedule S)) (cs_world s) = (sig, w)" by fastforce
  have "disk w = disk (cs_world s)"
    using receiver_wait_disk [OF assms, of "fl_chan link" "fs_interval (ss_schedule S)" "cs_world s"] r by simp
  moreover have "serial_reach E S (quiet_start s link) (one_client (s\<lparr>cs_world := w\<rparr>) Idle (FSnapshot sig) link)"
    unfolding quiet_start_one by (rule reach_flusher [OF serial_reach.start]) (simp add: r)
  then have "serial_reach E S (quiet_start s link)
       (one_client (s\<lparr>cs_world := w\<rparr>) Idle (FWrite (dirty_entries E (cs_table s)) 0 sig) link)"
    by (rule reach_flusher) simp
  ultimately show ?thesis by (rule that)
qed


text \<open>
  What the races ask of the situation: a working device, a running engine that accepts
  writes, and a caller's buffer the copy routine accepts.
\<close>

definition race_setup ::
  "'w env \<Rightarrow> 'w disk_view \<Rightarrow> session \<Rightarrow> flush_link \<Rightarrow> nat \<Rightarrow> 'w cache_state \<Rightarrow> bool" where
  "race_setup E disk S link n s \<longleftrightarrow>
     env_ok E disk (ss_fd S) \<and> pwrite_live E (ss_fd S) n \<and> on_device n s \<and> cache_inv disk s \<and>
     \<not> ss_read_only S \<and> \<not> is_stopped link"

lemma race_setupD:
  assumes "race_setup E disk S link n s"
  shows "env_ok E disk (ss_fd S)" "pwrite_live E (ss_fd S) n" "on_device n s" "cache_inv disk s" "struct_inv s"
    "\<not> ss_read_only S" "\<not> is_stopped link" "quiet_ok E disk" "pwrite_ok E disk (ss_fd S)" "hash_ok E"
  using assms env_okD by (auto simp: race_setup_def cache_inv_def)

lemma slot_write:
  assumes set: "race_setup E disk S link n s" and e: "cached s lba = Some e" and i: "i < mp_capacity (cs_pool s')"
    and geo: "same_geometry s s'" and shape: "pool_shape (cs_pool s')"
  obtains w where "write_lba E (ss_fd S) lba (mp_block_size (cs_pool s))
      (block_buffer_as_ref (get_block (cs_pool s') i) (cs_mem s')) (cs_world s') = (Inr (), w)"
    "disk w = store_bytes (disk (cs_world s')) (unat lba * bsize s) (slot_data s' i)"
proof -
  note d = race_setupD [OF set]
  have fits: "lba_fits (bsize s) lba" by (rule cached_fits [OF d(5) e])
  have b: "block_buffer_as_ref (get_block (cs_pool s') i) (cs_mem s') = slot_data s' i"
    by (simp add: get_block_eq shape i block_buffer_as_ref_def block_data_def)
  have len: "length (slot_data s' i) = bsize s" by (simp add: same_geometryD [OF geo])
  have "unat lba * bsize s + bsize s \<le> n" using d(3) e by (auto simp: on_device_def)
  from write_lba_live [OF d(9,2) fits this len] obtain w where
    w: "write_lba E (ss_fd S) lba (mp_block_size (cs_pool s)) (slot_data s' i) (cs_world s') = (Inr (), w)" by blast
  from write_lba_post(2) [OF d(9) fits len w] w show ?thesis by (intro that) (simp_all add: b)
qed

lemma reach_write_first:
  assumes set: "race_setup E disk S link n s" and e: "cached s lba = Some e"
    and snap: "dirty_entries E (cs_table s) = (lba, ce_pool_index e) # ds"
  obtains w sig where "disk w = store_bytes (disk (cs_world s)) (unat lba * bsize s) (slot_data s (ce_pool_index e))"
    "serial_reach E S (quiet_start s link) (one_client (s\<lparr>cs_world := w\<rparr>) Idle (FMark lba ds 0 sig) link)"
proof -
  note d = race_setupD [OF set]
  obtain w0 sig where w0: "disk w0 = disk (cs_world s)"
    and r: "serial_reach E S (quiet_start s link)
       (one_client (s\<lparr>cs_world := w0\<rparr>) Idle (FWrite ((lba, ce_pool_index e) # ds) 0 sig) link)"
    by (rule reach_snapshot [OF d(8), of s S link, unfolded snap])
  have i: "ce_pool_index e < mp_capacity (cs_pool (s\<lparr>cs_world := w0\<rparr>))" using cached_index [OF d(5) e] by simp
  have side: "same_geometry s (s\<lparr>cs_world := w0\<rparr>)" "pool_shape (cs_pool (s\<lparr>cs_world := w0\<rparr>))"
    using struct_invD(2) [OF d(5)] by (simp_all add: same_geometry_refl)
  obtain w where
    w: "write_lba E (ss_fd S) lba (mp_block_size (cs_pool s))
        (block_buffer_as_ref (get_block (cs_pool s) (ce_pool_index e)) (cs_mem s)) w0 = (Inr (), w)"
      "disk w = store_bytes (disk w0) (unat lba * bsize s) (slot_data s (ce_pool_index e))"
    by (rule slot_write [OF set e i side], rule that) simp_all
  from reach_flusher [OF r] w(1) have
    "serial_reach E S (quiet_start s link) (one_client (s\<lparr>cs_world := w\<rparr>) Idle (FMark lba ds 0 sig) link)" by simp
  with w(2) w0 show ?thesis by (intro that) simp_all
qed


lemma update_copy:
  assumes set: "race_setup E disk S link n s" and e: "cached s lba = Some e"
    and buf: "user_buf_ok s ptr" "write_ptr_ok ptr"
  shows "leads E S chan 2 (Writing lba ptr WGet, s\<lparr>cs_world := w\<rparr>)
     (Writing lba ptr WMark, s\<lparr>cs_world := w,
        cs_mem := store_bytes (cs_mem s) (block_addr (cs_pool s) (ce_pool_index e)) (load_bytes (cs_mem s) ptr (bsize s))\<rparr>)"
  unfolding numeral_2_eq_2
  by (rule leads_step [OF HOL.refl], simp add: client_next_def write_next_def e race_setupD [OF set]
      cached_block [OF race_setupD(5) [OF set] e]
      copy_from_user [OF race_setupD(5) [OF set] cached_index [OF race_setupD(5) [OF set] e] buf])+


section \<open>An update between the write-back and the clean mark\<close>

text \<open>
  C17. An acknowledged update can be lost with a single client: if the client overwrites a
  dirty block after the flush thread has written the old contents to the device and before
  it marks the entry clean, the write returns \<open>Ok\<close>, the cache serves the new contents, and
  the entry is marked clean although the device holds the old ones, so nothing will ever
  write the new contents back.
\<close>

theorem racing_update_marked_clean:
  assumes set: "race_setup E disk S link n s" and e: "cached s lba = Some e"
    and snap: "dirty_entries E (cs_table s) = (lba, ce_pool_index e) # ds"
    and buf: "user_buf_ok s ptr" "write_ptr_ok ptr" and lba: "lba < ss_max_lba S"
  shows "\<exists>y e'. serial_reach E S (quiet_start s link) y \<and>
    sy_clients y 0 = Writing lba ptr (WDone (Inr \<lparr>wr_was_update = True\<rparr>)) \<and>
    cached (sy_state y) lba = Some e' \<and> \<not> ce_dirty e' \<and>
    view disk (sy_state y) lba = load_bytes (cs_mem s) ptr (bsize s) \<and>
    disk_block (disk (cs_world (sy_state y))) (bsize s) lba = slot_data s (ce_pool_index e)"
proof -
  note d = race_setupD [OF set]
  obtain w sig where w: "disk w = store_bytes (disk (cs_world s)) (unat lba * bsize s) (slot_data s (ce_pool_index e))"
    and r1: "serial_reach E S (quiet_start s link) (one_client (s\<lparr>cs_world := w\<rparr>) Idle (FMark lba ds 0 sig) link)"
    by (rule reach_write_first [OF set e snap])
  let ?data = "load_bytes (cs_mem s) ptr (bsize s)"
  let ?m = "store_bytes (cs_mem s) (block_addr (cs_pool s) (ce_pool_index e)) ?data"
  define e1 where "e1 = fst (entry_mark_dirty E e w)"
  define t1 where "t1 = snd (table_insert (cs_table s) lba e1)"
  define t2 where "t2 = table_mark_clean t1 lba"
  define w1 where "w1 = snd (env_now E w)"
  define w2 where "w2 = maybe_wake_flusher E t2 (fl_chan link) (ss_schedule S) w1"
  have t2: "table_get t2 lba = Some (entry_mark_clean e1)" by (simp add: t2_def t1_def table_mark_clean_eq)
  have w2: "disk w2 = disk w" using maybe_wake_disk [OF d(8)] quiet_okD [OF d(8)] by (simp add: w2_def w1_def)
  have "serial_reach E S (quiet_start s link) (one_client (s\<lparr>cs_world := w\<rparr>) (Writing lba ptr WGet) (FMark lba ds 0 sig) link)"
    using reach_call [OF r1, of "Writing lba ptr WGet"] lba d(7) by simp
  from reach_run [OF this update_copy [OF set e buf]]
  have "serial_reach E S (quiet_start s link)
      (one_client (s\<lparr>cs_world := w1, cs_mem := ?m, cs_table := t1\<rparr>) (Writing lba ptr (WWake True)) (FMark lba ds 0 sig) link)"
    by (rule reach_client) (simp add: client_next_def write_next_def table_mark_dirty_eq e e1_def t1_def w1_def)
  from reach_flusher [OF this, unfolded flusher_next.simps, OF HOL.refl]
  have r2: "serial_reach E S (quiet_start s link)
      (one_client (s\<lparr>cs_world := w1, cs_mem := ?m, cs_table := t2\<rparr>) (Writing lba ptr (WWake True)) (FWrite ds 1 sig) link)"
    by (simp add: t2_def)
  let ?y = "one_client (s\<lparr>cs_mem := ?m, cs_table := t2, cs_world := w2\<rparr>)
         (Writing lba ptr (WDone (Inr \<lparr>wr_was_update = True\<rparr>))) (FWrite ds 1 sig) link"
  from reach_client [OF r2] have "serial_reach E S (quiet_start s link) ?y"
    by (simp add: client_next_def write_next_def w2_def)
  moreover have "block_data (cs_pool s) ?m (ce_pool_index e) = ?data" by (simp add: block_data_store_same)
  moreover have "disk_block (disk w) (bsize s) lba = slot_data s (ce_pool_index e)"
    by (simp add: w disk_block_store_same)
  ultimately show ?thesis
    using t2 w2
    by (intro exI [of _ ?y] exI [of _ "entry_mark_clean e1"]) (simp add: one_client_def view_def e1_def)
qed


section \<open>A write between the last snapshot and the stop\<close>

lemma update_keeps_disk:
  assumes "quiet_ok E disk" "cached s lba = Some e" "cached_write E lba ptr fd chan sch False s = Some (r, s')"
  shows "disk (cs_world s') = disk (cs_world s)"
  using assms
  by (auto simp: cached_write_def Let_def maybe_wake_disk quiet_okD table_mark_dirty_eq split: option.splits)

text \<open>
  C19. An orderly stop can lose an acknowledged write: if the write falls between the flush
  thread's list of dirty entries and its test of the stop flag, and \<open>stop\<close> comes before that
  test, the thread ends without another look at the table. Nobody is left to write the block
  back: the device is exactly what it was before, while the client was told \<open>Ok\<close>.
\<close>

theorem stop_misses_late_write:
  assumes set: "race_setup E disk S link n s" and e: "cached s lba = Some e" and clean: "dirty_entries E (cs_table s) = []"
    and buf: "user_buf_ok s ptr" "write_ptr_ok ptr" and lba: "lba < ss_max_lba S"
  shows "\<exists>y. serial_reach E S (quiet_start s link) y \<and>
    sy_flusher y = FExit \<and> is_stopped (sy_link y) \<and> (\<forall>i. sy_clients y i = Idle) \<and>
    view disk (sy_state y) lba = load_bytes (cs_mem s) ptr (bsize s) \<and>
    disk (cs_world (sy_state y)) = disk (cs_world s)"
proof -
  note d = race_setupD [OF set]
  obtain w sig where w: "disk w = disk (cs_world s)"
    and r1: "serial_reach E S (quiet_start s link) (one_client (s\<lparr>cs_world := w\<rparr>) Idle (FWrite [] 0 sig) link)"
    by (rule reach_snapshot [OF d(8), of s S link, unfolded clean])
  let ?s = "s\<lparr>cs_world := w\<rparr>"
  have inv: "cache_inv disk ?s" using world_change(1) [OF w] d(4) by simp
  have e': "cached ?s lba = Some e" "user_buf_ok ?s ptr" using e buf(1) by (simp_all add: user_buf_ok_def)
  obtain r s' where cw: "cached_write E lba ptr (ss_fd S) (fl_chan link) (ss_schedule S) False ?s = Some (r, s')"
    and post: "write_post disk ?s lba ptr r s'"
    using cached_write_update [OF d(1) inv e'(2) buf(2) e'(1)] by blast
  have r: "r = Inr \<lparr>wr_was_update = True\<rparr>"
    using cw e by (auto simp: cached_write_def Let_def case_prod_unfold split: option.splits)
  have "leads E S (fl_chan link) 10 (Writing lba ptr WGet, ?s) (Writing lba ptr (WDone r), s')"
    using write_alone [of E S "fl_chan link" lba ptr ?s] cw d(6) by simp
  from reach_run [OF reach_call [OF r1, of "Writing lba ptr WGet"] this]
  have "serial_reach E S (quiet_start s link) (one_client s' (Writing lba ptr (WDone r)) (FWrite [] 0 sig) link)"
    using lba d(7) by simp
  from reach_stop [OF reach_return [OF this]]
  have "serial_reach E S (quiet_start s link) (one_client (s'\<lparr>cs_world := env_try_send E (fl_chan link) Shutdown (cs_world s')\<rparr>)
      Idle (FWrite [] 0 sig) (link\<lparr>fl_stop := True\<rparr>))" (is "_ (one_client ?s' _ _ ?link)") by simp
  from reach_flusher [OF reach_flusher [OF this]]
  have "serial_reach E S (quiet_start s link) (one_client ?s' Idle FExit ?link)" by (simp add: is_stopped_def)
  moreover have dk: "disk (cs_world ?s') = disk (cs_world s')" "disk (cs_world s') = disk (cs_world s)"
    using quiet_okD [OF d(8)] update_keeps_disk [OF d(8) e'(1) cw] w by simp_all
  moreover have "view disk ?s' lba = load_bytes (cs_mem s) ptr (bsize s)"
    using world_change(2) [OF dk(1)] post by (simp add: write_post_def r)
  ultimately show ?thesis
    by (intro exI [of _ "one_client ?s' Idle FExit ?link"]) (simp add: one_client_def is_stopped_def)
qed


section \<open>A slot reused between the snapshot and the write-back\<close>

lemma evict_reuses:
  assumes set: "race_setup E disk S link n s" and full: "mp_free_list (cs_pool s) = []"
    and sel: "select_eviction_candidate E (cs_table s) = Some c"
    and w0: "disk w0 = disk (cs_world s)"
  obtains w where "ec_pool_index c < mp_capacity (cs_pool s)" "cached s (ec_lba c) \<noteq> None"
    "allocate_or_evict E (ss_fd S) chan (s\<lparr>cs_world := w0\<rparr>) =
       (Inr (ec_pool_index c, slot_block s (ec_pool_index c)),
        s\<lparr>cs_world := w, cs_table := snd (table_remove (cs_table s) (ec_lba c))\<rparr>)"
proof -
  note d = race_setupD [OF set]
  let ?s = "s\<lparr>cs_world := w0\<rparr>"
  have inv: "cache_inv disk ?s" "struct_inv ?s" "on_device n ?s"
    using world_change(1) [OF w0] d(3-5) by (simp_all add: on_device_def)
  from select_Some_entry [OF d(10) struct_invD(3) [OF d(5)] sel]
  obtain e where hit: "cached ?s (ec_lba c) = Some e" "ec_pool_index c = ce_pool_index e" "ec_needs_flush c = ce_dirty e"
    by auto
  obtain s1 where fc: "flush_candidate E (ss_fd S) chan c ?s = (Inr (), s1)"
    using flush_candidate_live [OF d(1) inv(2) d(2) inv(3) hit(1,2)] by blast
  note f = flush_candidate_post [OF d(1) inv(1) hit fc]
  have ev: "pool_allocate (pool_deallocate (cs_pool s) (ec_pool_index c)) =
      (Inr (ec_pool_index c, slot_block s (ec_pool_index c)), cs_pool s)"
    using evict_slot(1) [OF f(1) _ _ f(6) [OF HOL.refl], unfolded f(3,4), of] full hit(1,2) by (simp add: slot_block_def)
  have upd: "s1\<lparr>cs_table := t, cs_pool := cs_pool s\<rparr> = s\<lparr>cs_world := cs_world s1, cs_table := t\<rparr>" for t
    using f(3-5) by (cases s1; cases s) simp
  have "pool_allocate (cs_pool s) = (Inl (PoolExhausted (mp_capacity (cs_pool s)) (mp_capacity (cs_pool s))), cs_pool s)"
    by (simp add: pool_allocate_def full)
  then have "allocate_or_evict E (ss_fd S) chan ?s = (Inr (ec_pool_index c, slot_block s (ec_pool_index c)),
      s\<lparr>cs_world := cs_world s1, cs_table := snd (table_remove (cs_table s) (ec_lba c))\<rparr>)"
    using fc sel ev f(3,4) upd by (simp add: allocate_or_evict_def Let_def)
  moreover have "ec_pool_index c < mp_capacity (cs_pool s)" "cached s (ec_lba c) \<noteq> None"
    using cached_index [OF inv(2) hit(1)] hit by simp_all
  ultimately show ?thesis by (intro that)
qed

lemma write_into_reused:
  assumes set: "race_setup E disk S link n s" and full: "mp_free_list (cs_pool s) = []"
    and sel: "select_eviction_candidate E (cs_table s) = Some c"
    and w0: "disk w0 = disk (cs_world s)" and miss: "cached s lba = None"
    and buf: "user_buf_ok s ptr" "write_ptr_ok ptr"
  obtains s' where "cached_write E lba ptr (ss_fd S) chan (ss_schedule S) False (s\<lparr>cs_world := w0\<rparr>) =
      Some (Inr \<lparr>wr_was_update = False\<rparr>, s')"
    "cached s' (ec_lba c) = None" "slot_data s' (ec_pool_index c) = load_bytes (cs_mem s) ptr (bsize s)"
    "cs_pool s' = cs_pool s" "ec_pool_index c < mp_capacity (cs_pool s)"
    "owner s' lba = Some (ec_pool_index c)"
proof -
  note d = race_setupD [OF set]
  obtain w where w: "ec_pool_index c < mp_capacity (cs_pool s)" "cached s (ec_lba c) \<noteq> None"
    "allocate_or_evict E (ss_fd S) chan (s\<lparr>cs_world := w0\<rparr>) =
       (Inr (ec_pool_index c, slot_block s (ec_pool_index c)),
        s\<lparr>cs_world := w, cs_table := snd (table_remove (cs_table s) (ec_lba c))\<rparr>)"
    by (rule evict_reuses [OF set full sel w0])
  then have "lba \<noteq> ec_lba c" using miss by auto
  have copy: "fast_copy_nontemporal (bb_ptr (slot_block s (ec_pool_index c))) ptr (bsize s) (cs_mem s) =
      Some (store_bytes (cs_mem s) (block_addr (cs_pool s) (ec_pool_index c)) (load_bytes (cs_mem s) ptr (bsize s)))"
    using copy_from_user [OF d(5) w(1) buf] by (simp add: slot_block_def)
  define e where "e = fst (entry_mark_dirty E (fst (entry_new E lba (ec_pool_index c) w)) (snd (env_now E w)))"
  define t where "t = snd (table_insert (snd (table_remove (cs_table s) (ec_lba c))) lba e)"
  define s' where "s' = s\<lparr>cs_world := maybe_wake_flusher E t chan (ss_schedule S) (snd (env_now E (snd (env_now E w)))),
    cs_table := t,
    cs_mem := store_bytes (cs_mem s) (block_addr (cs_pool s) (ec_pool_index c)) (load_bytes (cs_mem s) ptr (bsize s))\<rparr>"
  show ?thesis
  proof (rule that [of s'])
    show "cached_write E lba ptr (ss_fd S) chan (ss_schedule S) False (s\<lparr>cs_world := w0\<rparr>) =
        Some (Inr \<lparr>wr_was_update = False\<rparr>, s')"
      using w(3) miss copy by (simp add: cached_write_def Let_def case_prod_unfold s'_def t_def e_def)
  qed (use \<open>lba \<noteq> ec_lba c\<close> w(1) in \<open>simp_all add: s'_def t_def owner_def e_def block_data_store_same\<close>)
qed

text \<open>
  C18. The flush thread can write one block's contents over another on the device: if a client
  evicts the first entry of the thread's list and reuses its slot for another block before
  the thread gets to it, the thread writes the new owner's bytes to the evicted block's place
  on the device. The evicted block is no longer cached, so from then on every read of it
  returns the bytes of the other block.
\<close>

theorem stale_write_back_corrupts:
  assumes set: "race_setup E disk S link n s" and full: "mp_free_list (cs_pool s) = []"
    and sel: "select_eviction_candidate E (cs_table s) = Some c"
    and snap: "dirty_entries E (cs_table s) = (ec_lba c, ec_pool_index c) # ds"
    and miss: "cached s lba = None" and buf: "user_buf_ok s ptr" "write_ptr_ok ptr" and lba: "lba < ss_max_lba S"
  shows "\<exists>y. serial_reach E S (quiet_start s link) y \<and>
    sy_clients y 0 = Writing lba ptr (WDone (Inr \<lparr>wr_was_update = False\<rparr>)) \<and>
    cached (sy_state y) (ec_lba c) = None \<and>
    view disk (sy_state y) (ec_lba c) = load_bytes (cs_mem s) ptr (bsize s)"
proof -
  note d = race_setupD [OF set]
  obtain w sig where w: "disk w = disk (cs_world s)"
    and r1: "serial_reach E S (quiet_start s link)
      (one_client (s\<lparr>cs_world := w\<rparr>) Idle (FWrite ((ec_lba c, ec_pool_index c) # ds) 0 sig) link)"
    by (rule reach_snapshot [OF d(8), of s S link, unfolded snap])
  let ?s = "s\<lparr>cs_world := w\<rparr>"
  obtain e where e: "cached s (ec_lba c) = Some e"
    using select_Some_entry [OF d(10) struct_invD(3) [OF d(5)] sel] by blast
  obtain s' where cw: "cached_write E lba ptr (ss_fd S) (fl_chan link) (ss_schedule S) False ?s =
      Some (Inr \<lparr>wr_was_update = False\<rparr>, s')"
    and s': "cached s' (ec_lba c) = None" "slot_data s' (ec_pool_index c) = load_bytes (cs_mem s) ptr (bsize s)"
      "cs_pool s' = cs_pool s" "ec_pool_index c < mp_capacity (cs_pool s)"
    by (rule write_into_reused [OF set full sel w miss buf])
  have i: "ec_pool_index c < mp_capacity (cs_pool s')" "pool_shape (cs_pool s')"
    using s'(3,4) struct_invD(2) [OF d(5)] by simp_all
  obtain w2 where w2: "write_lba E (ss_fd S) (ec_lba c) (mp_block_size (cs_pool s))
      (block_buffer_as_ref (get_block (cs_pool s') (ec_pool_index c)) (cs_mem s')) (cs_world s') = (Inr (), w2)"
    "disk w2 = store_bytes (disk (cs_world s')) (unat (ec_lba c) * bsize s) (slot_data s' (ec_pool_index c))"
    by (rule slot_write [OF set e i(1) same_geometry_refl [OF s'(3)] i(2)])
  have "leads E S (fl_chan link) 10 (Writing lba ptr WGet, ?s) (Writing lba ptr (WDone (Inr \<lparr>wr_was_update = False\<rparr>)), s')"
    using write_alone [of E S "fl_chan link" lba ptr ?s] cw d(6) by simp
  from reach_run [OF reach_call [OF r1, of "Writing lba ptr WGet"] this]
  have "serial_reach E S (quiet_start s link) (one_client s' (Writing lba ptr (WDone (Inr \<lparr>wr_was_update = False\<rparr>)))
      (FWrite ((ec_lba c, ec_pool_index c) # ds) 0 sig) link)"
    using lba d(7) by simp
  from reach_flusher [OF this] w2(1) s'(3)
  have "serial_reach E S (quiet_start s link) (one_client (s'\<lparr>cs_world := w2\<rparr>)
      (Writing lba ptr (WDone (Inr \<lparr>wr_was_update = False\<rparr>))) (FMark (ec_lba c) ds 0 sig) link)" (is "serial_reach _ _ _ ?y")
    by simp
  moreover have "disk_block (disk w2) (bsize s) (ec_lba c) = load_bytes (cs_mem s) ptr (bsize s)"
    by (simp add: w2(2) s'(2) disk_block_store_same)
  ultimately show ?thesis
    using s'(1,3) by (intro exI [of _ ?y]) (simp add: one_client_def view_def)
qed


section \<open>Two clients that evict the same entry\<close>

lemma run_client:
  assumes "leads E S (fl_chan (sy_link x)) k (sy_clients x i, sy_state x) (c', s')"
  shows "(sys_step E S)\<^sup>*\<^sup>* x (x\<lparr>sy_clients := (sy_clients x)(i := c'), sy_state := s'\<rparr>)"
proof -
  have "(sys_step E S)\<^sup>*\<^sup>* x (x\<lparr>sy_clients := (sy_clients x)(i := c'), sy_state := s'\<rparr>)"
    if "client_alone E S (fl_chan (sy_link x)) n (sy_clients x i) (sy_state x) = (c', s')" for n and x :: "'a sys"
    using that
  proof (induction n arbitrary: x)
    case (Suc n)
    obtain c1 s1 where n: "client_next E S (fl_chan (sy_link x)) (sy_clients x i) (sy_state x) = (c1, s1)" by fastforce
    have step: "(sys_step E S)\<^sup>*\<^sup>* x (x\<lparr>sy_clients := (sy_clients x)(i := c1), sy_state := s1\<rparr>)"
    proof (cases "active (sy_clients x i)")
      case True
      then show ?thesis using sys_step.client [of x i E S] n by (simp add: client_move_def)
    next
      case False
      then have "(c1, s1) = (sy_clients x i, sy_state x)"
        using n by (cases "sy_clients x i" rule: active.cases) (simp_all add: client_next_def read_next_def write_next_def)
      then show ?thesis by simp
    qed
    let ?x = "x\<lparr>sy_clients := (sy_clients x)(i := c1), sy_state := s1\<rparr>"
    have "?x\<lparr>sy_clients := (sy_clients ?x)(i := c'), sy_state := s'\<rparr> = x\<lparr>sy_clients := (sy_clients x)(i := c'), sy_state := s'\<rparr>"
      by simp
    moreover have "client_alone E S (fl_chan (sy_link ?x)) n (sy_clients ?x i) (sy_state ?x) = (c', s')"
      using Suc.prems n by simp
    ultimately show ?case using rtranclp_trans [OF step] Suc.IH [of ?x] by metis
  next
    case 0
    then have "x\<lparr>sy_clients := (sy_clients x)(i := c'), sy_state := s'\<rparr> = x" by (cases x) auto
    then show ?case by (simp only: rtranclp.rtrancl_refl)
  qed
  with assms show ?thesis by (auto simp: leads_def)
qed

lemma select_phase:
  assumes "\<not> ss_read_only S" "cached s lba = None" "mp_free_list (cs_pool s) = []"
    "select_eviction_candidate E (cs_table s) = Some c"
  shows "leads E S chan 3 (Writing lba ptr WGet, s) (Writing lba ptr (WAlloc (WriteBack c)), s)"
  unfolding numeral_3_eq_3
  by (rule leads_step [OF HOL.refl], simp add: client_next_def write_next_def alloc_next_def pool_allocate_def assms)+

lemma evict_phase:
  assumes set: "race_setup E disk S link n s" and e: "cached s (ec_lba c) = Some e"
    and geo: "same_geometry s u" and shape: "pool_shape (cs_pool u)" and i: "ec_pool_index c < mp_capacity (cs_pool u)"
  obtains w where "leads E S chan 3 (Writing lba ptr (WAlloc (WriteBack c)), u)
     (Writing lba ptr (WAlloc Reallocate), u\<lparr>cs_world := w, cs_table := snd (table_remove (cs_table u) (ec_lba c)),
        cs_pool := pool_deallocate (cs_pool u) (ec_pool_index c)\<rparr>)"
proof -
  obtain w where w: "write_lba E (ss_fd S) (ec_lba c) (mp_block_size (cs_pool s))
      (block_buffer_as_ref (get_block (cs_pool u) (ec_pool_index c)) (cs_mem u)) (cs_world u) = (Inr (), w)"
    by (rule slot_write [OF set e i geo shape])
  have "\<exists>w'. flush_candidate E (ss_fd S) chan c u = (Inr (), u\<lparr>cs_world := w'\<rparr>)"
  proof (cases "ec_needs_flush c")
    case True
    then show ?thesis using w same_geometryD(1) [OF geo] by (auto simp: flush_candidate_def)
  next
    case False
    then show ?thesis by (intro exI [of _ "cs_world u"]) (simp add: flush_candidate_def)
  qed
  then obtain w' where f: "flush_candidate E (ss_fd S) chan c u = (Inr (), u\<lparr>cs_world := w'\<rparr>)" by blast
  have "leads E S chan (Suc (Suc (Suc 0))) (Writing lba ptr (WAlloc (WriteBack c)), u)
     (Writing lba ptr (WAlloc Reallocate), u\<lparr>cs_world := w', cs_table := snd (table_remove (cs_table u) (ec_lba c)),
        cs_pool := pool_deallocate (cs_pool u) (ec_pool_index c)\<rparr>)"
    by (rule leads_step [OF HOL.refl], simp add: client_next_def write_next_def alloc_next_def f)+
  then show ?thesis by (intro that [of w']) (simp add: numeral_3_eq_3)
qed

lemma fill_phase:
  assumes shape: "pool_shape (cs_pool u)" and fl: "mp_free_list (cs_pool u) = fl @ [i]" "i < mp_capacity (cs_pool u)"
    and buf: "user_buf_ok u ptr" "write_ptr_ok ptr"
  obtains s' where "leads E S chan 4 (Writing lba ptr (WAlloc Reallocate), u)
      (Writing lba ptr (WDone (Inr \<lparr>wr_was_update = False\<rparr>)), s')"
    "cs_pool s' = (cs_pool u)\<lparr>mp_free_list := fl\<rparr>" "owner s' = (owner u)(lba \<mapsto> i)"
    "cs_mem s' = store_bytes (cs_mem u) (block_addr (cs_pool u) i) (load_bytes (cs_mem u) ptr (bsize u))"
proof -
  let ?P = "(cs_pool u)\<lparr>mp_free_list := fl\<rparr>"
  let ?m = "store_bytes (cs_mem u) (block_addr (cs_pool u) i) (load_bytes (cs_mem u) ptr (bsize u))"
  define e where "e = fst (entry_mark_dirty E (fst (entry_new E lba i (cs_world u))) (snd (env_now E (cs_world u))))"
  define t where "t = snd (table_insert (cs_table u) lba e)"
  define s' where "s' = u\<lparr>cs_pool := ?P, cs_mem := ?m, cs_table := t,
    cs_world := maybe_wake_flusher E t chan (ss_schedule S) (snd (env_now E (snd (env_now E (cs_world u)))))\<rparr>"
  have alloc: "pool_allocate (cs_pool u) = (Inr (i, slot_block u i), ?P)"
    by (simp add: pool_allocate_def fl(1) buffer_for_index_eq [OF shape fl(2)] slot_block_def)
  have copy: "fast_copy_nontemporal (bb_ptr (slot_block u i)) ptr (bsize u) (cs_mem u) = Some ?m"
    using copy_to_slot [OF shape fl(2) buf] by (simp add: slot_block_def)
  have "leads E S chan (Suc (Suc (Suc (Suc 0)))) (Writing lba ptr (WAlloc Reallocate), u)
      (Writing lba ptr (WDone (Inr \<lparr>wr_was_update = False\<rparr>)), s')"
    by (rule leads_step [OF HOL.refl], simp add: client_next_def write_next_def alloc_next_def alloc copy
        case_prod_unfold s'_def t_def e_def)+
  moreover have "owner s' = (owner u)(lba \<mapsto> i)"
    by (auto simp: owner_def s'_def t_def e_def fun_eq_iff)
  ultimately show ?thesis
    by (intro that [of s']) (simp_all add: eval_nat_numeral s'_def)
qed

definition two_clients :: "'w cache_state \<Rightarrow> client_pc \<Rightarrow> client_pc \<Rightarrow> flush_link \<Rightarrow> 'w sys" where
  "two_clients s c0 c1 link =
     \<lparr>sy_state = s, sy_clients = (\<lambda>_. Idle)(0 := c0, 1 := c1), sy_flusher = FWait, sy_link = link\<rparr>"

lemma quiet_start_two: "quiet_start s link = two_clients s Idle Idle link"
  by (auto simp: quiet_start_def two_clients_def fun_eq_iff)

lemma two_calls:
  assumes "\<not> is_stopped link" "starting c0" "starting c1" "client_lba c0 < ss_max_lba S" "client_lba c1 < ss_max_lba S"
  shows "(sys_step E S)\<^sup>*\<^sup>* (quiet_start s link) (two_clients s c0 c1 link)"
proof -
  have "sys_step E S (quiet_start s link) (two_clients s c0 Idle link)"
    using sys_step.call [of "quiet_start s link" 0 c0 S E] assms by (simp add: quiet_start_two two_clients_def fun_upd_twist)
  moreover have "sys_step E S (two_clients s c0 Idle link) (two_clients s c0 c1 link)"
    using sys_step.call [of "two_clients s c0 Idle link" 1 c1 S E] assms by (simp add: two_clients_def)
  ultimately show ?thesis by (meson rtranclp.rtrancl_into_rtrancl rtranclp.rtrancl_refl)
qed

lemma two_first:
  assumes "(sys_step E S)\<^sup>*\<^sup>* x (two_clients s c0 c1 link)" "leads E S (fl_chan link) k (c0, s) (c0', s')"
  shows "(sys_step E S)\<^sup>*\<^sup>* x (two_clients s' c0' c1 link)"
  using assms run_client [of E S "two_clients s c0 c1 link" k 0 c0' s']
  by (auto intro: rtranclp_trans simp: two_clients_def fun_upd_twist)

lemma two_second:
  assumes "(sys_step E S)\<^sup>*\<^sup>* x (two_clients s c0 c1 link)" "leads E S (fl_chan link) k (c1, s) (c1', s')"
  shows "(sys_step E S)\<^sup>*\<^sup>* x (two_clients s' c0 c1' link)"
  using assms run_client [of E S "two_clients s c0 c1 link" k 1 c1' s']
  by (auto intro: rtranclp_trans simp: two_clients_def)

text \<open>Both clients choose the same victim, and its slot is returned to the pool twice.\<close>

lemma race_double_free:
  assumes set: "race_setup E disk S link n s" and full: "mp_free_list (cs_pool s) = []"
    and sel: "select_eviction_candidate E (cs_table s) = Some c"
    and miss: "cached s l = None" "cached s l' = None" and lba: "l < ss_max_lba S" "l' < ss_max_lba S"
  obtains u where "(sys_step E S)\<^sup>*\<^sup>* (quiet_start s link)
      (two_clients u (Writing l p (WAlloc Reallocate)) (Writing l' p' (WAlloc Reallocate)) link)"
    "cs_pool u = (cs_pool s)\<lparr>mp_free_list := [ec_pool_index c, ec_pool_index c]\<rparr>" "cs_mem u = cs_mem s"
    "ec_pool_index c < mp_capacity (cs_pool s)"
proof -
  note d = race_setupD [OF set]
  let ?i = "ec_pool_index c" and ?T = "\<lambda>t. snd (table_remove t (ec_lba c))"
  obtain e where e: "cached s (ec_lba c) = Some e" "?i = ce_pool_index e"
    using select_Some_entry [OF d(10) struct_invD(3) [OF d(5)] sel] by blast
  have i: "?i < mp_capacity (cs_pool s)" using cached_index [OF d(5) e(1)] e(2) by simp
  note shape = struct_invD(2) [OF d(5)]
  note choose = select_phase [OF d(6) _ full sel]
  obtain w1 where ev1: "leads E S (fl_chan link) 3 (Writing l p (WAlloc (WriteBack c)), s) (Writing l p (WAlloc Reallocate),
      s\<lparr>cs_world := w1, cs_table := ?T (cs_table s), cs_pool := pool_deallocate (cs_pool s) ?i\<rparr>)" (is "leads _ _ _ _ _ (_, ?s1)")
    by (rule evict_phase [OF set e(1) same_geometry_refl [OF HOL.refl] shape i])
  have s1: "same_geometry s ?s1" "pool_shape (cs_pool ?s1)" "?i < mp_capacity (cs_pool ?s1)"
    using shape i by (auto simp: same_geometry_def pool_deallocate_def pool_shape_def pool_size_def)
  obtain w2 where ev2: "leads E S (fl_chan link) 3 (Writing l' p' (WAlloc (WriteBack c)), ?s1) (Writing l' p' (WAlloc Reallocate),
      ?s1\<lparr>cs_world := w2, cs_table := ?T (cs_table ?s1), cs_pool := pool_deallocate (cs_pool ?s1) ?i\<rparr>)" (is "leads _ _ _ _ _ (_, ?s2)")
    by (rule evict_phase [OF set e(1) s1])
  have "(sys_step E S)\<^sup>*\<^sup>* (quiet_start s link) (two_clients s (Writing l p WGet) (Writing l' p' WGet) link)"
    by (rule two_calls) (simp_all add: d lba)
  from two_second [OF two_first [OF two_second [OF two_first [OF this choose [OF miss(1)]] choose [OF miss(2)]] ev1] ev2]
  show ?thesis
    by (rule that) (simp_all add: pool_deallocate_def full i)
qed

text \<open>
  C20. Two writes that overlap can be given the same slot: with the pool full, both choose the
  same victim, its slot is returned to the free-list twice, and both take it. Both writes
  return \<open>Ok\<close>, two blocks own one slot, and the first block's contents are those of the
  second.
\<close>

theorem overlapping_evictions_share_slot:
  assumes set: "race_setup E disk S link n s" and full: "mp_free_list (cs_pool s) = []"
    and sel: "select_eviction_candidate E (cs_table s) = Some c"
    and miss: "cached s l = None" "cached s l' = None" "l \<noteq> l'" and lba: "l < ss_max_lba S" "l' < ss_max_lba S"
    and buf: "user_buf_ok s p" "write_ptr_ok p" "user_buf_ok s p'" "write_ptr_ok p'"
  shows "\<exists>y. (sys_step E S)\<^sup>*\<^sup>* (quiet_start s link) y \<and>
    sy_clients y 0 = Writing l p (WDone (Inr \<lparr>wr_was_update = False\<rparr>)) \<and>
    sy_clients y 1 = Writing l' p' (WDone (Inr \<lparr>wr_was_update = False\<rparr>)) \<and>
    owner (sy_state y) l = Some (ec_pool_index c) \<and> owner (sy_state y) l' = Some (ec_pool_index c) \<and>
    view disk (sy_state y) l = load_bytes (cs_mem s) p' (bsize s)"
proof -
  let ?i = "ec_pool_index c" and ?ok = "WDone (Inr \<lparr>wr_was_update = False\<rparr>)"
  obtain u where r: "(sys_step E S)\<^sup>*\<^sup>* (quiet_start s link)
      (two_clients u (Writing l p (WAlloc Reallocate)) (Writing l' p' (WAlloc Reallocate)) link)"
    and u: "cs_pool u = (cs_pool s)\<lparr>mp_free_list := [?i, ?i]\<rparr>" "cs_mem u = cs_mem s" "?i < mp_capacity (cs_pool s)"
    by (rule race_double_free [OF set full sel miss(1,2) lba])
  have "pool_shape (cs_pool s)" by (rule struct_invD(2) [OF race_setupD(5) [OF set]])
  then have shape: "pool_shape ((cs_pool s)\<lparr>mp_free_list := fl\<rparr>)" for fl by (simp add: pool_shape_def pool_size_def)
  have addr: "block_addr ((cs_pool s)\<lparr>mp_free_list := fl\<rparr>) = block_addr (cs_pool s)" for fl
    by (simp add: block_addr_def fun_eq_iff)
  have u': "pool_shape (cs_pool u)" "mp_free_list (cs_pool u) = [?i] @ [?i]" "?i < mp_capacity (cs_pool u)" "user_buf_ok u p"
    using shape buf(1) by (simp_all add: u user_buf_ok_def pool_size_def)
  obtain s3 where f1: "leads E S (fl_chan link) 4 (Writing l p (WAlloc Reallocate), u) (Writing l p ?ok, s3)"
    and s3: "cs_pool s3 = (cs_pool u)\<lparr>mp_free_list := [?i]\<rparr>" "owner s3 = (owner u)(l \<mapsto> ?i)"
      "cs_mem s3 = store_bytes (cs_mem u) (block_addr (cs_pool u) ?i) (load_bytes (cs_mem u) p (bsize u))"
    by (rule fill_phase [OF u' buf(2)])
  have s3': "pool_shape (cs_pool s3)" "mp_free_list (cs_pool s3) = [] @ [?i]" "?i < mp_capacity (cs_pool s3)" "user_buf_ok s3 p'"
    using shape buf(3) by (simp_all add: s3(1) u user_buf_ok_def pool_size_def)
  obtain s4 where f2: "leads E S (fl_chan link) 4 (Writing l' p' (WAlloc Reallocate), s3) (Writing l' p' ?ok, s4)"
    and s4: "cs_pool s4 = (cs_pool s3)\<lparr>mp_free_list := []\<rparr>" "owner s4 = (owner s3)(l' \<mapsto> ?i)"
      "cs_mem s4 = store_bytes (cs_mem s3) (block_addr (cs_pool s3) ?i) (load_bytes (cs_mem s3) p' (bsize s3))"
    by (rule fill_phase [OF s3' buf(4)])
  have own: "owner s4 l = Some ?i" "owner s4 l' = Some ?i" using miss(3) by (simp_all add: s4(2) s3(2))
  have "disjoint_ranges p' (bsize s) (block_addr (cs_pool s) ?i) (bsize s)"
    using buf(3) block_addr_range [OF u(3)] by (auto simp: user_buf_ok_def disjoint_ranges_def)
  then have "load_bytes (cs_mem s3) p' (bsize s) = load_bytes (cs_mem s) p' (bsize s)"
    by (simp add: s3(3) u addr load_store_disjoint)
  then have "slot_data s4 ?i = load_bytes (cs_mem s) p' (bsize s)"
    by (simp add: block_data_def s4(1,3) s3(1) u addr load_store_same)
  then have "view disk s4 l = load_bytes (cs_mem s) p' (bsize s)"
    using own(1) by (auto simp: view_def owner_def)
  with two_second [OF two_first [OF r f1] f2] own show ?thesis
    by (intro exI [of _ "two_clients s4 (Writing l p ?ok) (Writing l' p' ?ok) link"]) (simp add: two_clients_def)
qed

section \<open>A concrete engine\<close>

text \<open>One slot, holding block 3 with bytes 7; the callers' buffers hold bytes 5 and 6.\<close>

definition sample_session :: session where
  "sample_session = \<lparr>ss_fd = 3, ss_max_lba = 256, ss_schedule = flush_schedule_default, ss_read_only = False\<rparr>"

definition sample_link :: flush_link where
  "sample_link = \<lparr>fl_chan = 0, fl_stop = False\<rparr>"

definition race_entry :: "bool \<Rightarrow> cache_entry" where
  "race_entry dirty = \<lparr>ce_lba = 3, ce_pool_index = 0, ce_dirty = dirty, ce_last_access = 1, ce_access_count = 1\<rparr>"

definition race_mem :: store where
  "race_mem a = (if a < 131072 then 5 else if a < 16777216 then 6 else 7)"

definition race_cache :: "sim_world cache_state" where
  "race_cache = sample_cache\<lparr>cs_mem := race_mem\<rparr>"

definition clean_cache :: "sim_world cache_state" where
  "clean_cache = race_cache\<lparr>cs_world := sim_init\<lparr>sim_disk := \<lambda>_. 7\<rparr>, cs_table := \<lparr>lt_inner = [(3, race_entry False)]\<rparr>\<rparr>"

lemma race_sample_simps [simp]:
  "cs_pool race_cache = sample_pool" "cs_pool clean_cache = sample_pool" "cs_mem race_cache = race_mem" "cs_mem clean_cache = race_mem"
  "cached race_cache = [3 \<mapsto> race_entry True]" "cached clean_cache = [3 \<mapsto> race_entry False]"
  "ce_pool_index (race_entry b) = 0" "ce_dirty (race_entry b) = b" "ce_lba (race_entry b) = 3"
  "ss_max_lba sample_session = 256" "ss_fd sample_session = 3"
  by (simp_all add: race_cache_def clean_cache_def sample_cache_def race_entry_def table_get_def fun_eq_iff sample_session_def)

lemma race_data:
  "load_bytes race_mem 65536 4096 = replicate 4096 5" "load_bytes race_mem 131072 4096 = replicate 4096 6"
  "block_data sample_pool race_mem 0 = replicate 4096 7"
proof -
  have eq: "load_bytes race_mem p n = replicate n b" if "\<And>a. p \<le> a \<Longrightarrow> a < p + n \<Longrightarrow> race_mem a = b" for p n b
    using load_cong [of p n race_mem "\<lambda>_. b"] that by (simp add: load_const)
  show "load_bytes race_mem 65536 4096 = replicate 4096 5" "load_bytes race_mem 131072 4096 = replicate 4096 6"
    by (rule eq; simp add: race_mem_def)+
  have "load_bytes race_mem 16777216 4096 = replicate 4096 7" by (rule eq) (simp add: race_mem_def)
  then show "block_data sample_pool race_mem 0 = replicate 4096 7"
    by (simp add: block_data_def block_addr_def) (simp add: sample_pool_def)
qed

lemma race_sample_inv: "cache_inv sim_disk race_cache" "cache_inv sim_disk clean_cache"
proof -
  show "cache_inv sim_disk race_cache"
    using sample_cache_inv by (simp add: cache_inv_def coherent_def) (simp add: race_cache_def)
  then have "struct_inv race_cache" by (simp add: cache_inv_def)
  moreover have "same_slots race_cache clean_cache"
    by (simp add: same_slots_def owner_def fun_eq_iff)
      (simp add: table_inv_def clean_cache_def race_entry_def)
  ultimately have "struct_inv clean_cache" using same_slots_struct by blast
  then show "cache_inv sim_disk clean_cache"
    by (simp add: cache_inv_def coherent_def race_data disk_block_def)
      (simp add: clean_cache_def load_const)
qed

lemma race_sample_setup:
  "race_setup reliable_env sim_disk sample_session sample_link 1048576 race_cache"
  "race_setup reliable_env sim_disk sample_session sample_link 1048576 clean_cache"
  using reliable_env_ok reliable_pwrite_live race_sample_inv
  by (simp_all add: race_setup_def on_device_def sample_session_def sample_link_def is_stopped_def split: if_splits)

lemma race_sample_buf:
  "user_buf_ok race_cache 65536" "user_buf_ok race_cache 131072" "user_buf_ok clean_cache 65536"
  "write_ptr_ok 65536" "write_ptr_ok 131072"
  by (simp_all add: user_buf_ok_def disjoint_ranges_def pool_size_def write_ptr_ok_def) (simp_all add: sample_pool_def)

lemma race_sample_dirty:
  "dirty_entries reliable_env (cs_table race_cache) = [(3, 0)]"
  "dirty_entries reliable_env (cs_table clean_cache) = []"
  "select_eviction_candidate reliable_env (cs_table race_cache) =
     Some \<lparr>ec_lba = 3, ec_pool_index = 0, ec_needs_flush = True\<rparr>"
  by (simp_all add: dirty_entries_def table_values_def race_cache_def clean_cache_def sample_cache_def reliable_env_def
      sim_env_def race_entry_def select_eviction_candidate_def entries_by_lru_def find_oldest_clean_def entry_is_dirty_def)

section \<open>The races on the concrete engine\<close>

theorem racing_update_marked_clean_witness:
  "\<exists>y e'. serial_reach reliable_env sample_session (quiet_start race_cache sample_link) y \<and>
     cached (sy_state y) 3 = Some e' \<and> \<not> ce_dirty e' \<and> view sim_disk (sy_state y) 3 = replicate 4096 5 \<and>
     disk_block (sim_disk (cs_world (sy_state y))) 4096 3 = replicate 4096 7"
  using racing_update_marked_clean [OF race_sample_setup(1), of 3 "race_entry True" "[]" 65536]
  by (simp add: race_sample_dirty race_sample_buf race_data) blast

theorem stop_misses_late_write_witness:
  "\<exists>y. serial_reach reliable_env sample_session (quiet_start clean_cache sample_link) y \<and>
     sy_flusher y = FExit \<and> view sim_disk (sy_state y) 3 = replicate 4096 5 \<and>
     disk_block (sim_disk (cs_world (sy_state y))) 4096 3 = replicate 4096 7"
proof -
  have "disk_block (sim_disk (cs_world clean_cache)) 4096 3 = replicate 4096 7"
    by (simp add: clean_cache_def disk_block_def load_const)
  then show ?thesis
    using stop_misses_late_write [OF race_sample_setup(2), of 3 "race_entry False" 65536]
    by (simp add: race_sample_dirty race_sample_buf race_data) metis
qed

theorem stale_write_back_corrupts_witness:
  "\<exists>y. serial_reach reliable_env sample_session (quiet_start race_cache sample_link) y \<and>
     cached (sy_state y) 3 = None \<and> view sim_disk (sy_state y) 3 = replicate 4096 5"
  using stale_write_back_corrupts [OF race_sample_setup(1) _ race_sample_dirty(3), of "[]" 8 65536]
  by (simp add: race_sample_dirty race_sample_buf race_data) blast

theorem overlapping_evictions_share_slot_witness:
  "\<exists>y. (sys_step reliable_env sample_session)\<^sup>*\<^sup>* (quiet_start race_cache sample_link) y \<and>
     owner (sy_state y) 8 = Some 0 \<and> owner (sy_state y) 9 = Some 0 \<and> view sim_disk (sy_state y) 8 = replicate 4096 6"
  using overlapping_evictions_share_slot [OF race_sample_setup(1) _ race_sample_dirty(3), of 8 9 65536 131072]
  by (simp add: race_sample_buf race_data) blast

end
