(* ===== verification/Claims.thy ===== *)
theory Claims
  imports Races
begin

text \<open>
  Clients that overlap. \<open>CacheEngine::read\<close> and \<open>CacheEngine::write\<close> take \<open>&self\<close> and lock
  the table and the pool for single calls only, so operations of several threads run at the
  same time. An operation relies on two things that no lock protects: the entry of its own
  block and, while it evicts, the entry of its victim do not change under it (its
  \<^emph>\<open>claims\<close>), and the slot it has taken from the pool or from a victim belongs to nobody else
  (its \<^emph>\<open>hand\<close>). The second follows from the first: as long as the claims of different clients
  are disjoint, any number of overlapping operations keep the pool and the table well-formed,
  with the flush thread running at any moment. The first is not established by the code:
  two operations that claim one victim end up with one slot for two blocks (\<open>Races\<close>), and two
  that claim one missing block lose a slot for good (below).
\<close>

section \<open>Parties that respect each other's claims\<close>

text \<open>
  A step keeps the invariant and the party's own condition; it keeps the condition of every
  party with other claims and another hand, and takes nothing from that hand.
\<close>

locale claiming =
  fixes step :: "'p \<Rightarrow> 's \<Rightarrow> 'p \<times> 's"
    and inv :: "'s \<Rightarrow> bool"
    and ok :: "'s \<Rightarrow> 'p \<Rightarrow> bool"
    and claims :: "'p \<Rightarrow> 'k set"
    and hand :: "'p \<Rightarrow> 'r set"
  assumes own: "inv s \<Longrightarrow> ok s p \<Longrightarrow> step p s = (p', s') \<Longrightarrow> inv s' \<and> ok s' p'"
    and other: "inv s \<Longrightarrow> ok s p \<Longrightarrow> ok s q \<Longrightarrow> claims p \<inter> claims q = {} \<Longrightarrow> hand p \<inter> hand q = {} \<Longrightarrow>
      step p s = (p', s') \<Longrightarrow> ok s' q \<and> hand p' \<inter> hand q = {}"
begin

lemma step_together:
  assumes "inv s" "\<forall>i. ok s (ps i)" "\<forall>i j. i \<noteq> j \<longrightarrow> claims (ps i) \<inter> claims (ps j) = {}"
    and "\<forall>i j. i \<noteq> j \<longrightarrow> hand (ps i) \<inter> hand (ps j) = {}" and "step (ps i) s = (p', s')"
  shows "inv s'" "\<forall>j. ok s' ((ps(i := p')) j)" "\<forall>j k. j \<noteq> k \<longrightarrow> hand ((ps(i := p')) j) \<inter> hand ((ps(i := p')) k) = {}"
proof -
  have own': "inv s'" "ok s' p'" using own [OF assms(1) _ assms(5)] assms(2) by simp_all
  have others: "ok s' (ps j) \<and> hand p' \<inter> hand (ps j) = {}" if "j \<noteq> i" for j
    using other [OF assms(1) _ _ _ _ assms(5), of "ps j"] assms(2-4) that by metis
  show "inv s'" by (rule own')
  show "\<forall>j. ok s' ((ps(i := p')) j)" using own' others by simp
  show "\<forall>j k. j \<noteq> k \<longrightarrow> hand ((ps(i := p')) j) \<inter> hand ((ps(i := p')) k) = {}"
    using others assms(4) by (auto simp: Int_commute)
qed

end

section \<open>Claims and hands of a client\<close>

text \<open>The block a client is evicting.\<close>

fun alloc_victim :: "alloc_pc \<Rightarrow> u64 set" where
  "alloc_victim (WriteBack c) = {ec_lba c}"
| "alloc_victim (Remove c) = {ec_lba c}"
| "alloc_victim a = {}"

fun victim :: "client_pc \<Rightarrow> u64 set" where
  "victim (Reading lba ptr (RAlloc a)) = alloc_victim a"
| "victim (Writing lba ptr (WAlloc a)) = alloc_victim a"
| "victim c = {}"

definition claims :: "client_pc \<Rightarrow> u64 set" where
  "claims c = (if active c then insert (client_lba c) (victim c) else {})"

fun alloc_hand :: "alloc_pc \<Rightarrow> usize set" where
  "alloc_hand (Deallocate c) = {ec_pool_index c}"
| "alloc_hand a = {}"

fun hand :: "client_pc \<Rightarrow> usize set" where
  "hand (Reading lba ptr (RAlloc a)) = alloc_hand a"
| "hand (Reading lba ptr (RFill i b)) = {i}"
| "hand (Reading lba ptr (RInsert i b)) = {i}"
| "hand (Writing lba ptr (WAlloc a)) = alloc_hand a"
| "hand (Writing lba ptr (WFill i b)) = {i}"
| "hand (Writing lba ptr (WInsert i)) = {i}"
| "hand c = {}"

lemma hand_in_hand: "client_ok_at s c \<Longrightarrow> j \<in> hand c \<Longrightarrow> in_hand s j"
proof -
  have "alloc_ok_at s a \<Longrightarrow> j \<in> alloc_hand a \<Longrightarrow> in_hand s j" for a by (cases a) simp_all
  then show "client_ok_at s c \<Longrightarrow> j \<in> hand c \<Longrightarrow> in_hand s j" by (cases c rule: hand.cases) auto
qed

text \<open>What a step with claims \<open>C\<close> and hand \<open>H\<close> may do to the slots, ending with hand \<open>H'\<close>.\<close>

definition slot_effect :: "u64 set \<Rightarrow> usize set \<Rightarrow> usize set \<Rightarrow> 'w cache_state \<Rightarrow> 'w cache_state \<Rightarrow> bool" where
  "slot_effect C H H' s s' \<longleftrightarrow> (\<forall>l. l \<notin> C \<longrightarrow> owner s' l = owner s l) \<and>
     (\<forall>j. in_hand s j \<longrightarrow> j \<notin> H \<longrightarrow> in_hand s' j) \<and> (\<forall>j \<in> H'. in_hand s j \<longrightarrow> j \<in> H) \<and>
     slot_block s' = slot_block s \<and> bsize s' = bsize s"

lemma slot_effect_same: "same_slots s s' \<Longrightarrow> H' \<subseteq> H \<Longrightarrow> slot_effect C H H' s s'"
  using slot_block_pool [of s' s] same_slots_in_hand [of s s'] by (auto simp: slot_effect_def same_slots_def)

lemma slot_effect_mono: "slot_effect C H H' s s' \<Longrightarrow> C \<subseteq> D \<Longrightarrow> slot_effect D H H' s s'"
  unfolding slot_effect_def by blast

lemma others_ok:
  assumes eff: "slot_effect C H H' s s'" and ok: "client_ok_at s q" and apart: "C \<inter> claims q = {}" "H \<inter> hand q = {}"
  shows "client_ok_at s' q" "H' \<inter> hand q = {}"
proof -
  note e = eff [unfolded slot_effect_def]
  have own: "owner s' l = owner s l" if "l \<in> claims q" for l using e apart(1) that by blast
  have held: "in_hand s' j" if "j \<in> hand q" for j using e apart(2) hand_in_hand [OF ok that] that by blast
  have alloc: "alloc_ok_at s' a" if "alloc_ok_at s a" "alloc_victim a \<subseteq> claims q" "alloc_hand a \<subseteq> hand q" for a
    using that own held by (cases a) simp_all
  show "client_ok_at s' q"
  proof (cases q)
    case (Reading lba ptr pc)
    then show ?thesis using ok e own held alloc by (cases pc) (simp_all add: claims_def subset_insertI)
  next
    case (Writing lba ptr pc)
    then show ?thesis using ok e own held alloc by (cases pc) (simp_all add: claims_def subset_insertI)
  qed simp
  show "H' \<inter> hand q = {}" using e hand_in_hand [OF ok] apart(2) by blast
qed

section \<open>A client stays within them\<close>

fun taken :: "alloc_pc + (usize \<times> block_buffer) cache_result \<Rightarrow> usize set" where
  "taken (Inl a) = alloc_hand a"
| "taken (Inr (Inr (i, b))) = {i}"
| "taken (Inr (Inl e)) = {}"

lemma alloc_effect:
  assumes inv: "struct_inv s" and ok: "alloc_ok_at s a" and run: "alloc_next E fd chan a s = (r, s')"
  shows "slot_effect (alloc_victim a) (alloc_hand a) (taken r) s s'"
proof -
  have take: "slot_effect {} {} (taken r) s s'" if "a = Allocate \<or> a = Reallocate"
    using struct_invD(1) [OF inv]
  proof (cases rule: pool_allocate_cases)
    case (slot i fl)
    then have "r = Inr (Inr (i, slot_block s i))" "s' = s\<lparr>cs_pool := (cs_pool s)\<lparr>mp_free_list := fl\<rparr>\<rparr>"
      using run that by (auto simp: alloc_next_def slot_block_def)
    then show ?thesis
      using slot(1) by (auto simp: slot_effect_def in_hand_owner pool_free_def slot_block_def block_addr_def fun_eq_iff)
  next
    case full
    then have "s' = s" "taken r = {}" using run that by (auto simp: alloc_next_def)
    then show ?thesis by (simp add: slot_effect_same)
  qed
  show ?thesis
  proof (cases a)
    case Select
    then show ?thesis
      using run by (intro slot_effect_same) (auto simp: alloc_next_def split: option.splits)
  next
    case (WriteBack c)
    then show ?thesis
      using run flush_candidate_same_slots [of s E fd chan c]
      by (intro slot_effect_same) (auto simp: alloc_next_def split: prod.splits sum.splits)
  next
    case (Remove c)
    then show ?thesis
      using run ok by (auto simp: alloc_next_def slot_effect_def in_hand_owner slot_block_def fun_eq_iff split: if_splits)
  next
    case (Deallocate c)
    then show ?thesis
      using run by (auto simp: alloc_next_def slot_effect_def in_hand_owner slot_block_def fun_eq_iff pool_deallocate_def
          pool_free_def block_addr_def)
  qed (use take in auto)
qed

lemma insert_effect:
  assumes "ce_pool_index e = i"
  shows "slot_effect {lba} {i} {} s (s\<lparr>cs_table := snd (table_insert (cs_table s) lba e), cs_world := w\<rparr>)"
  using assms by (auto simp: slot_effect_def in_hand_owner slot_block_def fun_eq_iff)

lemma read_effect:
  assumes inv: "struct_inv s" and ok: "client_ok_at s (Reading lba ptr pc)" and run: "read_next E fd chan lba ptr pc s = (pc', s')"
  shows "slot_effect (claims (Reading lba ptr pc)) (hand (Reading lba ptr pc)) (hand (Reading lba ptr pc')) s s'"
proof (cases pc)
  case RTouch
  show ?thesis
  proof (cases "cached s lba")
    case None
    then show ?thesis
      using run RTouch by (intro slot_effect_same) (auto simp: read_next_def get_and_touch_eq)
  next
    case (Some e)
    then show ?thesis
      using run RTouch same_slots_touch [OF inv Some] by (intro slot_effect_same) (auto simp: read_next_def get_and_touch_eq)
  qed
next
  case (RAlloc a)
  obtain r where a: "alloc_next E fd chan a s = (r, s')"
    using run RAlloc by (auto simp: read_next_def split: prod.splits sum.splits)
  have "hand (Reading lba ptr pc') = taken r"
    using run RAlloc a by (auto simp: read_next_def split: sum.splits prod.splits)
  then show ?thesis
    using alloc_effect [OF inv _ a] ok RAlloc by (auto simp: claims_def intro: slot_effect_mono)
next
  case (RInsert i b)
  then show ?thesis
    using run insert_effect [where lba = lba and i = i and s = s]
    by (auto simp: read_next_def case_prod_unfold claims_def)
qed (use run in \<open>auto intro!: slot_effect_same simp: read_next_def split: prod.splits sum.splits\<close>)

lemma write_effect:
  assumes inv: "struct_inv s" and ok: "client_ok_at s (Writing lba ptr pc)"
    and run: "write_next E fd chan sch ro lba ptr pc s = (pc', s')"
  shows "slot_effect (claims (Writing lba ptr pc)) (hand (Writing lba ptr pc)) (hand (Writing lba ptr pc')) s s'"
proof (cases pc)
  case WMark
  then obtain e where e: "cached s lba = Some e" using ok by (auto simp: owner_def)
  then show ?thesis
    using run WMark same_slots_touch [OF inv e] by (intro slot_effect_same) (auto simp: write_next_def table_mark_dirty_eq)
next
  case (WAlloc a)
  obtain r where a: "alloc_next E fd chan a s = (r, s')"
    using run WAlloc by (auto simp: write_next_def split: prod.splits sum.splits)
  have "hand (Writing lba ptr pc') = taken r"
    using run WAlloc a by (auto simp: write_next_def split: sum.splits prod.splits)
  then show ?thesis
    using alloc_effect [OF inv _ a] ok WAlloc by (auto simp: claims_def intro: slot_effect_mono)
next
  case (WInsert i)
  then show ?thesis
    using run insert_effect [where lba = lba and i = i and s = s]
    by (auto simp: write_next_def case_prod_unfold claims_def)
qed (use run in \<open>auto intro!: slot_effect_same simp: write_next_def split: prod.splits sum.splits option.splits if_splits\<close>)

lemma client_effect:
  assumes "struct_inv s" "client_ok_at s c" "client_next E S chan c s = (c', s')"
  shows "slot_effect (claims c) (hand c) (hand c') s s'"
proof (cases c)
  case Idle
  then show ?thesis using assms by (auto simp: client_next_def intro: slot_effect_same)
next
  case (Reading lba ptr pc)
  obtain pc' where "read_next E (ss_fd S) chan lba ptr pc s = (pc', s')" "c' = Reading lba ptr pc'"
    using assms(3) Reading by (auto simp: client_next_def apfst_def map_prod_def split: prod.splits)
  then show ?thesis using read_effect [OF assms(1)] assms(2) Reading by blast
next
  case (Writing lba ptr pc)
  obtain pc' where "write_next E (ss_fd S) chan (ss_schedule S) (ss_read_only S) lba ptr pc s = (pc', s')"
      "c' = Writing lba ptr pc'"
    using assms(3) Writing by (auto simp: client_next_def apfst_def map_prod_def split: prod.splits)
  then show ?thesis using write_effect [OF assms(1)] assms(2) Writing by blast
qed

interpretation cl: claiming "client_next E S chan" "\<lambda>s. hash_ok E \<and> struct_inv s" client_ok_at claims hand for E S chan
proof (unfold_locales, goal_cases)
  case (1 s p p' s')
  then show ?case using client_step by blast
next
  case (2 s p q p' s')
  then show ?case using others_ok [OF client_effect] by blast
qed

section \<open>Overlapping operations\<close>

definition claims_apart :: "'w sys \<Rightarrow> bool" where
  "claims_apart x \<longleftrightarrow> (\<forall>i j. i \<noteq> j \<longrightarrow> claims (sy_clients x i) \<inter> claims (sy_clients x j) = {})"

definition hands_apart :: "'w sys \<Rightarrow> bool" where
  "hands_apart x \<longleftrightarrow> (\<forall>i j. i \<noteq> j \<longrightarrow> hand (sy_clients x i) \<inter> hand (sy_clients x j) = {})"

text \<open>The executions in which different clients never claim the same block.\<close>

inductive claimed_reach :: "'w env \<Rightarrow> session \<Rightarrow> 'w sys \<Rightarrow> 'w sys \<Rightarrow> bool" for E S x where
  start: "claimed_reach E S x x"
| step: "claimed_reach E S x y \<Longrightarrow> sys_step E S y z \<Longrightarrow> claims_apart z \<Longrightarrow> claimed_reach E S x z"

text \<open>Operations that do not overlap at all are a special case.\<close>

lemma solo_claims_apart: "solo x \<Longrightarrow> claims_apart x"
proof -
  have "claims Idle = {}" by (simp add: claims_def)
  then show "solo x \<Longrightarrow> claims_apart x" unfolding solo_def claims_apart_def by (metis Int_empty_left Int_empty_right)
qed

lemma serial_claimed: "serial_reach E S x y \<Longrightarrow> claimed_reach E S x y"
  by (induction rule: serial_reach.induct) (auto intro: claimed_reach.intros solo_claims_apart)

lemma claimed_step:
  assumes hash: "hash_ok E" and inv: "sys_inv S x" and ap: "claims_apart x" "hands_apart x" and step: "sys_step E S x y"
  shows "sys_inv S y \<and> hands_apart y"
  using step
proof (cases rule: sys_step.cases)
  case (call i c)
  have "hand c = {}" using call(3) by (cases c rule: starting.cases) simp_all
  then show ?thesis
    using inv ap(2) call starting_ok [of c "sy_state x"] by (auto simp: sys_inv_def hands_apart_def)
next
  case (client i)
  obtain c' s' where n: "client_next E S (fl_chan (sy_link x)) (sy_clients x i) (sy_state x) = (c', s')" by fastforce
  have "bsize s' = bsize (sy_state x)"
    using client_effect [OF _ _ n] inv by (simp add: sys_inv_def slot_effect_def)
  moreover note cl.step_together [where ps = "sy_clients x", OF _ _ _ _ n]
  ultimately show ?thesis
    using hash inv ap client(1) n by (simp add: sys_inv_def claims_apart_def hands_apart_def client_move_def)
next
  case (return i)
  then show ?thesis using inv ap(2) by (auto simp: sys_inv_def hands_apart_def)
next
  case flusher
  then have "sys_inv S y"
    using flusher_same_slots
    by (intro sys_inv_same [OF inv]) (simp_all add: flusher_move_def case_prod_unfold)
  then show ?thesis using ap(2) flusher by (simp add: hands_apart_def flusher_move_def case_prod_unfold)
next
  case stop
  then have "sys_inv S y"
    by (intro sys_inv_same [OF inv]) (simp_all add: stop_move_def case_prod_unfold)
  then show ?thesis using ap(2) stop by (simp add: hands_apart_def stop_move_def case_prod_unfold)
qed

lemma claimed_reach_inv:
  assumes "claimed_reach E S x y" "hash_ok E" "sys_inv S x" "claims_apart x" "hands_apart x"
  shows "sys_inv S y \<and> claims_apart y \<and> hands_apart y"
  using assms(1)
proof (induction rule: claimed_reach.induct)
  case (step y z)
  then show ?case using claimed_step [OF assms(2)] by blast
qed (use assms in simp)

text \<open>
  C11. Any number of clients may run at the same time, with the flush thread at any moment
  between their steps, as long as no two of them claim the same block: an operation claims
  its block and, while it evicts, its victim. In every state reached, the pool and the table
  are well-formed, no slot has two owners or is free and owned, every client finds the
  entries it relies on, and the slots that clients have taken and not yet given to an entry
  are different, not free and not owned.
\<close>

theorem overlapping_clients_keep_structure:
  assumes "claimed_reach E S (quiet_start s link) y" "hash_ok E" "struct_inv s"
    "\<forall>lba < ss_max_lba S. lba_fits (bsize s) lba"
  shows "struct_inv (sy_state y) \<and> (\<forall>i. client_ok_at (sy_state y) (sy_clients y i)) \<and>
    (\<forall>i. \<forall>j \<in> hand (sy_clients y i). in_hand (sy_state y) j \<and> (\<forall>k. k \<noteq> i \<longrightarrow> j \<notin> hand (sy_clients y k)))"
proof -
  have "sys_inv S (quiet_start s link)" "claims_apart (quiet_start s link)" "hands_apart (quiet_start s link)"
    using assms(3,4) by (simp_all add: sys_inv_def claims_apart_def hands_apart_def quiet_start_def claims_def)
  from claimed_reach_inv [OF assms(1,2) this] show ?thesis
    using hand_in_hand by (fastforce simp: sys_inv_def hands_apart_def)
qed

text \<open>Two reads of different blocks, both under way, in any kind of run that admits them.\<close>

lemma two_reads_run:
  assumes ok: "\<And>c d. c \<in> {Idle, Reading 8 131072 RTouch, Reading 8 131072 (RAlloc Allocate)} \<Longrightarrow>
      d \<in> {Idle, Reading 9 65536 RTouch, Reading 9 65536 (RAlloc Allocate)} \<Longrightarrow> ok (two_clients race_cache c d sample_link)"
  shows "(\<lambda>x y. sys_step reliable_env sample_session x y \<and> ok y)\<^sup>*\<^sup>* (quiet_start race_cache sample_link)
     (two_clients race_cache (Reading 8 131072 (RAlloc Allocate)) (Reading 9 65536 (RAlloc Allocate)) sample_link)"
proof -
  let ?c = "\<lambda>pc. Reading 8 131072 pc" and ?d = "\<lambda>pc. Reading 9 65536 pc" and ?m = "RAlloc Allocate"
  let ?x = "\<lambda>c d. two_clients race_cache c d sample_link" and ?step = "sys_step reliable_env sample_session"
  have miss: "client_next reliable_env sample_session chan (Reading l p RTouch) race_cache = (Reading l p ?m, race_cache)"
    if "l \<noteq> 3" for l p chan
    using that by (simp add: client_next_def read_next_def get_and_touch_eq)
  have 1: "?step (?x Idle Idle) (?x (?c RTouch) Idle)"
    using sys_step.call [of "?x Idle Idle" 0 "?c RTouch" sample_session reliable_env]
    by (simp add: two_clients_def sample_link_def is_stopped_def fun_upd_twist)
  have 2: "?step (?x (?c RTouch) Idle) (?x (?c RTouch) (?d RTouch))"
    using sys_step.call [of "?x (?c RTouch) Idle" 1 "?d RTouch" sample_session reliable_env]
    by (simp add: two_clients_def sample_link_def is_stopped_def)
  have 3: "?step (?x (?c RTouch) (?d RTouch)) (?x (?c ?m) (?d RTouch))"
    using sys_step.client [of "?x (?c RTouch) (?d RTouch)" 0 reliable_env sample_session]
    by (simp add: two_clients_def client_move_def miss fun_upd_twist)
  have 4: "?step (?x (?c ?m) (?d RTouch)) (?x (?c ?m) (?d ?m))"
    using sys_step.client [of "?x (?c ?m) (?d RTouch)" 1 reliable_env sample_session]
    by (simp add: two_clients_def client_move_def miss)
  define R where "R = (\<lambda>x y. ?step x y \<and> ok y)"
  have "R (?x Idle Idle) (?x (?c RTouch) Idle)" "R (?x (?c RTouch) Idle) (?x (?c RTouch) (?d RTouch))"
    "R (?x (?c RTouch) (?d RTouch)) (?x (?c ?m) (?d RTouch))" "R (?x (?c ?m) (?d RTouch)) (?x (?c ?m) (?d ?m))"
    using 1 2 3 4 ok by (simp_all add: R_def)
  then have "R\<^sup>*\<^sup>* (?x Idle Idle) (?x (?c ?m) (?d ?m))" by (meson converse_rtranclp_into_rtranclp rtranclp.rtrancl_refl)
  then show ?thesis by (simp add: R_def quiet_start_two)
qed

lemma claimed_run: "(\<lambda>x y. sys_step E S x y \<and> claims_apart y)\<^sup>*\<^sup>* x y \<Longrightarrow> claimed_reach E S x y"
  by (induction rule: rtranclp_induct) (auto intro: claimed_reach.intros)

theorem overlapping_clients_keep_structure_witness:
  "\<exists>y. claimed_reach reliable_env sample_session (quiet_start race_cache sample_link) y \<and>
     sy_clients y 0 = Reading 8 131072 (RAlloc Allocate) \<and> sy_clients y 1 = Reading 9 65536 (RAlloc Allocate) \<and>
     struct_inv (sy_state y)"
proof -
  let ?y = "two_clients race_cache (Reading 8 131072 (RAlloc Allocate)) (Reading 9 65536 (RAlloc Allocate)) sample_link"
  have "claims_apart (two_clients race_cache c d sample_link)" if "claims c \<subseteq> {8}" "claims d \<subseteq> {9}" for c d
  proof -
    have "claims Idle = {}" "claims c \<inter> claims d = {}" using that by (auto simp: claims_def [of Idle])
    then show ?thesis by (auto simp: claims_apart_def two_clients_def)
  qed
  then have "claimed_reach reliable_env sample_session (quiet_start race_cache sample_link) ?y"
    by (intro claimed_run two_reads_run) (auto simp: claims_def)
  moreover have "\<forall>lba < ss_max_lba sample_session. lba_fits (bsize race_cache) lba"
    by (simp add: lba_fits_def word_less_nat_alt)
  ultimately show ?thesis
    using overlapping_clients_keep_structure [of reliable_env sample_session race_cache sample_link ?y]
      race_sample_setup(1) race_setupD(5,10) by (intro exI [of _ ?y]) (simp add: two_clients_def)
qed

section \<open>Two misses of one block\<close>

lemma miss_phase:
  assumes "struct_inv s" "cached s lba = None" "mp_free_list (cs_pool s) = fl @ [i]"
  shows "leads E S chan 2 (Reading lba ptr RTouch, s)
    (Reading lba ptr (RFill i (slot_block s i)), s\<lparr>cs_pool := (cs_pool s)\<lparr>mp_free_list := fl\<rparr>\<rparr>)"
proof -
  have "i < mp_capacity (cs_pool s)" using struct_invD(1) [OF assms(1)] assms(3) by (simp add: pool_inv_def)
  then have "pool_allocate (cs_pool s) = (Inr (i, slot_block s i), (cs_pool s)\<lparr>mp_free_list := fl\<rparr>)"
    by (simp add: pool_allocate_def assms(3) buffer_for_index_eq [OF struct_invD(2) [OF assms(1)]] slot_block_def)
  then show ?thesis
    unfolding numeral_2_eq_2
    by - (rule leads_step [OF HOL.refl], simp add: client_next_def read_next_def get_and_touch_eq alloc_next_def assms(2))+
qed

lemma fill_read_phase:
  assumes env: "env_ok E disk (ss_fd S)" "pread_live E (ss_fd S) n" and lba: "lba_fits (bsize u) lba" "unat lba * bsize u + bsize u \<le> n"
  obtains s' where "leads E S chan 3 (Reading lba ptr (RFill i (slot_block u i)), u)
      (Reading lba ptr (RDone (Inr \<lparr>rr_cache_hit = False\<rparr>)), s')"
    "cs_pool s' = cs_pool u" "owner s' = (owner u)(lba \<mapsto> i)"
proof -
  obtain w m where rd: "read_lba E (ss_fd S) lba (mp_block_size (cs_pool u)) (block_addr (cs_pool u) i) (bsize u) (cs_world u) (cs_mem u) = (Inr (), w, m)"
    using read_lba_live [OF env_okD(1) [OF env(1)] env(2) lba] by blast
  define e where "e = fst (entry_new E lba i w)"
  define s' where "s' = u\<lparr>cs_table := snd (table_insert (cs_table u) lba e), cs_world := snd (env_now E w),
    cs_mem := fast_copy_temporal E ptr (block_addr (cs_pool u) i) (bsize u) m\<rparr>"
  have "leads E S chan (Suc (Suc (Suc 0))) (Reading lba ptr (RFill i (slot_block u i)), u)
      (Reading lba ptr (RDone (Inr \<lparr>rr_cache_hit = False\<rparr>)), s')"
    by (rule leads_step [OF HOL.refl], simp add: client_next_def read_next_def slot_block_def rd case_prod_unfold s'_def e_def)+
  moreover have "owner s' = (owner u)(lba \<mapsto> i)" by (auto simp: owner_def s'_def e_def fun_eq_iff)
  ultimately show thesis by (intro that [of s']) (simp_all add: eval_nat_numeral s'_def)
qed

text \<open>
  C21. Two overlapping reads of the same block that is not cached lose a slot for good: both
  miss, both take a slot and fill it, and the entry of the second replaces that of the first.
  Both reads return \<open>Ok\<close>; when no call is running any more, the first slot is neither free nor
  owned by an entry.
\<close>

theorem overlapping_misses_leak_slot:
  assumes env: "env_ok E disk (ss_fd S)" "pread_live E (ss_fd S) n" and inv: "struct_inv s" and run: "\<not> is_stopped link"
    and miss: "cached s lba = None" "mp_free_list (cs_pool s) = fl @ [j, i]"
    and lba: "lba < ss_max_lba S" "lba_fits (bsize s) lba" "unat lba * bsize s + bsize s \<le> n"
  shows "\<exists>y z. (sys_step E S)\<^sup>*\<^sup>* (quiet_start s link) y \<and>
    sy_clients y 0 = Reading lba p (RDone (Inr \<lparr>rr_cache_hit = False\<rparr>)) \<and>
    sy_clients y 1 = Reading lba q (RDone (Inr \<lparr>rr_cache_hit = False\<rparr>)) \<and>
    (sys_step E S)\<^sup>*\<^sup>* y z \<and> (\<forall>k. sy_clients z k = Idle) \<and>
    owner (sy_state z) lba = Some j \<and> mp_free_list (cs_pool (sy_state z)) = fl \<and> in_hand (sy_state z) i"
proof -
  let ?P = "\<lambda>fl. (cs_pool s)\<lparr>mp_free_list := fl\<rparr>" and ?ok = "RDone (Inr \<lparr>rr_cache_hit = False\<rparr>)"
  let ?s1 = "s\<lparr>cs_pool := ?P (fl @ [j])\<rparr>" and ?s2 = "s\<lparr>cs_pool := ?P fl\<rparr>"
  have pool: "distinct (fl @ [j, i])" "i < mp_capacity (cs_pool s)" "i \<in> pool_free (cs_pool s)"
    using struct_invD(1) [OF inv] miss(2) by (simp_all add: pool_inv_def pool_free_def)
  have inv1: "struct_inv ?s1" by (rule pool_take_struct(1) [OF inv]) (simp add: miss(2))
  have blk: "slot_block ?s2 = slot_block s" "slot_block ?s1 = slot_block s"
    by (simp_all add: slot_block_def block_addr_def fun_eq_iff)
  have m1: "leads E S (fl_chan link) 2 (Reading lba p RTouch, s) (Reading lba p (RFill i (slot_block s i)), ?s1)"
    by (rule miss_phase [OF inv miss(1)]) (simp add: miss(2))
  have m2: "leads E S (fl_chan link) 2 (Reading lba q RTouch, ?s1) (Reading lba q (RFill j (slot_block s j)), ?s2)"
    using miss_phase [OF inv1, of lba fl j E S "fl_chan link" q] miss(1) by (simp add: blk)
  obtain s3 where f1: "leads E S (fl_chan link) 3 (Reading lba p (RFill i (slot_block s i)), ?s2) (Reading lba p ?ok, s3)"
    and s3: "cs_pool s3 = ?P fl" "owner s3 = (owner s)(lba \<mapsto> i)"
    using fill_read_phase [OF env, of ?s2 lba "fl_chan link" p i] lba(2,3) by (auto simp: blk)
  have blk3: "slot_block s3 = slot_block s" using slot_block_pool [of s3 ?s2] s3(1) blk by simp
  obtain s4 where f2: "leads E S (fl_chan link) 3 (Reading lba q (RFill j (slot_block s j)), s3) (Reading lba q ?ok, s4)"
    and s4: "cs_pool s4 = ?P fl" "owner s4 = (owner s)(lba \<mapsto> j)"
    using fill_read_phase [OF env, of s3 lba "fl_chan link" q j] lba(2,3) s3 by (auto simp: blk3)
  let ?y = "two_clients s4 (Reading lba p ?ok) (Reading lba q ?ok) link" and ?z = "quiet_start s4 link"
  have "(sys_step E S)\<^sup>*\<^sup>* (quiet_start s link) (two_clients s (Reading lba p RTouch) (Reading lba q RTouch) link)"
    by (rule two_calls) (simp_all add: run lba(1))
  from two_second [OF two_first [OF two_second [OF two_first [OF this m1] m2] f1] f2]
  have y: "(sys_step E S)\<^sup>*\<^sup>* (quiet_start s link) ?y" .
  have "sys_step E S ?y (two_clients s4 Idle (Reading lba q ?ok) link)"
    using sys_step.return [of ?y 0 E S] by (simp add: two_clients_def fun_upd_twist)
  moreover have "sys_step E S (two_clients s4 Idle (Reading lba q ?ok) link) ?z"
    using sys_step.return [of "two_clients s4 Idle (Reading lba q ?ok) link" 1 E S] by (simp add: two_clients_def quiet_start_two)
  ultimately have z: "(sys_step E S)\<^sup>*\<^sup>* ?y ?z" by (meson converse_rtranclp_into_rtranclp rtranclp.rtrancl_refl)
  have "owner s l \<noteq> Some i" for l using inv pool(3) unfolding struct_inv_owner by blast
  then have "in_hand s4 i" using pool s4 by (simp add: in_hand_owner pool_free_def)
  then show ?thesis
    using y z s4 by (intro exI [of _ ?y] exI [of _ ?z]) (simp add: two_clients_def quiet_start_def)
qed

text \<open>An empty cache with two free slots.\<close>

definition empty_cache :: "sim_world cache_state" where
  "empty_cache = race_cache\<lparr>
     cs_pool := sample_pool\<lparr>mp_backing := \<lparr>ab_ptr = 16777216, ab_size = 8192, ab_align = 4096\<rparr>, mp_capacity := 2,
       mp_free_list := [0, 1]\<rparr>, cs_table := \<lparr>lt_inner = []\<rparr>\<rparr>"

lemma empty_cache_simps [simp]:
  "mp_capacity (cs_pool empty_cache) = 2" "mp_free_list (cs_pool empty_cache) = [0, 1]"
  "mp_block_size (cs_pool empty_cache) = 4096" "mp_base_ptr (cs_pool empty_cache) = 16777216"
  "cached empty_cache lba = None" "owner empty_cache lba = None"
  by (simp_all add: empty_cache_def sample_pool_def owner_def table_get_def)

lemma empty_cache_inv: "struct_inv empty_cache"
proof -
  have "pool_inv (cs_pool empty_cache)" by (simp add: pool_inv_def pool_shape_def pool_size_def)
  moreover have "table_inv (cs_table empty_cache)" by (simp add: table_inv_def empty_cache_def)
  ultimately show ?thesis unfolding struct_inv_owner by simp
qed

theorem overlapping_misses_leak_slot_witness:
  "\<exists>z. (sys_step reliable_env sample_session)\<^sup>*\<^sup>* (quiet_start empty_cache sample_link) z \<and> (\<forall>k. sy_clients z k = Idle) \<and>
     owner (sy_state z) 5 = Some 0 \<and> mp_free_list (cs_pool (sy_state z)) = [] \<and> in_hand (sy_state z) 1"
proof -
  have "\<not> is_stopped sample_link" by (simp add: sample_link_def is_stopped_def)
  then obtain y z where "(sys_step reliable_env sample_session)\<^sup>*\<^sup>* (quiet_start empty_cache sample_link) y"
      "(sys_step reliable_env sample_session)\<^sup>*\<^sup>* y z" "\<forall>k. sy_clients z k = Idle" "owner (sy_state z) 5 = Some 0"
      "mp_free_list (cs_pool (sy_state z)) = []" "in_hand (sy_state z) 1"
    using overlapping_misses_leak_slot [OF reliable_env_ok reliable_pread_live empty_cache_inv,
        where S = sample_session and n = 1048576 and link = sample_link and lba = 5 and fl = "[]" and j = 0 and i = 1]
    by (simp add: lba_fits_def) blast
  then show ?thesis using rtranclp_trans by metis
qed

end
