(* ===== verification/Calm.thy ===== *)
theory Calm
  imports Claims
begin

text \<open>
  What one step does to the data. The cache appears to its callers as an atomic store of
  blocks; this theory defines that store, the condition \<open>apart\<close> on the blocks that a client and
  the flush thread hold at the same time, and the data invariant \<open>calm\<close> of a client, and shows
  that every step of a client or of the flush thread keeps the invariant and is either
  invisible in the store or one of its steps, also when the device fails. \<open>Orderly\<close> puts any
  number of clients and the flush thread together.

  The conditions of \<open>apart\<close> are the two the code does not establish: a block that is being
  evicted is not on the list of the running flush cycle, and an update that has copied its
  data but not marked the entry does not meet the flush thread between its write of the
  same block and its mark.
\<close>

section \<open>The atomic store\<close>

text \<open>A call as its caller sees it: what it asked for, or what it got.\<close>

datatype call =
    Free
  | Want_read u64
  | Want_write u64 "u8 list"
  | Got u64 "u8 list"
  | Put u64
  | Failed

record atomic =
  at_content :: "u64 \<Rightarrow> u8 list"
  at_calls :: "nat \<Rightarrow> call"

fun wanted :: "call \<Rightarrow> bool" where
  "wanted (Want_read lba) = True"
| "wanted (Want_write lba d) = True"
| "wanted c = False"

fun answered :: "call \<Rightarrow> bool" where
  "answered (Got lba d) = True"
| "answered (Put lba) = True"
| "answered Failed = True"
| "answered c = False"

inductive atomic_step :: "atomic \<Rightarrow> atomic \<Rightarrow> bool" where
  ask: "at_calls a i = Free \<Longrightarrow> wanted c \<Longrightarrow> atomic_step a (a\<lparr>at_calls := (at_calls a)(i := c)\<rparr>)"
| read: "at_calls a i = Want_read lba \<Longrightarrow>
     atomic_step a (a\<lparr>at_calls := (at_calls a)(i := Got lba (at_content a lba))\<rparr>)"
| put: "at_calls a i = Want_write lba d \<Longrightarrow>
     atomic_step a \<lparr>at_content = (at_content a)(lba := d), at_calls = (at_calls a)(i := Put lba)\<rparr>"
| fail: "wanted (at_calls a i) \<Longrightarrow> atomic_step a (a\<lparr>at_calls := (at_calls a)(i := Failed)\<rparr>)"
| leave: "answered (at_calls a i) \<Longrightarrow> atomic_step a (a\<lparr>at_calls := (at_calls a)(i := Free)\<rparr>)"

section \<open>The abstraction\<close>

text \<open>The buffer of a call holds the data to write, and at the end the data read.\<close>

fun abs_call :: "'w cache_state \<Rightarrow> client_pc \<Rightarrow> call" where
  "abs_call s Idle = Free"
| "abs_call s (Reading lba ptr pc) =
     (case pc of
        RDone (Inr v) \<Rightarrow> Got lba (load_bytes (cs_mem s) ptr (bsize s))
      | RDone (Inl e) \<Rightarrow> Failed
      | _ \<Rightarrow> Want_read lba)"
| "abs_call s (Writing lba ptr pc) =
     (case pc of
        WMark \<Rightarrow> Put lba
      | WWake u \<Rightarrow> Put lba
      | WDone (Inr v) \<Rightarrow> Put lba
      | WDone (Inl e) \<Rightarrow> Failed
      | WFault \<Rightarrow> Failed
      | _ \<Rightarrow> Want_write lba (load_bytes (cs_mem s) ptr (bsize s)))"

definition abs_sys :: "'w disk_view \<Rightarrow> 'w sys \<Rightarrow> atomic" where
  "abs_sys disk x = \<lparr>at_content = view disk (sy_state x), at_calls = (\<lambda>i. abs_call (sy_state x) (sy_clients x i))\<rparr>"

section \<open>Blocks that are kept apart\<close>

text \<open>The flush thread's list: what it has still to write, and the block it has to mark.\<close>

fun pending :: "flusher_pc \<Rightarrow> (u64 \<times> usize) list" where
  "pending (FWrite ds n sig) = ds"
| "pending (FMark lba ds n sig) = ds"
| "pending f = []"

fun marking :: "flusher_pc \<Rightarrow> u64 list" where
  "marking (FMark lba ds n sig) = [lba]"
| "marking f = []"

definition listed :: "flusher_pc \<Rightarrow> u64 list" where
  "listed f = marking f @ map fst (pending f)"

text \<open>The block a client has overwritten without marking it.\<close>

fun unmarked :: "client_pc \<Rightarrow> u64 set" where
  "unmarked (Writing lba ptr WMark) = {lba}"
| "unmarked c = {}"

definition apart :: "client_pc \<Rightarrow> flusher_pc \<Rightarrow> bool" where
  "apart c f \<longleftrightarrow> victim c \<inter> set (listed f) = {} \<and> unmarked c \<inter> set (marking f) = {}"

fun client_buf :: "client_pc \<Rightarrow> nat set" where
  "client_buf Idle = {}"
| "client_buf (Reading lba ptr pc) = {ptr}"
| "client_buf (Writing lba ptr pc) = {ptr}"

text \<open>
  \<open>B\<close> stands for the blocks that other clients have overwritten and not marked.
\<close>

definition clear :: "u64 set \<Rightarrow> client_pc \<Rightarrow> flusher_pc \<Rightarrow> bool" where
  "clear B c f \<longleftrightarrow> apart c f \<and> victim c \<inter> B = {}"

section \<open>The data invariant\<close>

text \<open>What becomes of a block: its slot and whether it is dirty, if it is cached.\<close>

definition fate :: "'w cache_state \<Rightarrow> u64 \<Rightarrow> (usize \<times> bool) option" where
  "fate s l = map_option (\<lambda>e. (ce_pool_index e, ce_dirty e)) (cached s l)"

definition on_disk :: "'w disk_view \<Rightarrow> 'w cache_state \<Rightarrow> u64 \<Rightarrow> u8 list" where
  "on_disk disk s l = disk_block (disk (cs_world s)) (bsize s) l"

definition synced :: "'w disk_view \<Rightarrow> 'w cache_state \<Rightarrow> u64 \<Rightarrow> usize \<Rightarrow> bool" where
  "synced disk s l i \<longleftrightarrow> slot_data s i = on_disk disk s l"

definition clean_ok :: "'w disk_view \<Rightarrow> 'w cache_state \<Rightarrow> u64 set \<Rightarrow> bool" where
  "clean_ok disk s B \<longleftrightarrow> (\<forall>l i. fate s l = Some (i, False) \<longrightarrow> l \<notin> B \<longrightarrow> synced disk s l i)"

definition lists_ok :: "'w disk_view \<Rightarrow> 'w cache_state \<Rightarrow> flusher_pc \<Rightarrow> bool" where
  "lists_ok disk s f \<longleftrightarrow> distinct (listed f) \<and>
     (\<forall>(l, i) \<in> set (pending f). fate s l = Some (i, True)) \<and>
     (\<forall>l \<in> set (marking f). \<exists>i. fate s l = Some (i, True) \<and> synced disk s l i)"

fun alloc_data :: "'w disk_view \<Rightarrow> 'w cache_state \<Rightarrow> alloc_pc \<Rightarrow> bool" where
  "alloc_data disk s (WriteBack c) = (fate s (ec_lba c) = Some (ec_pool_index c, ec_needs_flush c))"
| "alloc_data disk s (Remove c) = synced disk s (ec_lba c) (ec_pool_index c)"
| "alloc_data disk s a = True"

fun client_data :: "'w disk_view \<Rightarrow> 'w cache_state \<Rightarrow> client_pc \<Rightarrow> bool" where
  "client_data disk s (Reading lba ptr (RAlloc a)) = alloc_data disk s a"
| "client_data disk s (Reading lba ptr (RInsert i b)) = synced disk s lba i"
| "client_data disk s (Writing lba ptr (WAlloc a)) = alloc_data disk s a"
| "client_data disk s (Writing lba ptr (WInsert i)) = (slot_data s i = load_bytes (cs_mem s) ptr (bsize s))"
| "client_data disk s c = True"

definition calm :: "'w disk_view \<Rightarrow> u64 set \<Rightarrow> 'w cache_state \<Rightarrow> client_pc \<Rightarrow> flusher_pc \<Rightarrow> bool" where
  "calm disk B s c f \<longleftrightarrow> struct_inv s \<and> client_ok_at s c \<and> clean_ok disk s (unmarked c \<union> B) \<and> lists_ok disk s f \<and>
     client_data disk s c \<and> clear B c f \<and> (\<forall>ptr \<in> client_buf c. user_buf_ok s ptr)"

section \<open>Changes outside a set of blocks\<close>

definition alike :: "'w disk_view \<Rightarrow> u64 set \<Rightarrow> 'w cache_state \<Rightarrow> 'w cache_state \<Rightarrow> bool" where
  "alike disk K s s' \<longleftrightarrow> same_geometry s s' \<and>
     (\<forall>l. l \<notin> K \<longrightarrow> fate s' l = fate s l \<and> on_disk disk s' l = on_disk disk s l \<and>
        (\<forall>i d. fate s l = Some (i, d) \<longrightarrow> slot_data s' i = slot_data s i))"

lemma fate_simps [simp]:
  "fate (s\<lparr>cs_world := w\<rparr>) = fate s" "fate (s\<lparr>cs_mem := m\<rparr>) = fate s" "fate (s\<lparr>cs_pool := P\<rparr>) = fate s"
  "fate (s\<lparr>cs_table := snd (table_insert (cs_table s) lba e)\<rparr>) = (fate s)(lba \<mapsto> (ce_pool_index e, ce_dirty e))"
  "fate (s\<lparr>cs_table := snd (table_remove (cs_table s) lba)\<rparr>) = (fate s)(lba := None)"
  by (auto simp: fate_def fun_eq_iff)

lemma fate_None: "fate s l = None \<longleftrightarrow> owner s l = None"
  by (simp add: fate_def owner_def)

lemma fate_Some: "fate s l = Some (i, d) \<longleftrightarrow> (\<exists>e. cached s l = Some e \<and> ce_pool_index e = i \<and> ce_dirty e = d)"
  by (auto simp: fate_def)

lemma fate_owner: "fate s l = Some (i, d) \<Longrightarrow> owner s l = Some i"
  by (auto simp: fate_def owner_def)

lemma owner_fate: "owner s l = Some i \<Longrightarrow> \<exists>d. fate s l = Some (i, d)"
  by (auto simp: fate_def owner_def)

lemma view_fate:
  "view disk s l = (case fate s l of None \<Rightarrow> on_disk disk s l | Some (i, d) \<Rightarrow> slot_data s i)"
  by (auto simp: view_def fate_def on_disk_def split: option.splits)

lemma alike_refl [simp]: "alike disk K s s"
  by (simp add: alike_def)

lemma alikeD:
  assumes "alike disk K s s'" "l \<notin> K"
  shows "fate s' l = fate s l" "on_disk disk s' l = on_disk disk s l"
    "fate s l = Some (i, d) \<Longrightarrow> slot_data s' i = slot_data s i" "view disk s' l = view disk s l"
    "fate s l = Some (i, d) \<Longrightarrow> synced disk s' l i = synced disk s l i"
proof -
  show f: "fate s' l = fate s l" "on_disk disk s' l = on_disk disk s l"
    using assms by (auto simp: alike_def)
  show d: "fate s l = Some (i, d) \<Longrightarrow> slot_data s' i = slot_data s i" for i d
    using assms by (auto simp: alike_def)
  then show "view disk s' l = view disk s l"
    using f by (auto simp: view_fate split: option.splits)
  show "fate s l = Some (i, d) \<Longrightarrow> synced disk s' l i = synced disk s l i"
    using f d by (simp add: synced_def)
qed

lemma alike_view: "alike disk {} s s' \<Longrightarrow> view disk s' = view disk s"
  using alikeD(4) by (intro ext) blast

lemma alike_view_one: "alike disk {lba} s s' \<Longrightarrow> view disk s' = (view disk s)(lba := view disk s' lba)"
  using alikeD(4) [of disk "{lba}" s s'] by (intro ext) simp

lemma alike_clean:
  assumes "alike disk K s s'" "clean_ok disk s B" "B \<subseteq> B' \<union> K"
    "\<And>l i. l \<in> K - B' \<Longrightarrow> fate s' l = Some (i, False) \<Longrightarrow> synced disk s' l i"
  shows "clean_ok disk s' B'"
  unfolding clean_ok_def
proof (intro allI impI)
  fix l i assume l: "fate s' l = Some (i, False)" "l \<notin> B'"
  show "synced disk s' l i"
  proof (cases "l \<in> K")
    case True
    then show ?thesis using assms(4) l by simp
  next
    case False
    then have f: "fate s l = Some (i, False)" using alikeD(1) [OF assms(1) False] l(1) by simp
    then have "synced disk s l i" using assms(2,3) False l(2) unfolding clean_ok_def by blast
    then show ?thesis using alikeD(5) [OF assms(1) False f] by simp
  qed
qed

lemma alike_lists:
  assumes "alike disk K s s'" "lists_ok disk s f" "K \<inter> set (marking f) = {}"
    "\<And>l. l \<in> K \<Longrightarrow> l \<in> set (map fst (pending f)) \<Longrightarrow> fate s' l = fate s l"
  shows "lists_ok disk s' f"
proof -
  have "fate s' l = Some (i, True)" if "(l, i) \<in> set (pending f)" for l i
    using assms(2,4) that alikeD(1) [OF assms(1), of l] by (cases "l \<in> K") (force simp: lists_ok_def)+
  moreover have "\<exists>i. fate s' l = Some (i, True) \<and> synced disk s' l i" if "l \<in> set (marking f)" for l
    using assms(2,3) that alikeD(1,5) [OF assms(1), of l] by (fastforce simp: lists_ok_def)
  ultimately show ?thesis using assms(2) by (auto simp: lists_ok_def)
qed

lemma calm_keep:
  assumes calm: "calm disk B s c f" and struct: "struct_inv s'" "client_ok_at s' c'" and ap: "clear B c' f"
    and al: "alike disk K s s'" and buf: "client_buf c' \<subseteq> client_buf c"
    and lists: "K \<inter> set (marking f) = {}"
      "\<And>l. l \<in> K \<Longrightarrow> l \<in> set (map fst (pending f)) \<Longrightarrow> fate s' l = fate s l"
    and clean: "unmarked c \<subseteq> unmarked c' \<union> K"
      "\<And>l i. l \<in> K - unmarked c' \<Longrightarrow> fate s' l = Some (i, False) \<Longrightarrow> synced disk s' l i"
    and data: "client_data disk s' c'"
  shows "calm disk B s' c' f"
proof -
  note old = calm [unfolded calm_def]
  have "user_buf_ok s' = user_buf_ok s" using al same_geometryD(6) unfolding alike_def by blast
  moreover have "clean_ok disk s' (unmarked c' \<union> B)"
    using old clean by (intro alike_clean [OF al, where B = "unmarked c \<union> B"]) auto
  moreover have "lists_ok disk s' f" using old by (intro alike_lists [OF al _ lists]) blast+
  ultimately show ?thesis
    using old struct ap buf data by (simp add: calm_def subset_eq)
qed

lemmas calm_same = calm_keep [where K = "{}", simplified]

lemma listed_cached:
  assumes "lists_ok disk s f" "l \<in> set (listed f)"
  shows "\<exists>i. fate s l = Some (i, True)"
  using assms by (force simp: lists_ok_def listed_def)

lemma geometry_slots: "same_geometry s s' \<Longrightarrow> block_data (cs_pool s') = block_data (cs_pool s)"
  by (auto simp: same_geometry_def)

lemma alikeI:
  assumes "same_geometry s s'" "\<And>l. l \<notin> K \<Longrightarrow> fate s' l = fate s l"
    "\<And>l. l \<notin> K \<Longrightarrow> disk_block (disk (cs_world s')) (bsize s) l = disk_block (disk (cs_world s)) (bsize s) l"
    "\<And>l i d. l \<notin> K \<Longrightarrow> fate s l = Some (i, d) \<Longrightarrow> block_data (cs_pool s) (cs_mem s') i = slot_data s i"
  shows "alike disk K s s'"
  using assms same_geometryD(1) [OF assms(1)] by (simp add: alike_def on_disk_def geometry_slots)

text \<open>Nothing but the free-list, the time stamps and the quiet part of the world has changed.\<close>

lemma alike_quiet:
  assumes "same_geometry s s'" "fate s' = fate s" "disk (cs_world s') = disk (cs_world s)" "cs_mem s' = cs_mem s"
  shows "alike disk K s s'"
  using assms by (intro alikeI) simp_all

section \<open>The steps of an eviction\<close>

definition alloc_calm ::
  "'w disk_view \<Rightarrow> flusher_pc \<Rightarrow> 'w cache_state \<Rightarrow> (alloc_pc + (usize \<times> block_buffer) cache_result) \<Rightarrow>
   'w cache_state \<Rightarrow> u64 set \<Rightarrow> bool" where
  "alloc_calm disk f s r s' K \<longleftrightarrow> alike disk K s s' \<and> K \<inter> set (listed f) = {} \<and> view disk s' = view disk s \<and>
     cs_mem s' = cs_mem s \<and> (\<forall>l \<in> K. \<forall>i. fate s' l = Some (i, False) \<longrightarrow> synced disk s' l i) \<and>
     (\<forall>a. r = Inl a \<longrightarrow> alloc_data disk s' a)"

lemma alloc_calm_quiet:
  assumes "alike disk {} s s'" "cs_mem s' = cs_mem s" "\<And>a. r = Inl a \<Longrightarrow> alloc_data disk s' a"
  shows "alloc_calm disk f s r s' {}"
  using assms alike_view [OF assms(1)] by (simp add: alloc_calm_def)

lemma write_back_calm:
  assumes env: "env_ok E disk fd" and inv: "struct_inv s" and clean: "clean_ok disk s B" "ec_lba c \<notin> B"
    and d: "fate s (ec_lba c) = Some (ec_pool_index c, ec_needs_flush c)" and free: "ec_lba c \<notin> set (listed f)"
    and run: "alloc_next E fd chan (WriteBack c) s = (r, s')"
  shows "alloc_calm disk f s r s' {ec_lba c}"
proof (cases "ec_needs_flush c")
  case False
  then have "s' = s" "r = Inl (Remove c)" using run by (simp_all add: alloc_next_def flush_candidate_def)
  then show ?thesis using clean d False free by (auto simp: alloc_calm_def clean_ok_def)
next
  case True
  obtain e where e: "cached s (ec_lba c) = Some e" "ce_pool_index e = ec_pool_index c" using d by (auto simp: fate_Some)
  obtain r1 w where w: "write_lba E fd (ec_lba c) (mp_block_size (cs_pool s)) (slot_data s (ec_pool_index c)) (cs_world s) = (r1, w)"
    by fastforce
  have blk: "block_buffer_as_ref (get_block (cs_pool s) (ec_pool_index c)) (cs_mem s) = slot_data s (ec_pool_index c)"
    using cached_block [OF inv e(1)] e(2) by (simp add: block_buffer_as_ref_def block_data_def)
  have len: "length (slot_data s (ec_pool_index c)) = bsize s" by (simp add: block_data_def)
  note post = write_lba_post [OF env_okD(2) [OF env] cached_fits [OF inv e(1)] len w]
  define w' where "w' = (if r1 = Inr () then notifier_wake E chan w else w)"
  have w': "disk w' = disk w" using env_okD(3) [OF env] by (simp add: w'_def notifier_wake_def quiet_okD)
  have s': "s' = s\<lparr>cs_world := w'\<rparr>" "\<And>a. r = Inl a \<Longrightarrow> a = Remove c \<and> r1 = Inr ()"
    using run w True by (auto simp: alloc_next_def flush_candidate_def blk w'_def Let_def split: sum.splits)
  have al: "alike disk {ec_lba c} s s'"
    unfolding s' using disk_block_other [OF post(1)] w' by (intro alikeI) auto
  moreover have "view disk s' (ec_lba c) = view disk s (ec_lba c)" using d by (simp add: view_fate s')
  moreover have "synced disk s' (ec_lba c) (ec_pool_index c)" if "r1 = Inr ()"
    using post(2) [OF that] w' len by (simp add: synced_def on_disk_def s' disk_block_store_same)
  ultimately show ?thesis
    using free d True s' alike_view_one [OF al] by (auto simp: alloc_calm_def)
qed

lemma remove_calm:
  assumes d: "synced disk s (ec_lba c) (ec_pool_index c)" "owner s (ec_lba c) = Some (ec_pool_index c)"
    and free: "ec_lba c \<notin> set (listed f)" and run: "alloc_next E fd chan (Remove c) s = (r, s')"
  shows "alloc_calm disk f s r s' {ec_lba c}"
proof -
  have s': "s' = s\<lparr>cs_table := snd (table_remove (cs_table s) (ec_lba c))\<rparr>" "r = Inl (Deallocate c)"
    using run by (simp_all add: alloc_next_def)
  then have al: "alike disk {ec_lba c} s s'" by (intro alikeI) auto
  have "view disk s' (ec_lba c) = view disk s (ec_lba c)"
    using d owner_fate [OF d(2)] by (auto simp: view_fate s' synced_def on_disk_def)
  then show ?thesis
    using free s' al alike_view_one [OF al] by (auto simp: alloc_calm_def)
qed

lemma alloc_next_calm:
  assumes env: "env_ok E disk fd" and inv: "struct_inv s" "alloc_ok_at s a" and data: "alloc_data disk s a"
    and clean: "clean_ok disk s B" and free: "alloc_victim a \<inter> set (listed f) = {}" "alloc_victim a \<inter> B = {}"
    and run: "alloc_next E fd chan a s = (r, s')"
  obtains K where "alloc_calm disk f s r s' K"
proof -
  note found = that
  have geo: "same_geometry s s'" using alloc_step [OF env_okD(4) [OF env] inv run] by (simp add: alloc_step_ok_def)
  have quiet: thesis if "fate s' = fate s" "cs_world s' = cs_world s" "cs_mem s' = cs_mem s"
    "\<And>a. r = Inl a \<Longrightarrow> alloc_data disk s' a"
    using that geo by (intro found [OF alloc_calm_quiet]) (auto intro: alike_quiet)
  show thesis
  proof (cases a)
    case Select
    have "fate s (ec_lba c) = Some (ec_pool_index c, ec_needs_flush c)" if "select_eviction_candidate E (cs_table s) = Some c" for c
      using select_Some_entry [OF env_okD(4) [OF env] struct_invD(3) [OF inv(1)] that] by (metis fate_Some)
    then show thesis using run Select by (intro quiet) (auto simp: alloc_next_def split: option.splits)
  next
    case (WriteBack c)
    then show thesis using write_back_calm [OF env inv(1) clean, of c f chan r s'] data free run found by auto
  next
    case (Remove c)
    then show thesis using remove_calm [of disk s c f E fd chan r s'] data free run inv(2) found by auto
  qed (use run in \<open>auto intro!: quiet simp: alloc_next_def split: prod.splits sum.splits\<close>)
qed

section \<open>The steps of a read\<close>

text \<open>What a step of one client does to the content and to the state of its call.\<close>

definition moves :: "'w disk_view \<Rightarrow> 'w cache_state \<Rightarrow> client_pc \<Rightarrow> 'w cache_state \<Rightarrow> client_pc \<Rightarrow> bool" where
  "moves disk s c s' c' \<longleftrightarrow>
     view disk s' = view disk s \<and> abs_call s' c' = abs_call s c \<or>
     view disk s' = view disk s \<and> wanted (abs_call s c) \<and> abs_call s' c' = Failed \<or>
     (\<exists>lba. view disk s' = view disk s \<and> abs_call s c = Want_read lba \<and> abs_call s' c' = Got lba (view disk s lba)) \<or>
     (\<exists>lba d. abs_call s c = Want_write lba d \<and> abs_call s' c' = Put lba \<and> view disk s' = (view disk s)(lba := d))"

lemma calmD:
  assumes "calm disk B s c f"
  shows "struct_inv s" "client_ok_at s c" "clean_ok disk s (unmarked c \<union> B)" "lists_ok disk s f" "client_data disk s c"
    "clear B c f" "\<And>ptr. ptr \<in> client_buf c \<Longrightarrow> user_buf_ok s ptr"
  using assms by (simp_all add: calm_def)

lemma owned_not_in_hand: "in_hand s i \<Longrightarrow> fate s l = Some (j, d) \<Longrightarrow> j \<noteq> i"
  by (auto simp: in_hand_owner dest: fate_owner)

text \<open>Memory changes outside the pool, or in a slot in hand.\<close>

lemma alike_outside:
  assumes "struct_inv s" "agree_outside p n (cs_mem s) m"
    "disjoint_ranges p n (mp_base_ptr (cs_pool s)) (pool_size (cs_pool s))"
  shows "alike disk {} s (s\<lparr>cs_mem := m\<rparr>)"
proof (rule alikeI)
  fix l i d assume "fate s l = Some (i, d)"
  then obtain e where "cached s l = Some e" "ce_pool_index e = i" by (auto simp: fate_Some)
  then show "block_data (cs_pool s) (cs_mem (s\<lparr>cs_mem := m\<rparr>)) i = slot_data s i"
    using block_data_outside [OF assms(2,3)] cached_index [OF assms(1)] by auto
qed (simp_all add: same_geometry_refl)

lemma alike_in_hand:
  assumes "in_hand s i" "agree_outside (block_addr (cs_pool s) i) (bsize s) (cs_mem s) m" "disk w = disk (cs_world s)"
  shows "alike disk {} s (s\<lparr>cs_world := w, cs_mem := m\<rparr>)"
proof (rule alikeI)
  fix l j d assume "fate s l = Some (j, d)"
  then show "block_data (cs_pool s) (cs_mem (s\<lparr>cs_world := w, cs_mem := m\<rparr>)) j = slot_data s j"
    unfolding block_data_def
    by (simp, intro load_agree [OF assms(2)] block_addr_disjoint) (rule owned_not_in_hand [OF assms(1)])
qed (use assms(3) in \<open>simp_all add: same_geometry_refl\<close>)

lemma alloc_victims:
  "clear B (Reading lba ptr (RAlloc a)) f \<longleftrightarrow> alloc_victim a \<inter> set (listed f) = {} \<and> alloc_victim a \<inter> B = {}"
  "clear B (Writing lba ptr (WAlloc a)) f \<longleftrightarrow> alloc_victim a \<inter> set (listed f) = {} \<and> alloc_victim a \<inter> B = {}"
  by (simp_all add: clear_def apart_def)

lemma alloc_client_calm:
  assumes calm: "calm disk B s c f" and struct: "struct_inv s'" "client_ok_at s' c'" and ap: "clear B c' f"
    and al: "alloc_calm disk f s r s' K" and un: "unmarked c = {}" and buf: "client_buf c' = client_buf c"
    and data: "client_data disk s' c'"
    and call: "abs_call s' c' = abs_call s c \<or> wanted (abs_call s c) \<and> abs_call s' c' = Failed"
  shows "calm disk B s' c' f \<and> moves disk s c s' c'"
proof
  note d = al [unfolded alloc_calm_def]
  have "K \<inter> set (marking f) = {}" "\<And>l. l \<in> K \<Longrightarrow> l \<notin> set (map fst (pending f))"
    using d by (auto simp: listed_def)
  then show "calm disk B s' c' f"
    using d un buf by (intro calm_keep [OF calm struct ap _ _ _ _ _ _ data, of K]) auto
  show "moves disk s c s' c'" using d call by (auto simp: moves_def)
qed

lemma user_copy_calm:
  fixes E :: "'w env"
  assumes calm: "calm disk B s (Reading lba ptr pc) f" and own: "owner s lba = Some i" and ap: "clear B (Reading lba ptr (RDone (Inr v))) f"
    and pc: "abs_call s (Reading lba ptr pc) = Want_read lba"
  defines "s' \<equiv> s\<lparr>cs_mem := fast_copy_temporal E ptr (block_addr (cs_pool s) i) (bsize s) (cs_mem s)\<rparr>"
  shows "calm disk B s' (Reading lba ptr (RDone (Inr v))) f \<and> moves disk s (Reading lba ptr pc) s' (Reading lba ptr (RDone (Inr v)))"
proof
  note c = calmD [OF calm]
  have buf: "user_buf_ok s ptr" using c(7) by simp
  obtain e where e: "cached s lba = Some e" "ce_pool_index e = i" using own by (auto simp: owner_Some)
  have i: "i < mp_capacity (cs_pool s)" using cached_index [OF c(1) e(1)] e(2) by simp
  note cp = copy_to_user [where E = E, OF c(1) i buf]
  have al: "alike disk {} s s'"
    unfolding s'_def using buf by (intro alike_outside [OF c(1) cp(4)]) (simp add: user_buf_ok_def)
  show "calm disk B s' (Reading lba ptr (RDone (Inr v))) f"
    using c(1,2) ap by (intro calm_same [OF calm _ _ _ al]) (simp_all add: s'_def)
  have "view disk s lba = slot_data s i" using e by (simp add: view_def)
  then show "moves disk s (Reading lba ptr pc) s' (Reading lba ptr (RDone (Inr v)))"
    using cp(2,3) pc by (simp add: moves_def s'_def)
qed

lemma owner_index: "struct_inv s \<Longrightarrow> owner s l = Some i \<Longrightarrow> i < mp_capacity (cs_pool s)"
  by (simp add: struct_inv_owner)

lemma owner_block:
  "struct_inv s \<Longrightarrow> owner s l = Some i \<Longrightarrow> get_block (cs_pool s) i = slot_block s i"
  by (simp add: get_block_eq struct_invD owner_index slot_block_def)

text \<open>A step that leaves slots, device and call alone.\<close>

lemma quiet_client:
  assumes calm: "calm disk B s c f" and struct: "struct_inv s'" "client_ok_at s' c'" and ap: "clear B c' f"
    and same: "same_geometry s s'" "fate s' = fate s" "disk (cs_world s') = disk (cs_world s)" "cs_mem s' = cs_mem s"
    and pcs: "client_buf c' = client_buf c" "unmarked c \<subseteq> unmarked c'"
    and data: "client_data disk s' c'"
    and call: "abs_call s c' = abs_call s c \<or> wanted (abs_call s c) \<and> abs_call s c' = Failed"
  shows "calm disk B s' c' f \<and> moves disk s c s' c'"
proof
  have al: "alike disk {} s s'" by (rule alike_quiet [OF same])
  show "calm disk B s' c' f"
    using pcs by (intro calm_same [OF calm struct ap al _ _ data]) auto
  have "abs_call s' c' = abs_call s c'"
    using same(4) same_geometryD(1) [OF same(1)] by (cases c') (auto split: read_pc.split write_pc.split sum.split)
  then show "moves disk s c s' c'" using call alike_view [OF al] by (auto simp: moves_def)
qed

lemma fill_calm:
  assumes env: "env_ok E disk fd" and calm: "calm disk B s (Reading lba ptr (RFill i b)) f"
    and struct: "struct_inv s'" "client_ok_at s' (Reading lba ptr pc')" and ap: "clear B (Reading lba ptr pc') f"
    and run: "read_next E fd chan lba ptr (RFill i b) s = (pc', s')"
  shows "calm disk B s' (Reading lba ptr pc') f \<and> moves disk s (Reading lba ptr (RFill i b)) s' (Reading lba ptr pc')"
proof -
  note c = calmD [OF calm]
  have h: "in_hand s i" "b = slot_block s i" "lba_fits (bsize s) lba" using c(2) by simp_all
  obtain r w m where rd: "read_lba E fd lba (mp_block_size (cs_pool s)) (block_addr (cs_pool s) i) (bsize s) (cs_world s) (cs_mem s) = (r, w, m)"
    by (metis prod_cases3)
  note post = read_lba_post [OF env_okD(1) [OF env] h(3) rd]
  have s': "s' = s\<lparr>cs_world := w, cs_mem := m\<rparr>"
    "pc' = (case r of Inl e \<Rightarrow> RDone (Inl e) | Inr _ \<Rightarrow> RInsert i b)"
    using run rd h(2) by (auto simp: read_next_def slot_block_def split: sum.splits)
  have al: "alike disk {} s s'" unfolding s' by (rule alike_in_hand [where i = i, OF h(1) post(2,1)])
  have "synced disk s' lba i" if "r = Inr ()"
    using post(1) post(3) [OF that] block_data_store_same
    by (simp add: synced_def on_disk_def s' disk_block_def)
  then have "client_data disk s' (Reading lba ptr pc')" using s'(2) by (auto split: sum.splits)
  then show ?thesis
    using calm_same [OF calm struct ap al] alike_view [OF al] s'(2) by (auto simp: moves_def split: sum.splits)
qed

lemma insert_calm:
  assumes calm: "calm disk B s c f" and struct: "struct_inv s'" "client_ok_at s' c'" and ap: "clear B c' f"
    and s': "s' = s\<lparr>cs_table := snd (table_insert (cs_table s) lba e), cs_world := w\<rparr>"
    and w: "disk w = disk (cs_world s)" and none: "owner s lba = None"
    and e: "ce_dirty e \<or> synced disk s lba (ce_pool_index e)"
    and pcs: "unmarked c = {}" "client_buf c' = client_buf c" "client_data disk s' c'"
  shows "calm disk B s' c' f" "view disk s' = (view disk s)(lba := slot_data s (ce_pool_index e))"
proof -
  have fs: "fate s' = (fate s)(lba \<mapsto> (ce_pool_index e, ce_dirty e))"
    by (simp add: s')
  have al: "alike disk {lba} s s'" using fs w by (intro alikeI) (auto simp: s' same_geometry_refl)
  have "lba \<notin> set (listed f)" using listed_cached [OF calmD(4) [OF calm]] none by (metis fate_None option.distinct(1))
  moreover have "synced disk s' lba (ce_pool_index e) = synced disk s lba (ce_pool_index e)"
    using w by (simp add: synced_def on_disk_def s')
  ultimately show "calm disk B s' c' f"
    using fs e pcs by (intro calm_keep [OF calm struct ap al]) (auto simp: listed_def)
  have "view disk s' lba = slot_data s (ce_pool_index e)" using fs by (simp add: view_fate) (simp add: s')
  then show "view disk s' = (view disk s)(lba := slot_data s (ce_pool_index e))"
    using alike_view_one [OF al] by simp
qed

lemma read_calm:
  assumes env: "env_ok E disk fd" and calm: "calm disk B s (Reading lba ptr pc) f"
    and run: "read_next E fd chan lba ptr pc s = (pc', s')" and ap: "clear B (Reading lba ptr pc') f"
  shows "calm disk B s' (Reading lba ptr pc') f \<and> moves disk s (Reading lba ptr pc) s' (Reading lba ptr pc')"
proof -
  note c = calmD [OF calm] and q = env_okD(3) [OF env]
  have st: "struct_inv s'" "same_geometry s s'" "client_ok_at s' (Reading lba ptr pc')"
    using read_step [OF env_okD(4) [OF env] c(1,2) run] by simp_all
  show ?thesis
  proof (cases pc)
    case RTouch
    show ?thesis
    proof (cases "cached s lba")
      case None
      then show ?thesis
        using run RTouch st ap by (intro quiet_client [OF calm]) (auto simp: read_next_def get_and_touch_eq)
    next
      case (Some e)
      have s': "s' = s\<lparr>cs_table := snd (table_insert (cs_table s) lba (fst (entry_touch E e (cs_world s)))),
          cs_world := snd (env_now E (cs_world s))\<rparr>" "pc' = RHit (ce_pool_index e)"
        using run RTouch Some by (simp_all add: read_next_def get_and_touch_eq)
      have "fate s' = fate s" using Some by (auto simp: s' fate_def fun_eq_iff)
      then show ?thesis
        using st ap s' RTouch quiet_okD(1) [OF q] by (intro quiet_client [OF calm]) (auto simp: s'(1))
    qed
  next
    case (RAlloc a)
    obtain r where a: "alloc_next E fd chan a s = (r, s')"
      using run RAlloc by (auto simp: read_next_def split: prod.splits sum.splits)
    have pc': "pc' = (case r of Inl a' \<Rightarrow> RAlloc a' | Inr (Inl e) \<Rightarrow> RDone (Inl e) | Inr (Inr (i, b)) \<Rightarrow> RFill i b)"
      using run RAlloc a by (auto simp: read_next_def split: sum.splits prod.splits)
    obtain K where K: "alloc_calm disk f s r s' K"
      using alloc_next_calm [OF env c(1) _ _ _ _ _ a] c(2,3,5,6) RAlloc by (auto simp: alloc_victims)
    then show ?thesis
      using pc' RAlloc
      by (intro alloc_client_calm [OF calm st(1,3) ap K]) (auto simp: alloc_calm_def split: sum.splits)
  next
    case (RFill i b)
    then show ?thesis using fill_calm [where i = i and b = b and chan = chan, OF env _ st(1,3) ap] calm run by simp
  next
    case (RInsert i b)
    let ?e = "fst (entry_new E lba i (cs_world s))"
    have s': "s' = s\<lparr>cs_table := snd (table_insert (cs_table s) lba ?e), cs_world := snd (env_now E (cs_world s))\<rparr>" "pc' = RCopy b"
      using run RInsert by (auto simp: read_next_def case_prod_unfold)
    have own: "owner s lba = None" "synced disk s lba i" using c(2,5) RInsert by simp_all
    note ins = insert_calm [OF calm st(1,3) ap s'(1) quiet_okD(1) [OF q] own(1)]
    have "view disk s lba = slot_data s i" using own by (simp add: view_fate fate_None [symmetric] synced_def)
    then show ?thesis
      using ins own(2) RInsert s'(2) by (auto simp: moves_def)
  next
    case (RHit i)
    then have own: "owner s lba = Some i" using c(2) by simp
    then show ?thesis
      using user_copy_calm [OF calm own, of "\<lparr>rr_cache_hit = True\<rparr>" E] run RHit ap owner_block [OF c(1) own]
      by (simp add: read_next_def slot_block_def)
  next
    case (RCopy b)
    then obtain i where own: "owner s lba = Some i" "b = slot_block s i" using c(2) by auto
    then show ?thesis
      using user_copy_calm [OF calm own(1), of "\<lparr>rr_cache_hit = False\<rparr>" E] run RCopy ap
      by (simp add: read_next_def slot_block_def)
  next
    case (RDone r)
    then show ?thesis using run calm by (auto simp: read_next_def moves_def)
  qed
qed

section \<open>The steps of a write\<close>

lemma copy_some:
  assumes shape: "pool_shape (cs_pool s)" and i: "i < mp_capacity (cs_pool s)" and buf: "user_buf_ok s ptr"
    and run: "fast_copy_nontemporal (block_addr (cs_pool s) i) ptr (bsize s) (cs_mem s) = Some m"
  shows "m = store_bytes (cs_mem s) (block_addr (cs_pool s) i) (load_bytes (cs_mem s) ptr (bsize s))"
    "load_bytes m ptr (bsize s) = load_bytes (cs_mem s) ptr (bsize s)"
proof -
  have "64 \<le> bsize s" using shape by (auto simp: pool_shape_def unat_gt_0 dest!: dvd_imp_le)
  then have "write_ptr_ok ptr"
    using run nt_memcpy_fault [of "block_addr (cs_pool s) i" ptr "bsize s" "cs_mem s"]
    unfolding fast_copy_nontemporal_def write_ptr_ok_def by (metis option.distinct(1))
  from copy_to_slot [OF shape i buf this] run
  show m: "m = store_bytes (cs_mem s) (block_addr (cs_pool s) i) (load_bytes (cs_mem s) ptr (bsize s))" by simp
  show "load_bytes m ptr (bsize s) = load_bytes (cs_mem s) ptr (bsize s)"
    using buf unfolding m user_buf_ok_def by (intro load_agree [OF store_in_pool [OF i]]) simp_all
qed

lemma update_calm:
  assumes calm: "calm disk B s (Writing lba ptr (WUpdate i)) f"
    and run: "write_next E fd chan sch ro lba ptr (WUpdate i) s = (pc', s')" and ap: "clear B (Writing lba ptr pc') f"
    and st: "struct_inv s'" "client_ok_at s' (Writing lba ptr pc')"
  shows "calm disk B s' (Writing lba ptr pc') f \<and> moves disk s (Writing lba ptr (WUpdate i)) s' (Writing lba ptr pc')"
proof -
  note c = calmD [OF calm]
  have own: "owner s lba = Some i" and buf: "user_buf_ok s ptr" using c(2,7) by simp_all
  note i = owner_index [OF c(1) own]
  show ?thesis
  proof (cases "fast_copy_nontemporal (block_addr (cs_pool s) i) ptr (bsize s) (cs_mem s)")
    case None
    then show ?thesis
      using run st ap owner_block [OF c(1) own]
      by (intro quiet_client [OF calm]) (auto simp: write_next_def slot_block_def)
  next
    case (Some m)
    then have s': "s' = s\<lparr>cs_mem := m\<rparr>" "pc' = WMark"
      using run owner_block [OF c(1) own] by (auto simp: write_next_def slot_block_def)
    note m = copy_some [OF struct_invD(2) [OF c(1)] i buf Some]
    have other: "block_data (cs_pool s) m j = slot_data s j" if "l \<noteq> lba" "fate s l = Some (j, d)" for l j d
    proof -
      have "j \<noteq> i" using that own fate_owner [OF that(2)] c(1) unfolding struct_inv_owner by blast
      then show ?thesis using m(1) by (simp add: block_data_store_other)
    qed
    then have al: "alike disk {lba} s s'" unfolding s' by (intro alikeI) (auto simp: same_geometry_refl)
    obtain d where d: "fate s lba = Some (i, d)" using owner_fate [OF own] by blast
    have "view disk s' lba = load_bytes (cs_mem s) ptr (bsize s)"
      using d m(1) by (simp add: view_fate s' block_data_store_same)
    then have "moves disk s (Writing lba ptr (WUpdate i)) s' (Writing lba ptr pc')"
      using alike_view_one [OF al] s'(2) by (auto simp: moves_def)
    moreover have "lba \<notin> set (marking f)" using ap s'(2) by (simp add: clear_def apart_def)
    ultimately show ?thesis
      using s' calm_keep [OF calm st ap al] by auto
  qed
qed

lemma mark_calm:
  assumes env: "env_ok E disk fd" and calm: "calm disk B s (Writing lba ptr WMark) f"
    and run: "write_next E fd chan sch ro lba ptr WMark s = (pc', s')" and ap: "clear B (Writing lba ptr pc') f"
    and st: "struct_inv s'" "client_ok_at s' (Writing lba ptr pc')"
  shows "calm disk B s' (Writing lba ptr pc') f \<and> moves disk s (Writing lba ptr WMark) s' (Writing lba ptr pc')"
proof -
  note c = calmD [OF calm]
  obtain e where e: "cached s lba = Some e" using c(2) by (auto simp: owner_def)
  have s': "s' = s\<lparr>cs_table := snd (table_insert (cs_table s) lba (fst (entry_mark_dirty E e (cs_world s)))),
      cs_world := snd (env_now E (cs_world s))\<rparr>" "pc' = WWake True"
    using run e by (simp_all add: write_next_def table_mark_dirty_eq)
  have fs: "fate s' = (fate s)(lba \<mapsto> (ce_pool_index e, True))" "fate s lba = Some (ce_pool_index e, ce_dirty e)"
    using e by (simp_all add: s' fate_def)
  have al: "alike disk {lba} s s'"
    using fs quiet_okD(1) [OF env_okD(3) [OF env]] by (intro alikeI) (auto simp: s' same_geometry_refl)
  have "view disk s' lba = view disk s lba" using fs by (simp add: view_fate) (simp add: s')
  then have "view disk s' = view disk s" using alike_view_one [OF al] by simp
  moreover have "lba \<notin> set (marking f)" using c(6) by (simp add: clear_def apart_def)
  moreover have "fate s' lba = fate s lba" if "lba \<in> fst ` set (pending f)"
    using that c(4) fs by (force simp: lists_ok_def)
  ultimately show ?thesis
    using s'(2) calm_keep [OF calm st ap al] fs(1) by (auto simp: moves_def)
qed

lemma fresh_fill_calm:
  assumes calm: "calm disk B s (Writing lba ptr (WFill i b)) f"
    and run: "write_next E fd chan sch ro lba ptr (WFill i b) s = (pc', s')" and ap: "clear B (Writing lba ptr pc') f"
    and st: "struct_inv s'" "client_ok_at s' (Writing lba ptr pc')"
  shows "calm disk B s' (Writing lba ptr pc') f \<and> moves disk s (Writing lba ptr (WFill i b)) s' (Writing lba ptr pc')"
proof -
  note c = calmD [OF calm]
  have h: "in_hand s i" "b = slot_block s i" "user_buf_ok s ptr" using c(2,7) by simp_all
  then have i: "i < mp_capacity (cs_pool s)" by (simp add: in_hand_def)
  show ?thesis
  proof (cases "fast_copy_nontemporal (block_addr (cs_pool s) i) ptr (bsize s) (cs_mem s)")
    case None
    then show ?thesis
      using run st ap h(2) by (intro quiet_client [OF calm]) (auto simp: write_next_def slot_block_def)
  next
    case (Some m)
    then have s': "s' = s\<lparr>cs_mem := m\<rparr>" "pc' = WInsert i"
      using run h(2) by (auto simp: write_next_def slot_block_def)
    note m = copy_some [OF struct_invD(2) [OF c(1)] i h(3) Some]
    have "agree_outside (block_addr (cs_pool s) i) (bsize s) (cs_mem s) m"
      unfolding m(1) by (rule agree_outside_store) simp
    from alike_in_hand [where w = "cs_world s", OF h(1) this] have al: "alike disk {} s s'" by (simp add: s')
    have "slot_data s' i = load_bytes (cs_mem s) ptr (bsize s)" using m(1) by (simp add: s' block_data_store_same)
    then have "client_data disk s' (Writing lba ptr pc')" using m(2) s' by simp
    then show ?thesis
      using calm_same [OF calm st ap al] alike_view [OF al] s' m(2) by (auto simp: moves_def)
  qed
qed

lemma write_calm:
  assumes env: "env_ok E disk fd" and calm: "calm disk B s (Writing lba ptr pc) f"
    and run: "write_next E fd chan sch ro lba ptr pc s = (pc', s')" and ap: "clear B (Writing lba ptr pc') f"
  shows "calm disk B s' (Writing lba ptr pc') f \<and> moves disk s (Writing lba ptr pc) s' (Writing lba ptr pc')"
proof -
  note c = calmD [OF calm] and q = env_okD(3) [OF env]
  have st: "struct_inv s'" "same_geometry s s'" "client_ok_at s' (Writing lba ptr pc')"
    using write_step [OF env_okD(4) [OF env] c(1,2) run] by simp_all
  show ?thesis
  proof (cases pc)
    case WGet
    then show ?thesis
      using run st ap by (intro quiet_client [OF calm]) (auto simp: write_next_def split: if_splits option.splits)
  next
    case (WUpdate i)
    then show ?thesis using update_calm [OF _ _ ap st(1,3)] calm run by blast
  next
    case WMark
    then show ?thesis using mark_calm [OF env _ _ ap st(1,3)] calm run by blast
  next
    case (WAlloc a)
    obtain r where a: "alloc_next E fd chan a s = (r, s')"
      using run WAlloc by (auto simp: write_next_def split: prod.splits sum.splits)
    have pc': "pc' = (case r of Inl a' \<Rightarrow> WAlloc a' | Inr (Inl e) \<Rightarrow> WDone (Inl e) | Inr (Inr (i, b)) \<Rightarrow> WFill i b)"
      using run WAlloc a by (auto simp: write_next_def split: sum.splits prod.splits)
    obtain K where K: "alloc_calm disk f s r s' K"
      using alloc_next_calm [OF env c(1) _ _ _ _ _ a] c(2,3,5,6) WAlloc by (auto simp: alloc_victims)
    have "cs_mem s' = cs_mem s" using K by (simp add: alloc_calm_def)
    then show ?thesis
      using pc' WAlloc K same_geometryD(1) [OF st(2)]
      by (intro alloc_client_calm [OF calm st(1,3) ap K]) (auto simp: alloc_calm_def split: sum.splits)
  next
    case (WFill i b)
    then show ?thesis using fresh_fill_calm [OF _ _ ap st(1,3)] calm run by blast
  next
    case (WInsert i)
    define e where "e = fst (entry_mark_dirty E (fst (entry_new E lba i (cs_world s))) (snd (env_now E (cs_world s))))"
    have s': "s' = s\<lparr>cs_table := snd (table_insert (cs_table s) lba e),
        cs_world := snd (env_now E (snd (env_now E (cs_world s))))\<rparr>" "pc' = WWake False"
      using run WInsert by (auto simp: write_next_def case_prod_unfold e_def)
    have own: "owner s lba = None" "slot_data s i = load_bytes (cs_mem s) ptr (bsize s)" using c(2,5) WInsert by simp_all
    have e: "ce_dirty e" "ce_pool_index e = i" by (simp_all add: e_def)
    have "disk (snd (env_now E (snd (env_now E (cs_world s))))) = disk (cs_world s)" by (simp add: quiet_okD [OF q])
    from insert_calm [OF calm st(1,3) ap s'(1) this own(1)] show ?thesis
      using e own(2) WInsert s'(2) by (auto simp: moves_def)
  next
    case (WWake u)
    then show ?thesis
      using run st ap maybe_wake_disk [OF q] by (intro quiet_client [OF calm]) (auto simp: write_next_def)
  next
    case (WDone r)
    then show ?thesis using run calm by (auto simp: write_next_def moves_def)
  next
    case WFault
    then show ?thesis using run calm by (auto simp: write_next_def moves_def)
  qed
qed

lemma client_calm:
  assumes env: "env_ok E disk (ss_fd S)" and calm: "calm disk B s c f"
    and run: "client_next E S chan c s = (c', s')" and ap: "clear B c' f"
  shows "calm disk B s' c' f \<and> moves disk s c s' c'"
proof (cases c)
  case Idle
  then show ?thesis using calm run by (auto simp: client_next_def moves_def)
next
  case (Reading lba ptr pc)
  then show ?thesis
    using read_calm [OF env] calm run ap
    by (auto simp: client_next_def apfst_def map_prod_def split: prod.splits)
next
  case (Writing lba ptr pc)
  then show ?thesis
    using write_calm [OF env] calm run ap
    by (auto simp: client_next_def apfst_def map_prod_def split: prod.splits)
qed

section \<open>The steps of the flush thread\<close>

lemma alike_client_data:
  assumes al: "alike disk K s s'" and same: "same_slots s s'" "cs_mem s' = cs_mem s"
    and K: "K \<inter> victim c = {}" "\<And>l. l \<in> K \<Longrightarrow> owner s l \<noteq> None"
    and ok: "client_ok_at s c" "client_data disk s c"
  shows "client_data disk s' c"
proof -
  have pool: "cs_pool s' = cs_pool s" using same(1) by (simp add: same_slots_def)
  have sync: "synced disk s' l i = synced disk s l i" if "l \<notin> K" for l i
    using alikeD(2) [OF al that] by (simp add: synced_def pool same(2))
  have alloc: "alloc_data disk s' a" if "alloc_victim a \<inter> K = {}" "alloc_data disk s a" for a
    using that sync alikeD(1) [OF al] by (cases a) auto
  have none: "l \<notin> K" if "owner s l = None" for l using K(2) that by blast
  show ?thesis
    using ok K(1) sync [OF none] alloc
    by (cases "(disk, s, c)" rule: client_data.cases) (auto simp: pool same(2) Int_commute)
qed

lemma calm_flusher:
  assumes calm: "calm disk B s c f" and ap: "apart c f'" and al: "alike disk K s s'"
    and same: "same_slots s s'" "cs_mem s' = cs_mem s" and lists: "lists_ok disk s' f'"
    and K: "K \<subseteq> set (listed f)" "\<And>l i. l \<in> K \<Longrightarrow> fate s' l = Some (i, False) \<Longrightarrow> synced disk s' l i"
  shows "calm disk B s' c f'"
proof -
  note c = calmD [OF calm]
  have "client_data disk s' c"
    using K(1) c(6) listed_cached [OF c(4)] fate_owner
    by (intro alike_client_data [OF al same _ _ c(2,5)]) (force simp: clear_def apart_def)+
  moreover have "user_buf_ok s' = user_buf_ok s" using same_geometryD(6) [OF same_slots_geometry [OF same(1)]] .
  moreover have "clean_ok disk s' (unmarked c \<union> B)" using K(2) by (intro alike_clean [OF al c(3)]) auto
  moreover have "clear B c f'" using ap c(6) by (simp add: clear_def)
  ultimately show ?thesis
    using c same_slots_struct [OF same(1) c(1)] same_slots_client [OF same(1)] lists by (auto simp: calm_def)
qed

lemma view_listed:
  assumes al: "alike disk {l} s s'" and same: "same_slots s s'" "cs_mem s' = cs_mem s" and i: "owner s l = Some i"
  shows "view disk s' = view disk s"
proof -
  have "owner s' l = Some i" "cs_pool s' = cs_pool s" using same(1) i by (simp_all add: same_slots_def)
  then have "view disk s' l = view disk s l" using i same(2) by (auto simp: view_def owner_Some)
  then show ?thesis using alike_view_one [OF al] by simp
qed

lemma snapshot_lists:
  assumes env: "env_ok E disk fd" and inv: "struct_inv s"
  shows "lists_ok disk s (FWrite (dirty_entries E (cs_table s)) n sig)"
  using dirty_entries_distinct [OF env_okD(4) [OF env] struct_invD(3) [OF inv]]
    dirty_entries_set [OF env_okD(4) [OF env] struct_invD(3) [OF inv]]
  by (auto simp: lists_ok_def listed_def fate_def)

lemma flush_write_calm:
  assumes env: "env_ok E disk fd" and calm: "calm disk B s c (FWrite ((l, i) # ds) n sig)" and ap: "apart c f'"
    and run: "flusher_next E fd (mp_block_size (cs_pool s)) sch link (FWrite ((l, i) # ds) n sig) s = (f', s')"
  shows "calm disk B s' c f' \<and> view disk s' = view disk s \<and> cs_mem s' = cs_mem s"
proof -
  note c = calmD [OF calm]
  have d: "fate s l = Some (i, True)" "distinct (l # map fst ds)" "\<And>k j. (k, j) \<in> set ds \<Longrightarrow> fate s k = Some (j, True)"
    using c(4) by (auto simp: lists_ok_def listed_def)
  note own = fate_owner [OF d(1)]
  obtain r w where w: "write_lba E fd l (mp_block_size (cs_pool s)) (slot_data s i) (cs_world s) = (r, w)" by fastforce
  have blk: "block_buffer_as_ref (get_block (cs_pool s) i) (cs_mem s) = slot_data s i"
    by (simp add: owner_block [OF c(1) own] slot_block_def block_buffer_as_ref_def block_data_def)
  have len: "length (slot_data s i) = bsize s" and fits: "lba_fits (bsize s) l"
    using c(1) own by (auto simp: block_data_def struct_inv_owner)
  note post = write_lba_post [OF env_okD(2) [OF env] fits len w]
  have s': "s' = s\<lparr>cs_world := w\<rparr>" "f' = (case r of Inl _ \<Rightarrow> FWrite ds n sig | Inr _ \<Rightarrow> FMark l ds n sig)"
    using run w blk by (auto split: sum.splits)
  have al: "alike disk {l} s s'" unfolding s' using disk_block_other [OF post(1)] by (intro alikeI) auto
  have "synced disk s' l i" if "r = Inr ()"
    using post(2) [OF that] len by (simp add: synced_def on_disk_def s' disk_block_store_same)
  then have "lists_ok disk s' f'"
    using d s' by (auto simp: lists_ok_def listed_def split: sum.splits)
  then show ?thesis
    using calm_flusher [OF calm ap al] view_listed [OF al _ _ own] d(1) s'(1) by (auto simp: listed_def)
qed

lemma flush_mark_calm:
  assumes calm: "calm disk B s c (FMark l ds n sig)" and ap: "apart c f'"
    and run: "flusher_next E fd bs sch link (FMark l ds n sig) s = (f', s')"
  shows "calm disk B s' c f' \<and> view disk s' = view disk s \<and> cs_mem s' = cs_mem s"
proof -
  note c = calmD [OF calm]
  obtain i where i: "fate s l = Some (i, True)" "synced disk s l i" "l \<notin> fst ` set ds"
    "\<forall>(k, j) \<in> set ds. fate s k = Some (j, True)" "distinct (map fst ds)"
    using c(4) by (auto simp: lists_ok_def listed_def)
  obtain e where e: "cached s l = Some e" "ce_pool_index e = i" using i(1) by (auto simp: fate_Some)
  have s': "s' = s\<lparr>cs_table := snd (table_insert (cs_table s) l (entry_mark_clean e))\<rparr>" "f' = FWrite ds (n + 1) sig"
    using run e(1) by (simp_all add: table_mark_clean_eq)
  have same: "same_slots s s'" "cs_mem s' = cs_mem s"
    using flusher_same_slots [of s E fd bs sch link "FMark l ds n sig"] run s'(1) by simp_all
  have fs: "fate s' = (fate s)(l \<mapsto> (i, False))" using e(2) by (simp add: s')
  have al: "alike disk {l} s s'" using fs by (intro alikeI) (auto simp: s' same_geometry_refl)
  have "synced disk s' l i" using i(2) by (simp add: s' synced_def on_disk_def)
  moreover have "lists_ok disk s' f'" using i(3-5) fs s'(2) by (force simp: lists_ok_def listed_def)
  ultimately show ?thesis
    using calm_flusher [OF calm ap al same] view_listed [OF al same fate_owner [OF i(1)]] fs same(2)
    by (auto simp: listed_def)
qed

lemma flusher_calm:
  assumes env: "env_ok E disk fd" and calm: "calm disk B s c f" and ap: "apart c f'"
    and run: "flusher_next E fd (mp_block_size (cs_pool s)) sch link f s = (f', s')"
  shows "calm disk B s' c f' \<and> view disk s' = view disk s \<and> cs_mem s' = cs_mem s"
proof -
  note c = calmD [OF calm] and q = env_okD(3) [OF env]
  have quiet: ?thesis if "s' = s\<lparr>cs_world := w\<rparr>" "disk w = disk (cs_world s)" "lists_ok disk s' f'" for w
  proof -
    have al: "alike disk {} s s'" using that(1,2) by (intro alike_quiet) simp_all
    then show ?thesis using calm_flusher [OF calm ap al] alike_view [OF al] that by simp
  qed
  have still: ?thesis if "s' = s" "lists_ok disk s f'" using quiet [of "cs_world s"] that by simp
  show ?thesis
  proof (cases f)
    case FWait
    then show ?thesis
      using run receiver_wait_disk [OF q, of "fl_chan link" "fs_interval sch" "cs_world s"]
      by (intro quiet [of "snd (receiver_wait E (fl_chan link) (fs_interval sch) (cs_world s))"])
        (auto simp: case_prod_unfold lists_ok_def listed_def)
  next
    case (FSnapshot sig)
    then show ?thesis using run snapshot_lists [OF env c(1)] by (intro still) auto
  next
    case (FWrite ds n sig)
    show ?thesis
    proof (cases ds)
      case Nil
      then show ?thesis using run FWrite by (intro still) (auto simp: lists_ok_def listed_def split: if_splits)
    next
      case (Cons d ds')
      then show ?thesis
        using flush_write_calm [OF env _ ap, of B s "fst d" "snd d" ds' n sig sch link s'] calm run FWrite by simp
    qed
  next
    case (FMark l ds n sig)
    then show ?thesis using flush_mark_calm [OF _ ap] calm run by blast
  next
    case (FSync n sig)
    then show ?thesis
      using run sync_device_disk [OF q, of fd "cs_world s"]
      by (intro quiet [of "snd (sync_device E fd (cs_world s))"]) (auto simp: lists_ok_def listed_def)
  next
    case (FCheck sig)
    then show ?thesis using run by (intro still) (auto simp: lists_ok_def listed_def split: if_splits)
  next
    case FExit
    then show ?thesis using run by (intro still) (auto simp: lists_ok_def listed_def)
  qed
qed

end
