(* ===== verification/Others.thy ===== *)
theory Others
  imports Calm
begin

text \<open>
  What a step of one client leaves to the others: it changes the entries and the device blocks
  of its claims only, stores to one slot (its hand, or the slot of its block) or to the buffer
  of its own caller, and leaves all other memory as it was. So the data invariant and the call
  of every client with other claims, another hand and another buffer survive the step.
\<close>

section \<open>What a client may store to\<close>

text \<open>A read stores to its caller's buffer (\<open>&mut [u8]\<close>), a write only loads from it (\<open>&[u8]\<close>).\<close>

fun client_out :: "client_pc \<Rightarrow> nat set" where
  "client_out (Reading lba ptr pc) = {ptr}"
| "client_out c = {}"

fun stores :: "client_pc \<Rightarrow> usize set" where
  "stores (Reading lba ptr (RFill i b)) = {i}"
| "stores (Writing lba ptr (WUpdate i)) = {i}"
| "stores (Writing lba ptr (WFill i b)) = {i}"
| "stores c = {}"

definition spares :: "'w disk_view \<Rightarrow> u64 set \<Rightarrow> usize set \<Rightarrow> nat set \<Rightarrow> 'w cache_state \<Rightarrow> 'w cache_state \<Rightarrow> bool" where
  "spares disk C J Q s s' \<longleftrightarrow> same_geometry s s' \<and>
     (\<forall>l. l \<notin> C \<longrightarrow> fate s' l = fate s l \<and> on_disk disk s' l = on_disk disk s l) \<and>
     (\<forall>j < mp_capacity (cs_pool s). j \<notin> J \<longrightarrow> slot_data s' j = slot_data s j) \<and>
     (\<forall>p. user_buf_ok s p \<longrightarrow> (\<forall>q \<in> Q. disjoint_ranges p (bsize s) q (bsize s)) \<longrightarrow>
        load_bytes (cs_mem s') p (bsize s) = load_bytes (cs_mem s) p (bsize s))"

lemma spares_mono: "spares disk C J Q s s' \<Longrightarrow> C \<subseteq> D \<Longrightarrow> J \<subseteq> K \<Longrightarrow> Q \<subseteq> P \<Longrightarrow> spares disk D K P s s'"
  unfolding spares_def by blast

lemma spares_quiet:
  assumes "same_geometry s s'" "\<And>l. l \<notin> C \<Longrightarrow> fate s' l = fate s l"
    "\<And>l. l \<notin> C \<Longrightarrow> disk_block (disk (cs_world s')) (bsize s) l = disk_block (disk (cs_world s)) (bsize s) l"
    "cs_mem s' = cs_mem s"
  shows "spares disk C J Q s s'"
  using assms same_geometryD(1) [OF assms(1)] by (simp add: spares_def on_disk_def geometry_slots)

lemma buf_slot_disjoint:
  assumes "user_buf_ok s ptr" "i < mp_capacity (cs_pool s)"
  shows "disjoint_ranges ptr (bsize s) (block_addr (cs_pool s) i) (bsize s)"
  using assms(1) block_addr_range [OF assms(2)] by (auto simp: user_buf_ok_def disjoint_ranges_def)

lemma spares_slot:
  assumes "i < mp_capacity (cs_pool s)" "agree_outside (block_addr (cs_pool s) i) (bsize s) (cs_mem s) m"
    "disk w = disk (cs_world s)"
  shows "spares disk C {i} Q s (s\<lparr>cs_world := w, cs_mem := m\<rparr>)"
proof -
  have "block_data (cs_pool s) m j = slot_data s j" if "j \<noteq> i" for j
    unfolding block_data_def using that by (intro load_agree [OF assms(2)] block_addr_disjoint)
  moreover have "load_bytes m p (bsize s) = load_bytes (cs_mem s) p (bsize s)" if "user_buf_ok s p" for p
    by (rule load_agree [OF assms(2) buf_slot_disjoint [OF that assms(1)]])
  ultimately show ?thesis using assms(3) by (simp add: spares_def on_disk_def same_geometry_refl)
qed

lemma spares_buf:
  assumes "user_buf_ok s ptr" "agree_outside ptr (bsize s) (cs_mem s) m"
  shows "spares disk C J {ptr} s (s\<lparr>cs_mem := m\<rparr>)"
proof -
  have "block_data (cs_pool s) m j = slot_data s j" if "j < mp_capacity (cs_pool s)" for j
    using block_data_outside [OF assms(2) _ that] assms(1) by (simp add: user_buf_ok_def)
  then show ?thesis
    using load_agree [OF assms(2)] by (simp add: spares_def on_disk_def same_geometry_refl)
qed

section \<open>The steps of a client\<close>

lemma alloc_spares:
  assumes env: "env_ok E disk fd" and inv: "struct_inv s" "alloc_ok_at s a" and run: "alloc_next E fd chan a s = (r, s')"
  shows "spares disk (alloc_victim a) {} {} s s'"
proof -
  have geo: "same_geometry s s'" using alloc_step [OF env_okD(4) [OF env] inv run] by (simp add: alloc_step_ok_def)
  have quiet: ?thesis if "fate s' = fate s" "cs_world s' = cs_world s" "cs_mem s' = cs_mem s"
    using that geo by (intro spares_quiet) simp_all
  show ?thesis
  proof (cases a)
    case (WriteBack c)
    then have own: "owner s (ec_lba c) = Some (ec_pool_index c)" using inv(2) by simp
    obtain r1 w where w: "write_lba E fd (ec_lba c) (mp_block_size (cs_pool s)) (slot_data s (ec_pool_index c)) (cs_world s) = (r1, w)"
      by fastforce
    have blk: "block_buffer_as_ref (get_block (cs_pool s) (ec_pool_index c)) (cs_mem s) = slot_data s (ec_pool_index c)"
      by (simp add: owner_block [OF inv(1) own] slot_block_def block_buffer_as_ref_def block_data_def)
    have len: "length (slot_data s (ec_pool_index c)) = bsize s" and fits: "lba_fits (bsize s) (ec_lba c)"
      using inv(1) own by (auto simp: block_data_def struct_inv_owner)
    note post = disk_block_other [OF write_lba_post(1) [OF env_okD(2) [OF env] fits len w]]
    have "\<exists>w'. s' = s\<lparr>cs_world := w'\<rparr> \<and> (disk w' = disk (cs_world s) \<or> disk w' = disk w)"
    proof (cases "ec_needs_flush c")
      case True
      then show ?thesis
        using run WriteBack w env_okD(3) [OF env]
        by (auto simp: alloc_next_def flush_candidate_def blk Let_def notifier_wake_def quiet_okD split: sum.splits)
    next
      case False
      then have "s' = s" using run WriteBack by (simp add: alloc_next_def flush_candidate_def)
      then show ?thesis by (intro exI [of _ "cs_world s"]) simp
    qed
    then obtain w' where "s' = s\<lparr>cs_world := w'\<rparr>" "disk w' = disk (cs_world s) \<or> disk w' = disk w" by blast
    then show ?thesis using geo post WriteBack by (intro spares_quiet) auto
  next
    case (Remove c)
    then show ?thesis using run geo by (intro spares_quiet) (auto simp: alloc_next_def)
  qed (rule quiet; use run in \<open>auto simp: alloc_next_def split: prod.splits sum.splits option.splits\<close>)+
qed

lemma copy_spares:
  fixes E :: "'w env"
  assumes "struct_inv s" "owner s lba = Some i" "user_buf_ok s ptr"
  shows "spares disk C J {ptr} s (s\<lparr>cs_mem := fast_copy_temporal E ptr (block_addr (cs_pool s) i) (bsize s) (cs_mem s)\<rparr>)"
  using copy_to_user(4) [OF assms(1) owner_index [OF assms(1,2)] assms(3)] by (rule spares_buf [OF assms(3)])

lemma read_spares:
  assumes env: "env_ok E disk fd" and inv: "struct_inv s" "client_ok_at s (Reading lba ptr pc)" and buf: "user_buf_ok s ptr"
    and run: "read_next E fd chan lba ptr pc s = (pc', s')"
  shows "spares disk (claims (Reading lba ptr pc)) (stores (Reading lba ptr pc)) {ptr} s s'"
proof (cases pc)
  case RTouch
  show ?thesis
  proof (cases "cached s lba")
    case None
    then show ?thesis using run RTouch by (intro spares_quiet) (auto simp: read_next_def get_and_touch_eq)
  next
    case (Some e)
    then show ?thesis
      using run RTouch quiet_okD(1) [OF env_okD(3) [OF env]]
      by (intro spares_quiet) (auto simp: read_next_def get_and_touch_eq claims_def)
  qed
next
  case (RHit i)
  then have own: "owner s lba = Some i" using inv(2) by simp
  then show ?thesis
    using copy_spares [OF inv(1) own buf, where E = E] run RHit owner_block [OF inv(1) own]
    by (auto simp: read_next_def slot_block_def)
next
  case (RAlloc a)
  obtain r where a: "alloc_next E fd chan a s = (r, s')"
    using run RAlloc by (auto simp: read_next_def split: prod.splits sum.splits)
  have "alloc_ok_at s a" using inv(2) RAlloc by simp
  from spares_mono [OF alloc_spares [OF env inv(1) this a]] show ?thesis using RAlloc by (simp add: claims_def subset_insertI)
next
  case (RFill i b)
  then have h: "in_hand s i" "b = slot_block s i" "lba_fits (bsize s) lba" using inv(2) by simp_all
  obtain r w m where rd: "read_lba E fd lba (mp_block_size (cs_pool s)) (block_addr (cs_pool s) i) (bsize s) (cs_world s) (cs_mem s) = (r, w, m)"
    by (metis prod_cases3)
  note post = read_lba_post [OF env_okD(1) [OF env] h(3) rd]
  have "s' = s\<lparr>cs_world := w, cs_mem := m\<rparr>"
    using run rd h(2) RFill by (auto simp: read_next_def slot_block_def split: sum.splits)
  then show ?thesis using spares_slot [OF _ post(2,1)] h(1) RFill by (simp add: in_hand_def)
next
  case (RInsert i b)
  then show ?thesis
    using run quiet_okD(1) [OF env_okD(3) [OF env]]
    by (intro spares_quiet) (auto simp: read_next_def case_prod_unfold claims_def)
next
  case (RCopy b)
  then obtain i where own: "owner s lba = Some i" "b = slot_block s i" using inv(2) by auto
  then show ?thesis
    using copy_spares [OF inv(1) own(1) buf, where E = E] run RCopy by (auto simp: read_next_def slot_block_def)
next
  case (RDone r)
  then show ?thesis using run by (intro spares_quiet) (auto simp: read_next_def)
qed

lemma fill_spares:
  assumes inv: "struct_inv s" "i < mp_capacity (cs_pool s)" and buf: "user_buf_ok s ptr"
    and run: "fast_copy_nontemporal (block_addr (cs_pool s) i) ptr (bsize s) (cs_mem s) = Some m"
  shows "spares disk C {i} Q s (s\<lparr>cs_mem := m\<rparr>)"
proof -
  have "agree_outside (block_addr (cs_pool s) i) (bsize s) (cs_mem s) m"
    using copy_some(1) [OF struct_invD(2) [OF inv(1)] inv(2) buf run] by (simp add: agree_outside_store)
  from spares_slot [where w = "cs_world s", OF inv(2) this] show ?thesis by simp
qed

lemma write_spares:
  assumes env: "env_ok E disk fd" and inv: "struct_inv s" "client_ok_at s (Writing lba ptr pc)" and buf: "user_buf_ok s ptr"
    and run: "write_next E fd chan sch ro lba ptr pc s = (pc', s')"
  shows "spares disk (claims (Writing lba ptr pc)) (stores (Writing lba ptr pc)) {} s s'"
proof -
  note q = env_okD(3) [OF env]
  have still: ?thesis if "s' = s" using that by (intro spares_quiet) simp_all
  show ?thesis
  proof (cases pc)
    case (WUpdate i)
    then have own: "owner s lba = Some i" using inv(2) by simp
    show ?thesis
      using run WUpdate still fill_spares [OF inv(1) owner_index [OF inv(1) own] buf] owner_block [OF inv(1) own]
      by (auto simp: write_next_def slot_block_def split: option.splits)
  next
    case WMark
    then obtain e where "cached s lba = Some e" using inv(2) by (auto simp: owner_def)
    then show ?thesis
      using run WMark quiet_okD(1) [OF q] by (intro spares_quiet) (auto simp: write_next_def table_mark_dirty_eq claims_def)
  next
    case (WAlloc a)
    obtain r where a: "alloc_next E fd chan a s = (r, s')"
      using run WAlloc by (auto simp: write_next_def split: prod.splits sum.splits)
    have "alloc_ok_at s a" using inv(2) WAlloc by simp
    from spares_mono [OF alloc_spares [OF env inv(1) this a]] show ?thesis using WAlloc by (simp add: claims_def subset_insertI)
  next
    case (WFill i b)
    then have "in_hand s i" "b = slot_block s i" using inv(2) by simp_all
    then show ?thesis
      using run WFill still fill_spares [OF inv(1) _ buf]
      by (auto simp: write_next_def slot_block_def in_hand_def split: option.splits)
  next
    case (WInsert i)
    then show ?thesis
      using run quiet_okD(1) [OF q] by (intro spares_quiet) (auto simp: write_next_def case_prod_unfold claims_def)
  next
    case (WWake u)
    then show ?thesis using run maybe_wake_disk [OF q] by (intro spares_quiet) (auto simp: write_next_def)
  qed (rule still; use run in \<open>auto simp: write_next_def split: if_splits option.splits\<close>)+
qed

lemma client_spares:
  assumes env: "env_ok E disk (ss_fd S)" and inv: "struct_inv s" "client_ok_at s c"
    and buf: "\<forall>ptr \<in> client_buf c. user_buf_ok s ptr" and run: "client_next E S chan c s = (c', s')"
  shows "spares disk (claims c) (stores c) (client_out c) s s'"
proof (cases c)
  case Idle
  then show ?thesis using run by (intro spares_quiet) (auto simp: client_next_def)
next
  case (Reading lba ptr pc)
  obtain pc' where "read_next E (ss_fd S) chan lba ptr pc s = (pc', s')"
    using run Reading by (auto simp: client_next_def apfst_def map_prod_def split: prod.splits)
  then show ?thesis using read_spares [OF env inv(1)] inv(2) buf Reading by fastforce
next
  case (Writing lba ptr pc)
  obtain pc' where "write_next E (ss_fd S) chan (ss_schedule S) (ss_read_only S) lba ptr pc s = (pc', s')"
    using run Writing by (auto simp: client_next_def apfst_def map_prod_def split: prod.splits)
  then show ?thesis using write_spares [OF env inv(1)] inv(2) buf Writing by fastforce
qed

section \<open>The other clients\<close>

text \<open>The slots a client stores to are its hand or belong to its block.\<close>

lemma stores_own:
  assumes "client_ok_at s c" "j \<in> stores c"
  shows "j \<in> hand c \<or> owner s (client_lba c) = Some j \<and> client_lba c \<in> claims c"
  using assms by (cases c rule: stores.cases) (simp_all add: claims_def)

lemma slots_spared:
  assumes inv: "struct_inv s" "client_ok_at s c" "client_ok_at s q"
    and apart: "claims c \<inter> claims q = {}" "hand c \<inter> hand q = {}"
  shows "j \<in> hand q \<Longrightarrow> j \<notin> stores c" "owner s l = Some j \<Longrightarrow> l \<in> claims q \<Longrightarrow> j \<notin> stores c"
proof -
  show "j \<notin> stores c" if "j \<in> hand q"
    using stores_own [OF inv(2)] hand_in_hand [OF inv(3) that] apart(2) that by (auto simp: in_hand_owner)
  show "j \<notin> stores c" if "owner s l = Some j" "l \<in> claims q"
  proof
    assume "j \<in> stores c"
    from stores_own [OF inv(2) this] show False
    proof
      assume "j \<in> hand c"
      then show False using hand_in_hand [OF inv(2)] that(1) by (auto simp: in_hand_owner)
    next
      assume "owner s (client_lba c) = Some j \<and> client_lba c \<in> claims c"
      then show False using inv(1) that apart(1) unfolding struct_inv_owner by blast
    qed
  qed
qed

lemma others_data:
  assumes inv: "struct_inv s" "client_ok_at s c" "client_ok_at s q"
    and apart: "claims c \<inter> claims q = {}" "hand c \<inter> hand q = {}"
    and bufs: "\<forall>p \<in> client_buf q. user_buf_ok s p \<and> (\<forall>r \<in> client_out c. disjoint_ranges p (bsize s) r (bsize s))"
    and sp: "spares disk (claims c) (stores c) (client_out c) s s'" and data: "client_data disk s q"
  shows "client_data disk s' q" "abs_call s' q = abs_call s q"
proof -
  note d = sp [unfolded spares_def]
  have bs: "bsize s' = bsize s" using d same_geometryD(1) [of s s'] by simp
  have buf: "load_bytes (cs_mem s') p (bsize s) = load_bytes (cs_mem s) p (bsize s)" if "p \<in> client_buf q" for p
    using d bufs that by blast
  have blk: "fate s' l = fate s l \<and> on_disk disk s' l = on_disk disk s l" if "l \<in> claims q" for l
    using d apart(1) that by blast
  have held: "slot_data s' j = slot_data s j" if "j \<in> hand q" for j
    using d slots_spared(1) [OF inv apart that] hand_in_hand [OF inv(3) that] by (auto simp: in_hand_def)
  have owned: "slot_data s' j = slot_data s j" if "owner s l = Some j" "l \<in> claims q" for j l
    using d slots_spared(2) [OF inv apart that] owner_index [OF inv(1) that(1)] by blast
  have alloc: "alloc_data disk s' a" if "alloc_data disk s a" "alloc_ok_at s a" "alloc_victim a \<subseteq> claims q" for a
    using that blk owned by (cases a) (simp_all add: synced_def)
  show "client_data disk s' q"
  proof (cases q)
    case (Reading lba ptr pc)
    then show ?thesis
      using data inv(3) alloc blk held by (cases pc) (simp_all add: claims_def synced_def subset_insertI)
  next
    case (Writing lba ptr pc)
    then show ?thesis
      using data inv(3) alloc held buf bs by (cases pc) (simp_all add: claims_def subset_insertI)
  qed simp
  show "abs_call s' q = abs_call s q"
    using buf bs by (cases q) (auto split: read_pc.split write_pc.split sum.split)
qed

end
