(* ===== verification/Orderly.thy ===== *)
theory Orderly
  imports Others
begin

text \<open>
  Which interleavings are safe. \<open>Races\<close> shows schedules that lose or corrupt data; this
  theory shows that they are the only kind. Any number of calls may overlap: as long as no two
  clients claim the same block, no caller's buffer is stored to while another call uses it,
  and no block is in the hands of the flush thread and of a client at the same time
  (\<open>apart\<close>), every interleaving of the steps behaves as an atomic store of blocks. A write
  takes effect at one step, a read returns the content at one step, and the flush thread is
  invisible, also when the device fails.
\<close>

section \<open>States that obey the conditions\<close>

text \<open>
  A buffer that a read stores to belongs to one call only; writes may share theirs. Rust's
  \<open>&mut [u8]\<close> and \<open>&[u8]\<close> arguments guarantee this.
\<close>

definition bufs_apart :: "'w sys \<Rightarrow> bool" where
  "bufs_apart x \<longleftrightarrow> (\<forall>i j. i \<noteq> j \<longrightarrow> (\<forall>p \<in> client_buf (sy_clients x i). \<forall>q \<in> client_out (sy_clients x j).
     disjoint_ranges p (bsize (sy_state x)) q (bsize (sy_state x))))"

definition orderly :: "'w sys \<Rightarrow> bool" where
  "orderly x \<longleftrightarrow> claims_apart x \<and> bufs_apart x \<and>
     (\<forall>i. apart (sy_clients x i) (sy_flusher x) \<and> (\<forall>ptr \<in> client_buf (sy_clients x i). user_buf_ok (sy_state x) ptr))"

definition orderly_step :: "'w env \<Rightarrow> session \<Rightarrow> 'w sys \<Rightarrow> 'w sys \<Rightarrow> bool" where
  "orderly_step E S x y \<longleftrightarrow> sys_step E S x y \<and> orderly y"

section \<open>Refinement mappings\<close>

text \<open>
  A system with an invariant whose steps are either invisible in the abstraction or steps of
  the abstract system.
\<close>

locale step_refinement =
  fixes step :: "'s \<Rightarrow> 's \<Rightarrow> bool" and inv :: "'s \<Rightarrow> bool" and abst :: "'s \<Rightarrow> 't" and spec :: "'t \<Rightarrow> 't \<Rightarrow> bool"
  assumes keeps: "inv x \<Longrightarrow> step x y \<Longrightarrow> inv y"
    and square: "inv x \<Longrightarrow> step x y \<Longrightarrow> abst y = abst x \<or> spec (abst x) (abst y)"
begin

lemma run_keeps: "step\<^sup>*\<^sup>* x y \<Longrightarrow> inv x \<Longrightarrow> inv y"
  by (induction rule: rtranclp_induct) (auto intro: keeps)

lemma run_refines: "step\<^sup>*\<^sup>* x y \<Longrightarrow> inv x \<Longrightarrow> spec\<^sup>*\<^sup>* (abst x) (abst y)"
proof (induction rule: rtranclp_induct)
  case (step y z)
  then show ?case using square [OF run_keeps [OF step(1,4)] step(2)] by auto
qed simp

end

section \<open>The invariant of all clients\<close>

text \<open>The blocks that the clients other than \<open>i\<close> have overwritten and not marked.\<close>

definition unmarked_by_others :: "'w sys \<Rightarrow> nat \<Rightarrow> u64 set" where
  "unmarked_by_others x i = (\<Union>j \<in> - {i}. unmarked (sy_clients x j))"

definition serene :: "'w env \<Rightarrow> 'w disk_view \<Rightarrow> session \<Rightarrow> 'w sys \<Rightarrow> bool" where
  "serene E disk S x \<longleftrightarrow> env_ok E disk (ss_fd S) \<and> claims_apart x \<and> hands_apart x \<and> bufs_apart x \<and>
     (\<forall>lba < ss_max_lba S. lba_fits (bsize (sy_state x)) lba) \<and>
     (\<forall>i. calm disk (unmarked_by_others x i) (sy_state x) (sy_clients x i) (sy_flusher x))"

lemma sereneD:
  assumes "serene E disk S x"
  shows "env_ok E disk (ss_fd S)" "claims_apart x" "hands_apart x" "bufs_apart x" "\<forall>lba < ss_max_lba S. lba_fits (bsize (sy_state x)) lba"
    "calm disk (unmarked_by_others x i) (sy_state x) (sy_clients x i) (sy_flusher x)"
  using assms by (simp_all add: serene_def)

lemma unmarked_claims: "unmarked c \<subseteq> claims c"
  by (cases c rule: unmarked.cases) (simp_all add: claims_def)

lemma victim_claims: "victim c \<subseteq> claims c"
  by (cases c rule: victim.cases) (auto simp: claims_def)

lemma unmarked_all: "unmarked (sy_clients x i) \<union> unmarked_by_others x i = (\<Union>j. unmarked (sy_clients x j))"
  by (auto simp: unmarked_by_others_def)

lemma unmarked_update:
  assumes "unmarked c = {}" "unmarked (ps i) = {}"
  shows "(\<Union>j. unmarked ((ps(i := c)) j)) = (\<Union>j. unmarked (ps j))"
proof -
  have "unmarked ((ps(i := c)) j) = unmarked (ps j)" for j using assms by (cases "j = i") simp_all
  then show ?thesis by simp
qed

lemma orderly_clear:
  assumes "orderly x"
  shows "clear (unmarked_by_others x i) (sy_clients x i) (sy_flusher x)"
proof -
  have "victim (sy_clients x i) \<inter> unmarked (sy_clients x j) = {}" if "j \<noteq> i" for j
    using assms that unmarked_claims [of "sy_clients x j"] victim_claims [of "sy_clients x i"]
    unfolding orderly_def claims_apart_def by blast
  then show ?thesis using assms by (auto simp: clear_def orderly_def unmarked_by_others_def)
qed

lemma serene_sys_inv: "serene E disk S x \<Longrightarrow> sys_inv S x"
  using sereneD(5,6) calmD(1,2) unfolding sys_inv_def by blast

lemma serene_idle:
  assumes "serene E disk S x" "\<forall>i. sy_clients x i = Idle"
  shows "calm disk {} (sy_state x) Idle (sy_flusher x)"
  using sereneD(6) [OF assms(1), of 0] assms(2) by (simp add: unmarked_by_others_def)

text \<open>
  The shared part of the invariant and the part of every client: what has to be shown of a
  new state.
\<close>

lemma sereneI:
  assumes "env_ok E disk (ss_fd S)" "sys_inv S y" "hands_apart y" "orderly y"
    and "clean_ok disk (sy_state y) (\<Union>j. unmarked (sy_clients y j))" "lists_ok disk (sy_state y) (sy_flusher y)"
    and "\<And>i. client_data disk (sy_state y) (sy_clients y i)"
  shows "serene E disk S y"
  using assms orderly_clear [OF assms(4)]
  by (auto simp: serene_def calm_def unmarked_all sys_inv_def orderly_def)

lemma serene_shared:
  assumes "serene E disk S x"
  shows "struct_inv (sy_state x)" "clean_ok disk (sy_state x) (\<Union>j. unmarked (sy_clients x j))"
    "lists_ok disk (sy_state x) (sy_flusher x)" "client_data disk (sy_state x) (sy_clients x i)"
    "client_ok_at (sy_state x) (sy_clients x i)" "\<forall>ptr \<in> client_buf (sy_clients x i). user_buf_ok (sy_state x) ptr"
  using calmD [OF sereneD(6) [OF assms, of i]] by (simp_all add: unmarked_all)

section \<open>The steps in the abstraction\<close>

lemma moves_atomic:
  assumes mv: "moves disk (sy_state x) (sy_clients x i) (sy_state y) c'"
    and oth: "\<And>j. j \<noteq> i \<Longrightarrow> abs_call (sy_state y) (sy_clients x j) = abs_call (sy_state x) (sy_clients x j)"
    and y: "sy_clients y = (sy_clients x)(i := c')"
  shows "abs_sys disk y = abs_sys disk x \<or> atomic_step (abs_sys disk x) (abs_sys disk y)"
proof -
  let ?a = "abs_sys disk x"
  have x: "at_calls ?a i = abs_call (sy_state x) (sy_clients x i)" "at_content ?a = view disk (sy_state x)"
    by (simp_all add: abs_sys_def)
  have eq: "abs_sys disk y = \<lparr>at_content = view disk (sy_state y), at_calls = (at_calls ?a)(i := abs_call (sy_state y) c')\<rparr>"
    using oth y by (auto simp: abs_sys_def fun_eq_iff)
  have upd: "abs_sys disk y = ?a\<lparr>at_calls := (at_calls ?a)(i := abs_call (sy_state y) c')\<rparr>"
    if "view disk (sy_state y) = view disk (sy_state x)"
    using eq that by (simp add: abs_sys_def)
  from mv show ?thesis
    unfolding moves_def
  proof (elim disjE conjE exE)
    assume "view disk (sy_state y) = view disk (sy_state x)"
      "abs_call (sy_state y) c' = abs_call (sy_state x) (sy_clients x i)"
    then have "abs_sys disk y = ?a" using eq x by (simp add: abs_sys_def fun_eq_iff)
    then show ?thesis ..
  next
    assume "view disk (sy_state y) = view disk (sy_state x)" "wanted (abs_call (sy_state x) (sy_clients x i))"
      "abs_call (sy_state y) c' = Failed"
    then show ?thesis using upd x(1) atomic_step.fail [of ?a i] by simp
  next
    fix lba assume "view disk (sy_state y) = view disk (sy_state x)"
      "abs_call (sy_state x) (sy_clients x i) = Want_read lba" "abs_call (sy_state y) c' = Got lba (view disk (sy_state x) lba)"
    then show ?thesis using upd x atomic_step.read [of ?a i lba] by simp
  next
    fix lba d assume "abs_call (sy_state x) (sy_clients x i) = Want_write lba d" "abs_call (sy_state y) c' = Put lba"
      "view disk (sy_state y) = (view disk (sy_state x))(lba := d)"
    then show ?thesis using eq x atomic_step.put [of ?a i lba d] by simp
  qed
qed

text \<open>A step that leaves the calls, the memory and the visible contents alone is invisible.\<close>

lemma abs_sys_same:
  assumes "sy_clients y = sy_clients x" "view disk (sy_state y) = view disk (sy_state x)"
    "cs_mem (sy_state y) = cs_mem (sy_state x)" "bsize (sy_state y) = bsize (sy_state x)"
  shows "abs_sys disk y = abs_sys disk x"
proof -
  have "abs_call (sy_state y) c = abs_call (sy_state x) c" for c
    by (cases c) (use assms in \<open>auto split: read_pc.splits write_pc.splits sum.splits\<close>)
  then show ?thesis using assms by (simp add: abs_sys_def)
qed

section \<open>Every orderly step refines a step of the store\<close>

lemma call_serene:
  assumes ser: "serene E disk S x" and c: "starting c" "client_lba c < ss_max_lba S"
    and y: "y = x\<lparr>sy_clients := (sy_clients x)(i := c)\<rparr>" "orderly y" and i: "sy_clients x i = Idle"
    and step: "sys_step E S x y"
  shows "serene E disk S y \<and> (abs_sys disk y = abs_sys disk x \<or> atomic_step (abs_sys disk x) (abs_sys disk y))"
proof -
  note sh = serene_shared [OF ser]
  have cd: "client_data disk (sy_state x) c" "unmarked c = {}" "wanted (abs_call (sy_state x) c)"
    using c(1) by (cases c rule: starting.cases; simp)+
  have "sys_inv S y \<and> hands_apart y"
    by (rule claimed_step [OF env_okD(4) [OF sereneD(1) [OF ser]] serene_sys_inv [OF ser] sereneD(2,3) [OF ser] step])
  moreover have "(\<Union>j. unmarked (sy_clients y j)) = (\<Union>j. unmarked (sy_clients x j))"
    using unmarked_update [of c "sy_clients x" i] cd(2) i by (simp add: y(1) del: fun_upd_apply)
  moreover have "client_data disk (sy_state y) (sy_clients y j)" for j using sh(4) cd(1) by (simp add: y(1))
  ultimately have "serene E disk S y"
    using sereneD(1) [OF ser] sh(2,3) y by (intro sereneI) simp_all
  moreover have "abs_sys disk y = (abs_sys disk x)\<lparr>at_calls := (at_calls (abs_sys disk x))(i := abs_call (sy_state x) c)\<rparr>"
    by (auto simp: abs_sys_def y(1) fun_eq_iff)
  ultimately show ?thesis
    using atomic_step.ask [OF _ cd(3), of "abs_sys disk x" i] i by (simp add: abs_sys_def)
qed

lemma client_serene:
  assumes ser: "serene E disk S x" and act: "active (sy_clients x i)"
    and y: "y = client_move E S i x" "orderly y"
  shows "serene E disk S y \<and> (abs_sys disk y = abs_sys disk x \<or> atomic_step (abs_sys disk x) (abs_sys disk y))"
proof -
  let ?s = "sy_state x" and ?c = "sy_clients x i"
  obtain c' s' where n: "client_next E S (fl_chan (sy_link x)) ?c ?s = (c', s')" by fastforce
  note env = sereneD(1) [OF ser] and sh = serene_shared [OF ser]
  have y': "sy_state y = s'" "sy_clients y = (sy_clients x)(i := c')" "sy_flusher y = sy_flusher x"
    using n by (simp_all add: y(1) client_move_def)
  have B: "unmarked_by_others y i = unmarked_by_others x i" by (simp add: unmarked_by_others_def y')
  have "clear (unmarked_by_others x i) c' (sy_flusher x)" using orderly_clear [OF y(2), of i] B y' by simp
  from client_calm [OF env sereneD(6) [OF ser] n this]
  have new: "calm disk (unmarked_by_others x i) s' c' (sy_flusher x)" "moves disk ?s ?c s' c'" by simp_all
  note sp = client_spares [OF env sh(1,5,6) n]
  have oth: "client_data disk s' (sy_clients x j)" "abs_call s' (sy_clients x j) = abs_call ?s (sy_clients x j)" if "j \<noteq> i" for j
  proof -
    have ap: "claims ?c \<inter> claims (sy_clients x j) = {}" "hand ?c \<inter> hand (sy_clients x j) = {}"
      using sereneD(2,3) [OF ser] that by (simp_all add: claims_apart_def hands_apart_def)
    have "\<forall>p \<in> client_buf (sy_clients x j). user_buf_ok ?s p \<and> (\<forall>r \<in> client_out ?c. disjoint_ranges p (bsize ?s) r (bsize ?s))"
      using sh(6) [of j] sereneD(4) [OF ser] that by (simp add: bufs_apart_def)
    from others_data [OF sh(1) sh(5) sh(5) ap this sp sh(4)]
    show "client_data disk s' (sy_clients x j)" "abs_call s' (sy_clients x j) = abs_call ?s (sy_clients x j)" by simp_all
  qed
  have "sys_inv S y \<and> hands_apart y"
    using claimed_step [OF env_okD(4) [OF env] serene_sys_inv [OF ser] sereneD(2,3) [OF ser] sys_step.client [OF act]] y(1) by simp
  moreover have "(\<Union>j. unmarked (sy_clients y j)) = unmarked c' \<union> unmarked_by_others x i"
    using unmarked_all [of y i] B y' by simp
  ultimately have "serene E disk S y"
    using env y(2) calmD(3-5) [OF new(1)] oth(1) by (intro sereneI) (simp_all add: y')
  then show ?thesis using moves_atomic [where y = y and i = i and c' = c'] new(2) oth(2) y' by simp
qed

lemma return_serene:
  assumes ser: "serene E disk S x" and fin: "finished (sy_clients x i)"
    and y: "y = x\<lparr>sy_clients := (sy_clients x)(i := Idle)\<rparr>" "orderly y" and step: "sys_step E S x y"
  shows "serene E disk S y \<and> (abs_sys disk y = abs_sys disk x \<or> atomic_step (abs_sys disk x) (abs_sys disk y))"
proof -
  note sh = serene_shared [OF ser]
  have f: "unmarked (sy_clients x i) = {}" "answered (abs_call (sy_state x) (sy_clients x i))"
    using fin by (cases "sy_clients x i" rule: finished.cases; simp split: sum.splits)+
  have "sys_inv S y \<and> hands_apart y"
    by (rule claimed_step [OF env_okD(4) [OF sereneD(1) [OF ser]] serene_sys_inv [OF ser] sereneD(2,3) [OF ser] step])
  moreover have "(\<Union>j. unmarked (sy_clients y j)) = (\<Union>j. unmarked (sy_clients x j))"
    using unmarked_update [of Idle "sy_clients x" i] f(1) by (simp add: y(1) del: fun_upd_apply)
  moreover have "client_data disk (sy_state y) (sy_clients y j)" for j using sh(4) by (simp add: y(1))
  ultimately have "serene E disk S y"
    using sereneD(1) [OF ser] sh(2,3) y by (intro sereneI) simp_all
  moreover have "abs_sys disk y = (abs_sys disk x)\<lparr>at_calls := (at_calls (abs_sys disk x))(i := Free)\<rparr>"
    by (auto simp: abs_sys_def y(1) fun_eq_iff)
  ultimately show ?thesis
    using atomic_step.leave [of "abs_sys disk x" i] f(2) by (simp add: abs_sys_def)
qed

lemma flusher_serene:
  assumes ser: "serene E disk S x" and y: "y = flusher_move E S x" "orderly y"
  shows "serene E disk S y \<and> abs_sys disk y = abs_sys disk x"
proof -
  let ?s = "sy_state x"
  obtain f' s' where n: "flusher_next E (ss_fd S) (mp_block_size (cs_pool ?s)) (ss_schedule S) (sy_link x) (sy_flusher x) ?s = (f', s')"
    by fastforce
  note env = sereneD(1) [OF ser]
  have y': "sy_state y = s'" "sy_clients y = sy_clients x" "sy_flusher y = f'"
    using n by (simp_all add: y(1) flusher_move_def)
  have "apart (sy_clients x i) f'" for i using y(2) y' by (simp add: orderly_def)
  from flusher_calm [OF env sereneD(6) [OF ser] this n]
  have new: "calm disk (unmarked_by_others x i) s' (sy_clients x i) f'" "view disk s' = view disk ?s" "cs_mem s' = cs_mem ?s" for i
    by simp_all
  have "sys_inv S y \<and> hands_apart y"
    using claimed_step [OF env_okD(4) [OF env] serene_sys_inv [OF ser] sereneD(2,3) [OF ser] sys_step.flusher] y(1) by simp
  then have "serene E disk S y"
    using env y(2) calmD(3-5) [OF new(1)] by (intro sereneI) (simp_all add: y' unmarked_all)
  moreover have "bsize s' = bsize ?s"
    using same_geometryD(1) [OF same_slots_geometry [OF flusher_same_slots]] n by (metis snd_conv)
  ultimately show ?thesis using new y' by (intro conjI abs_sys_same) simp_all
qed

lemma idle_orderly: "\<forall>i. sy_clients x i = Idle \<Longrightarrow> orderly x"
  by (simp add: orderly_def claims_apart_def claims_def bufs_apart_def apart_def)

lemma idle_serene:
  assumes "env_ok E disk (ss_fd S)" "\<forall>lba < ss_max_lba S. lba_fits (bsize (sy_state y)) lba"
    and "calm disk {} (sy_state y) Idle (sy_flusher y)" "\<forall>i. sy_clients y i = Idle"
  shows "serene E disk S y"
proof (rule sereneI)
  show "orderly y" by (rule idle_orderly [OF assms(4)])
qed (use assms calmD [OF assms(3)] in \<open>simp_all add: sys_inv_def hands_apart_def\<close>)

lemma stop_serene:
  assumes ser: "serene E disk S x" and idle: "\<forall>i. sy_clients x i = Idle" and y: "y = stop_move E x"
  shows "serene E disk S y \<and> abs_sys disk y = abs_sys disk x"
proof -
  define w where "w = snd (notifier_shutdown E (sy_link x) (cs_world (sy_state x)))"
  have q: "quiet_ok E disk" using sereneD(1) [OF ser] env_okD(3) by blast
  have w: "sy_state y = (sy_state x)\<lparr>cs_world := w\<rparr>" "disk w = disk (cs_world (sy_state x))"
      "sy_clients y = sy_clients x" "sy_flusher y = sy_flusher x"
    by (simp_all add: w_def y stop_move_def notifier_shutdown_def quiet_okD [OF q])
  have al: "alike disk {} (sy_state x) (sy_state y)" using w by (intro alike_quiet) simp_all
  note c = calmD [OF serene_idle [OF ser idle]]
  have "apart Idle (sy_flusher x)" using c(6) by (simp add: clear_def)
  then have "calm disk {} (sy_state y) Idle (sy_flusher y)"
    using calm_flusher [OF serene_idle [OF ser idle] _ al, of "sy_flusher x"] w alike_lists [OF al c(4)] by simp
  then have "serene E disk S y"
    using sereneD(1,5) [OF ser] idle w by (intro idle_serene) simp_all
  then show ?thesis using w alike_view [OF al] by (intro conjI abs_sys_same) simp_all
qed

lemma orderly_step_serene:
  assumes ser: "serene E disk S x" and step: "orderly_step E S x y"
  shows "serene E disk S y \<and> (abs_sys disk y = abs_sys disk x \<or> atomic_step (abs_sys disk x) (abs_sys disk y))"
proof -
  have o: "orderly y" and st: "sys_step E S x y" using step by (simp_all add: orderly_step_def)
  from st show ?thesis
  proof cases
    case (call i c)
    then show ?thesis using call_serene [OF ser _ _ _ o _ st] by blast
  next
    case (client i)
    then show ?thesis using client_serene [OF ser _ _ o] by blast
  next
    case (return i)
    then show ?thesis using return_serene [OF ser _ _ o st] by blast
  next
    case flusher
    then show ?thesis using flusher_serene [OF ser _ o] by blast
  next
    case stop
    then show ?thesis using stop_serene [OF ser] by blast
  qed
qed

interpretation osys: step_refinement "orderly_step E S" "serene E disk S" "abs_sys disk" atomic_step for E S disk
  by unfold_locales (use orderly_step_serene in blast)+

lemma quiet_serene:
  assumes "env_ok E disk (ss_fd S)" "cache_inv disk s" "\<forall>lba < ss_max_lba S. lba_fits (bsize s) lba"
  shows "serene E disk S (quiet_start s link)"
proof (rule idle_serene)
  have "clean_ok disk s {}"
    using assms(2) by (auto simp: clean_ok_def fate_Some synced_def on_disk_def cache_inv_def coherent_def)
  then show "calm disk {} (sy_state (quiet_start s link)) Idle (sy_flusher (quiet_start s link))"
    using assms(2) by (simp add: calm_def quiet_start_def cache_inv_def lists_ok_def listed_def clear_def apart_def)
qed (use assms in \<open>simp_all add: quiet_start_def\<close>)

lemma calm_cache_inv: "calm disk {} s Idle f \<Longrightarrow> cache_inv disk s"
  by (auto simp: calm_def cache_inv_def coherent_def clean_ok_def fate_Some synced_def on_disk_def)

section \<open>The runs of the program\<close>

text \<open>
  C3. Take any number of client threads whose calls may overlap, with the flush thread at any
  moment between their steps, from a quiescent cache. As long as no two calls claim the same
  block (their own, or a victim), buffers are used as Rust's references promise, and blocks
  are kept apart from the flush thread, every interleaving is a run of the atomic block store,
  for every device that may fail at any request: each read returns the content of its block at
  one moment between call and return, each write replaces it at one moment or fails, and
  neither the flush thread nor an eviction is visible. Whenever no call is running the cache
  invariant holds again.
\<close>

theorem orderly_runs_atomic:
  assumes "env_ok E disk (ss_fd S)" "cache_inv disk s" "\<forall>lba < ss_max_lba S. lba_fits (bsize s) lba"
    and "(orderly_step E S)\<^sup>*\<^sup>* (quiet_start s link) x"
  shows "atomic_step\<^sup>*\<^sup>* (abs_sys disk (quiet_start s link)) (abs_sys disk x) \<and>
    ((\<forall>i. sy_clients x i = Idle) \<longrightarrow> cache_inv disk (sy_state x))"
proof -
  note start = quiet_serene [OF assms(1-3), of link]
  from osys.run_keeps [OF assms(4) start] have "serene E disk S x" .
  then show ?thesis
    using osys.run_refines [OF assms(4) start] serene_idle calm_cache_inv by blast
qed

text \<open>Two reads of different blocks, both under way.\<close>

lemma two_reads_orderly:
  assumes "c \<in> {Idle, Reading 8 131072 RTouch, Reading 8 131072 (RAlloc Allocate)}"
    "d \<in> {Idle, Reading 9 65536 RTouch, Reading 9 65536 (RAlloc Allocate)}"
  shows "orderly (two_clients race_cache c d sample_link)"
proof -
  have "claims c \<subseteq> {8}" "claims d \<subseteq> {9}" "claims Idle = {}" "victim c = {}" "victim d = {}" "unmarked c = {}" "unmarked d = {}"
    using assms by (auto simp: claims_def)
  moreover have "p \<in> client_buf c \<Longrightarrow> q \<in> client_out d \<Longrightarrow> disjoint_ranges p 4096 q 4096"
    "p \<in> client_buf d \<Longrightarrow> q \<in> client_out c \<Longrightarrow> disjoint_ranges p 4096 q 4096"
    "p \<in> client_buf c \<union> client_buf d \<Longrightarrow> user_buf_ok race_cache p" for p q
    using assms race_sample_buf(1,2) by (auto simp: disjoint_ranges_def)
  ultimately show ?thesis
    by (auto simp: two_clients_def orderly_def claims_apart_def bufs_apart_def apart_def)
qed

theorem orderly_runs_atomic_witness:
  "atomic_step\<^sup>*\<^sup>* (abs_sys sim_disk (quiet_start race_cache sample_link))
     (abs_sys sim_disk (two_clients race_cache (Reading 8 131072 (RAlloc Allocate)) (Reading 9 65536 (RAlloc Allocate)) sample_link))"
proof -
  have "(orderly_step reliable_env sample_session)\<^sup>*\<^sup>* (quiet_start race_cache sample_link)
      (two_clients race_cache (Reading 8 131072 (RAlloc Allocate)) (Reading 9 65536 (RAlloc Allocate)) sample_link)"
    unfolding orderly_step_def [abs_def] by (rule two_reads_run) (rule two_reads_orderly)
  moreover have "\<forall>lba < ss_max_lba sample_session. lba_fits (bsize race_cache) lba"
    by (simp add: lba_fits_def word_less_nat_alt)
  ultimately show ?thesis
    using orderly_runs_atomic [of reliable_env sim_disk sample_session race_cache sample_link] race_sample_inv(1) reliable_env_ok
    by blast
qed

end
