(* ===== verification/Orderly_Stop.thy ===== *)
theory Orderly_Stop
  imports Orderly
begin

text \<open>
  Stopping a running system. In an orderly run the blocks of the cache stay on the device,
  and a stop that finds the flush thread waiting makes it write what the atomic store of
  \<open>Orderly\<close> holds to the device before it ends. A stop at another moment ends the thread too,
  within a number of steps given by the size of the pool, and leaves exactly the blocks
  unwritten that its last list did not have; \<open>Races\<close> shows that there can be such blocks.
\<close>

section \<open>Cached blocks are blocks of the device\<close>










section \<open>The flush thread on its own\<close>


section \<open>Stopping\<close>



section \<open>A stop in the middle of a cycle\<close>



definition dirty_lbas :: "'w cache_state \<Rightarrow> u64 set" where
  "dirty_lbas s = {l. \<exists>i. fate s l = Some (i, True)}"




text \<open>
  One step of the thread once the stop flag is set and no call runs, on a device that accepts
  writes.
\<close>

lemma dirty_simps [simp]:
  "dirty_lbas (s\<lparr>cs_world := w\<rparr>) = dirty_lbas s"
  by (simp add: dirty_lbas_def)













end
