(* ===== verification/Copy_Steps.thy ===== *)
theory Copy_Steps
  imports Asm_Copy
begin

text \<open>
  The copies of \<open>src/src/asm\<close> cut at every memory access, for threads that copy at the same
  time: the non-temporal copy makes four 16-byte loads and four streaming stores per cache
  line, \<open>REP MOVSB\<close> one byte at a time. Block memory is not behind a lock, so nothing else
  orders these accesses. The locale \<open>footprint\<close> is the contract of a machine that reads and
  writes within bounds; any number of such machines that do not touch each other's memory
  run as if each were alone. Weakly ordered stores that are still in a buffer at the fence of
  another thread are not modelled: a store is visible at once.
\<close>

section \<open>Copies as machines\<close>

text \<open>
  \<open>Loading\<close> and \<open>Storing\<close> hold destination, source, number of lines, the current line and the
  registers \<open>s0\<close> to \<open>s3\<close> that are loaded, or still to be stored; \<open>Moving\<close> holds RCX, RDI and
  RSI. Prefetches do not change memory and are left out.
\<close>

datatype copier =
    Loading nat nat nat nat "u8 list list"
  | Storing nat nat nat nat "u8 list list"
  | Moving nat nat nat
  | Copied
  | Crashed

fun copier_next :: "copier \<Rightarrow> store \<Rightarrow> copier \<times> store" where
  "copier_next (Loading dst src n i regs) m =
     (if i < n then
        if length regs < 4 then
          (case mm_load_si128 (src + (i * CHUNK_SIZE + 16 * length regs)) m of
             None \<Rightarrow> (Crashed, m)
           | Some v \<Rightarrow> (Loading dst src n i (regs @ [v]), m))
        else (Storing dst src n i regs, m)
      else (Copied, store_fence m))"
| "copier_next (Storing dst src n i []) m = (Loading dst src n (Suc i) [], m)"
| "copier_next (Storing dst src n i (v # regs)) m =
     (case mm_stream_si128 (dst + (i * CHUNK_SIZE + 16 * (3 - length regs))) v m of
        None \<Rightarrow> (Crashed, m)
      | Some m' \<Rightarrow> (Storing dst src n i regs, m'))"
| "copier_next (Moving 0 rdi rsi) m = (Copied, m)"
| "copier_next (Moving (Suc rcx) rdi rsi) m = (Moving rcx (Suc rdi) (Suc rsi), m(rdi := m rsi))"
| "copier_next Copied m = (Copied, m)"
| "copier_next Crashed m = (Crashed, m)"

definition nt_copier :: "nat \<Rightarrow> nat \<Rightarrow> nat \<Rightarrow> copier" where
  "nt_copier dst src len = Loading dst src (len div CHUNK_SIZE) 0 []"

definition erms_copier :: "nat \<Rightarrow> nat \<Rightarrow> nat \<Rightarrow> copier" where
  "erms_copier dst src len = Moving len dst src"

section \<open>Runs\<close>

primrec steps :: "('p \<Rightarrow> store \<Rightarrow> 'p \<times> store) \<Rightarrow> nat \<Rightarrow> 'p \<Rightarrow> store \<Rightarrow> 'p \<times> store" where
  "steps step 0 p m = (p, m)"
| "steps step (Suc k) p m = (case step p m of (p', m') \<Rightarrow> steps step k p' m')"

text \<open>A schedule names the machine that moves next.\<close>

primrec parallel ::
  "('p \<Rightarrow> store \<Rightarrow> 'p \<times> store) \<Rightarrow> nat list \<Rightarrow> (nat \<Rightarrow> 'p) \<Rightarrow> store \<Rightarrow> (nat \<Rightarrow> 'p) \<times> store" where
  "parallel step [] ps m = (ps, m)"
| "parallel step (i # sch) ps m =
     (case step (ps i) m of (p', m') \<Rightarrow> parallel step sch (ps(i := p')) m')"

lemma steps_add: "steps step (j + k) p m = (case steps step j p m of (p', m') \<Rightarrow> steps step k p' m')"
  by (induction j arbitrary: p m) (simp_all add: case_prod_unfold)

lemma steps_last: "steps step (k + 1) p m = (case steps step k p m of (p', m') \<Rightarrow> step p' m')"
  by (simp only: steps_add) (simp add: case_prod_unfold)

lemma parallel_append:
  "parallel step (xs @ ys) ps m = (case parallel step xs ps m of (qs, m') \<Rightarrow> parallel step ys qs m')"
  by (induction xs arbitrary: ps m) (simp_all add: case_prod_unfold)

text \<open>One machine that moves while the others rest.\<close>

lemma parallel_replicate:
  "parallel step (replicate k i) ps m = (case steps step k (ps i) m of (p', m') \<Rightarrow> (ps(i := p'), m'))"
proof (induction k arbitrary: ps m)
  case (Suc k)
  then show ?case by (simp add: case_prod_unfold fun_eq_iff)
qed simp

lemma steps_stay: "(\<And>m. step p m = (p, m)) \<Longrightarrow> steps step k p m = (p, m)"
  by (induction k) simp_all

section \<open>Machines that stay within bounds\<close>

text \<open>
  A step depends on the memory of \<open>reads\<close> only, and changes that of \<open>writes\<close> only: where it
  does not leave the memory alone, it stores the same values in all memories that agree on
  what it reads.
\<close>

locale footprint =
  fixes step :: "'p \<Rightarrow> store \<Rightarrow> 'p \<times> store"
    and ok :: "'p \<Rightarrow> bool"
    and reads :: "'p \<Rightarrow> nat set"
    and writes :: "'p \<Rightarrow> nat set"
  assumes ok_step: "ok p \<Longrightarrow> ok (fst (step p m))"
    and shrink: "ok p \<Longrightarrow> reads (fst (step p m)) \<subseteq> reads p" "ok p \<Longrightarrow> writes (fst (step p m)) \<subseteq> writes p"
    and frame: "ok p \<Longrightarrow> a \<notin> writes p \<Longrightarrow> snd (step p m) a = m a"
    and depends: "ok p \<Longrightarrow> \<forall>a \<in> reads p. m' a = m a \<Longrightarrow> fst (step p m') = fst (step p m)"
      "ok p \<Longrightarrow> \<forall>a \<in> reads p. m' a = m a \<Longrightarrow>
        snd (step p m') a = snd (step p m) a \<or> snd (step p m) a = m a \<and> snd (step p m') a = m' a"
begin

lemma steps_frame: "ok p \<Longrightarrow> a \<notin> writes p \<Longrightarrow> snd (steps step k p m) a = m a"
proof (induction k arbitrary: p m)
  case (Suc k)
  have "a \<notin> writes (fst (step p m))" using Suc.prems shrink(2) by blast
  then show ?case
    using Suc.IH [of "fst (step p m)" "snd (step p m)"] Suc.prems ok_step frame by (simp add: case_prod_unfold)
qed simp

lemma steps_depend:
  "ok p \<Longrightarrow> \<forall>a \<in> reads p. m' a = m a \<Longrightarrow> fst (steps step k p m') = fst (steps step k p m) \<and>
   (\<forall>a. snd (steps step k p m') a = snd (steps step k p m) a \<or>
      snd (steps step k p m) a = m a \<and> snd (steps step k p m') a = m' a)"
proof (induction k arbitrary: p m m')
  case (Suc k)
  note one = depends(2) [OF Suc.prems]
  have p': "fst (step p m') = fst (step p m)" by (rule depends(1) [OF Suc.prems])
  have "\<forall>a \<in> reads (fst (step p m)). snd (step p m') a = snd (step p m) a"
    using one shrink(1) [OF Suc.prems(1)] Suc.prems(2) by fastforce
  from Suc.IH [OF ok_step [OF Suc.prems(1)] this] show ?case
    using one p' by (simp add: case_prod_unfold) metis
qed simp

text \<open>Every machine ends up where it would be alone, and so does the memory it writes.\<close>

lemma parallel_alone:
  assumes "\<And>i. ok (ps i)" "\<And>i j. i \<noteq> j \<Longrightarrow> writes (ps i) \<inter> (reads (ps j) \<union> writes (ps j)) = {}"
    and "parallel step sch ps m = (qs, m')"
  shows "qs i = fst (steps step (count_list sch i) (ps i) m) \<and>
    (\<forall>a \<in> writes (ps i). m' a = snd (steps step (count_list sch i) (ps i) m) a) \<and>
    (\<forall>a. (\<forall>j. a \<notin> writes (ps j)) \<longrightarrow> m' a = m a)"
  using assms
proof (induction sch arbitrary: ps m i)
  case (Cons h sch)
  define p1 m1 where "p1 = fst (step (ps h) m)" and "m1 = snd (step (ps h) m)"
  let ?ps = "ps(h := p1)"
  have st: "step (ps h) m = (p1, m1)" by (simp add: p1_def m1_def)
  have less: "reads (?ps j) \<subseteq> reads (ps j)" "writes (?ps j) \<subseteq> writes (ps j)" "ok (?ps j)" for j
    using shrink ok_step Cons.prems(1) by (simp_all add: p1_def)
  have ap: "writes (?ps j) \<inter> (reads (?ps k) \<union> writes (?ps k)) = {}" if "j \<noteq> k" for j k
    using Cons.prems(2) [OF that] less(1) [of k] less(2) [of j] less(2) [of k] by blast
  have run: "parallel step sch ?ps m1 = (qs, m')" using Cons.prems(3) st by simp
  note IH = Cons.IH [OF less(3) ap run]
  have out: "m1 a = m a" if "a \<notin> writes (ps h)" for a
    using frame [OF Cons.prems(1) that] by (simp add: m1_def)
  have rest: "m' a = m a" if "\<forall>j. a \<notin> writes (ps j)" for a
    using IH that less(2) out by (metis subsetD)
  show ?case
  proof (cases "i = h")
    case True
    have "m' a = snd (steps step (count_list sch h) p1 m1) a" if "a \<in> writes (ps h)" for a
    proof (cases "a \<in> writes p1")
      case True
      then show ?thesis using IH [of h] by simp
    next
      case False
      have "a \<notin> writes (?ps j)" for j
        using False that Cons.prems(2) [of h j] less(2) [of j] by (cases "j = h") auto
      then have "m' a = m1 a" using IH by blast
      then show ?thesis using steps_frame [of p1 a] False less(3) [of h] by simp
    qed
    then show ?thesis using True IH [of h] rest st by simp
  next
    case False
    have same: "\<forall>a \<in> reads (ps i). m1 a = m a" "\<And>a. a \<in> writes (ps i) \<Longrightarrow> m1 a = m a"
      using Cons.prems(2) [of h i] False out by blast+
    note dep = steps_depend [OF Cons.prems(1) same(1), of "count_list sch i"]
    have "m' a = snd (steps step (count_list sch i) (ps i) m) a" if "a \<in> writes (ps i)" for a
      using dep IH [of i] same(2) [OF that] that False by (metis fun_upd_other)
    then show ?thesis using dep IH [of i] False rest by simp
  qed
qed simp

end

section \<open>The copies are such machines\<close>

fun copier_ok :: "copier \<Rightarrow> bool" where
  "copier_ok (Loading dst src n i regs) = (\<forall>v \<in> set regs. length v = 16)"
| "copier_ok (Storing dst src n i regs) = (i < n \<and> (\<forall>v \<in> set regs. length v = 16))"
| "copier_ok p = True"

fun copier_reads :: "copier \<Rightarrow> nat set" where
  "copier_reads (Loading dst src n i regs) = {src + i * 64..<src + n * 64}"
| "copier_reads (Storing dst src n i regs) = {src + i * 64..<src + n * 64}"
| "copier_reads (Moving rcx rdi rsi) = {rsi..<rsi + rcx}"
| "copier_reads p = {}"

fun copier_writes :: "copier \<Rightarrow> nat set" where
  "copier_writes (Loading dst src n i regs) = {dst + i * 64..<dst + n * 64}"
| "copier_writes (Storing dst src n i regs) = {dst + i * 64..<dst + n * 64}"
| "copier_writes (Moving rcx rdi rsi) = {rdi..<rdi + rcx}"
| "copier_writes p = {}"

lemma line_bounds:
  assumes "i < n" "k \<le> 3"
  shows "p + i * 64 \<le> p + (i * 64 + 16 * k)" "p + (i * 64 + 16 * k) + 16 \<le> p + n * (64 :: nat)"
proof -
  have "Suc i * 64 \<le> n * 64" using assms(1) by (intro mult_le_mono1) simp
  then show "p + i * 64 \<le> p + (i * 64 + 16 * k)" "p + (i * 64 + 16 * k) + 16 \<le> p + n * 64"
    using assms(2) by simp_all
qed

lemma load_agrees:
  assumes "i < n" "k < 4" "\<forall>a \<in> {src + i * 64..<src + n * 64}. m' a = m a"
  shows "load_bytes m' (src + (i * 64 + 16 * k)) 16 = load_bytes m (src + (i * 64 + 16 * k)) 16"
  using assms(3) line_bounds [OF assms(1), of k src] assms(2) by (intro load_cong) simp

lemma store_in_line:
  assumes "i < n" "length v = 16" "a \<notin> {dst + i * 64..<dst + n * 64}"
  shows "store_bytes m (dst + (i * 64 + 16 * (3 - k))) v a = m a"
  using assms(2,3) line_bounds [OF assms(1), of "3 - k" dst] by (auto simp: store_bytes_def)

interpretation cp: footprint copier_next copier_ok copier_reads copier_writes
proof (unfold_locales, goal_cases)
  case (1 p m)
  then show ?case
    by (cases "(p, m)" rule: copier_next.cases)
      (auto simp: mm_load_si128_def mm_stream_si128_def split: if_splits)
next
  case (2 p m)
  then show ?case
    by (cases "(p, m)" rule: copier_next.cases)
      (auto simp: mm_load_si128_def mm_stream_si128_def split: if_splits)
next
  case (3 p m)
  then show ?case
    by (cases "(p, m)" rule: copier_next.cases)
      (auto simp: mm_load_si128_def mm_stream_si128_def split: if_splits)
next
  case (4 p a m)
  then show ?case
    by (cases "(p, m)" rule: copier_next.cases)
      (auto simp: mm_load_si128_def mm_stream_si128_def CHUNK_SIZE_def store_in_line store_fence_def split: if_splits)
next
  case (5 p m' m)
  then show ?case
    by (cases "(p, m)" rule: copier_next.cases)
      (simp_all add: mm_load_si128_def mm_stream_si128_def CHUNK_SIZE_def load_agrees)
next
  case (6 p m' m a)
  then show ?case
    by (cases "(p, m)" rule: copier_next.cases)
      (auto simp: mm_load_si128_def mm_stream_si128_def CHUNK_SIZE_def store_fence_def store_bytes_def)
qed

section \<open>A copy on its own\<close>

lemma moving_alone: "steps copier_next (Suc n) (Moving n rdi rsi) m = (Copied, rep_movsb n rdi rsi m)"
  by (induction n arbitrary: rdi rsi m) simp_all

lemma erms_alone: "steps copier_next (Suc len) (erms_copier dst src len) m = (Copied, erms_memcpy dst src len m)"
  by (simp add: erms_copier_def erms_memcpy_def moving_alone del: steps.simps)

text \<open>Ten steps for a line, as long as no access faults.\<close>

lemma line_alone:
  assumes "i < n"
  shows "case nt_chunk dst src n i m of
      Some m' \<Rightarrow> steps copier_next 10 (Loading dst src n i []) m = (Loading dst src n (Suc i) [], m')
    | None \<Rightarrow> fst (steps copier_next 10 (Loading dst src n i []) m) = Crashed"
proof -
  have "steps copier_next k Crashed m = (Crashed, m)" for k m by (rule steps_stay) simp
  then show ?thesis
    using assms
    by (auto simp: nt_chunk_def Let_def prefetch_read_def prefetch_write_def eval_nat_numeral split: option.splits)
qed

lemma crashed_stays [simp]: "steps copier_next k Crashed m = (Crashed, m)"
  by (rule steps_stay) simp

lemma copied_stays [simp]: "steps copier_next k Copied m = (Copied, m)"
  by (rule steps_stay) simp

lemma lines_alone:
  "i + k \<le> n \<Longrightarrow> case nt_loop dst src n i k m of
      Some m' \<Rightarrow> steps copier_next (10 * k) (Loading dst src n i []) m = (Loading dst src n (i + k) [], m')
    | None \<Rightarrow> fst (steps copier_next (10 * k) (Loading dst src n i []) m) = Crashed"
proof (induction k arbitrary: i m)
  case (Suc k)
  have ten: "steps copier_next (10 * Suc k) (Loading dst src n i []) m =
      (case steps copier_next 10 (Loading dst src n i []) m of (p, m') \<Rightarrow> steps copier_next (10 * k) p m')"
    by (simp only: mult_Suc_right steps_add)
  have i: "i < n" and n: "Suc i + k \<le> n" using Suc.prems by simp_all
  show ?case
  proof (cases "nt_chunk dst src n i m")
    case None
    then show ?thesis
      using line_alone [OF i, of dst src m] ten by (simp add: case_prod_unfold)
  next
    case (Some m1)
    then have "steps copier_next (10 * Suc k) (Loading dst src n i []) m = steps copier_next (10 * k) (Loading dst src n (Suc i) []) m1"
      using line_alone [OF i, of dst src m] ten by simp
    then show ?thesis using Suc.IH [OF n, of m1] Some by (simp del: mult_Suc_right split: option.splits)
  qed
qed simp

lemma nt_alone:
  "case nt_memcpy dst src len m of
      Some m' \<Rightarrow> steps copier_next (10 * (len div 64) + 1) (nt_copier dst src len) m = (Copied, m')
    | None \<Rightarrow> fst (steps copier_next (10 * (len div 64) + 1) (nt_copier dst src len) m) = Crashed"
  using lines_alone [of 0 "len div 64" "len div 64" dst src m]
  unfolding steps_last
  by (auto simp: nt_memcpy_def nt_copier_def CHUNK_SIZE_def store_fence_def case_prod_unfold Let_def split: option.splits)

section \<open>Copies at the same time\<close>

text \<open>A copy as a thread asks for it: which routine, destination, source and length.\<close>

datatype routine = Stream | Movsb

record copy_job =
  cj_routine :: routine
  cj_dst :: nat
  cj_src :: nat
  cj_len :: nat

definition job_start :: "copy_job \<Rightarrow> copier" where
  "job_start j =
     (case cj_routine j of
        Stream \<Rightarrow> nt_copier (cj_dst j) (cj_src j) (cj_len j)
      | Movsb \<Rightarrow> erms_copier (cj_dst j) (cj_src j) (cj_len j))"

definition job_steps :: "copy_job \<Rightarrow> nat" where
  "job_steps j = (case cj_routine j of Stream \<Rightarrow> 10 * (cj_len j div 64) + 1 | Movsb \<Rightarrow> Suc (cj_len j))"

text \<open>The calling conditions of the routine, as in \<open>nt_pre\<close> for the non-temporal copy.\<close>

definition job_ok :: "copy_job \<Rightarrow> bool" where
  "job_ok j \<longleftrightarrow> disjoint_ranges (cj_dst j) (cj_len j) (cj_src j) (cj_len j) \<and>
     (cj_routine j = Stream \<longrightarrow> nt_pre (cj_dst j) (cj_src j) (cj_len j))"

definition job_done :: "copy_job \<Rightarrow> store \<Rightarrow> store" where
  "job_done j m = store_bytes m (cj_dst j) (load_bytes m (cj_src j) (cj_len j))"

text \<open>Neither writes what the other reads or writes.\<close>

definition jobs_apart :: "copy_job \<Rightarrow> copy_job \<Rightarrow> bool" where
  "jobs_apart j k \<longleftrightarrow> disjoint_ranges (cj_dst j) (cj_len j) (cj_dst k) (cj_len k) \<and>
     disjoint_ranges (cj_dst j) (cj_len j) (cj_src k) (cj_len k) \<and>
     disjoint_ranges (cj_dst k) (cj_len k) (cj_src j) (cj_len j)"

lemma job_alone:
  assumes "job_ok j" "job_steps j \<le> k"
  shows "steps copier_next k (job_start j) m = (Copied, job_done j m)"
proof -
  have "steps copier_next (job_steps j) (job_start j) m = (Copied, job_done j m)"
  proof (cases "cj_routine j")
    case Stream
    then have "nt_memcpy (cj_dst j) (cj_src j) (cj_len j) m = Some (job_done j m)"
      using assms(1) nt_memcpy_store [of "cj_dst j" "cj_src j" "cj_len j" m]
      by (simp add: job_ok_def nt_pre_def job_done_def mod_eq_0_iff_dvd)
    then show ?thesis
      using nt_alone [where dst = "cj_dst j" and src = "cj_src j" and len = "cj_len j" and m = m] Stream
      by (simp add: job_start_def job_steps_def del: steps.simps)
  next
    case Movsb
    then show ?thesis
      using assms(1) erms_alone [of "cj_len j" "cj_dst j" "cj_src j" m]
      by (simp add: job_start_def job_steps_def job_ok_def job_done_def erms_memcpy_def rep_movsb_store del: steps.simps)
  qed
  then show ?thesis using steps_add [of copier_next "job_steps j" "k - job_steps j"] assms(2) by simp
qed

lemma job_bounds:
  "copier_ok (job_start j)"
  "copier_reads (job_start j) \<subseteq> {cj_src j..<cj_src j + cj_len j}"
  "copier_writes (job_start j) \<subseteq> {cj_dst j..<cj_dst j + cj_len j}"
proof -
  have "cj_len j div 64 * 64 \<le> cj_len j" by simp
  then show "copier_ok (job_start j)" "copier_reads (job_start j) \<subseteq> {cj_src j..<cj_src j + cj_len j}"
    "copier_writes (job_start j) \<subseteq> {cj_dst j..<cj_dst j + cj_len j}"
    by (auto simp: job_start_def nt_copier_def erms_copier_def CHUNK_SIZE_def split: routine.splits)
qed

lemma job_writes: "job_ok j \<Longrightarrow> copier_writes (job_start j) = {cj_dst j..<cj_dst j + cj_len j}"
  by (auto simp: job_ok_def nt_pre_def job_start_def nt_copier_def erms_copier_def CHUNK_SIZE_def mod_eq_0_iff_dvd
      split: routine.splits)

lemma jobs_apart_sym: "jobs_apart j k \<longleftrightarrow> jobs_apart k j"
  by (auto simp: jobs_apart_def disjoint_ranges_sym)

text \<open>
  Any number of copies, in any interleaving of their accesses: one that has made its steps is
  complete, its destination holds what its source held at the beginning, and memory outside
  all destinations is untouched.
\<close>

lemma copies_in_parallel:
  assumes "\<And>i. job_ok (jobs i)" "\<And>i j. i \<noteq> j \<Longrightarrow> jobs_apart (jobs i) (jobs j)"
    and "parallel copier_next sch (\<lambda>i. job_start (jobs i)) m = (qs, m')"
  shows "job_steps (jobs i) \<le> count_list sch i \<Longrightarrow>
      qs i = Copied \<and> load_bytes m' (cj_dst (jobs i)) (cj_len (jobs i)) = load_bytes m (cj_src (jobs i)) (cj_len (jobs i))"
    "(\<And>j. a \<notin> {cj_dst (jobs j)..<cj_dst (jobs j) + cj_len (jobs j)}) \<Longrightarrow> m' a = m a"
proof -
  have ap: "copier_writes (job_start (jobs i)) \<inter> (copier_reads (job_start (jobs j)) \<union> copier_writes (job_start (jobs j))) = {}"
    if "i \<noteq> j" for i j
    using assms(2) [OF that] job_bounds(2,3) [of "jobs j"] job_bounds(3) [of "jobs i"]
    by (fastforce simp: jobs_apart_def disjoint_ranges_def)
  note par = cp.parallel_alone [where ps = "\<lambda>i. job_start (jobs i)", OF job_bounds(1) ap assms(3)]
  show "m' a = m a" if "\<And>j. a \<notin> {cj_dst (jobs j)..<cj_dst (jobs j) + cj_len (jobs j)}"
    using par that job_bounds(3) by blast
  assume "job_steps (jobs i) \<le> count_list sch i"
  note alone = job_alone [OF assms(1) this]
  have "load_bytes m' (cj_dst (jobs i)) (cj_len (jobs i)) = load_bytes (job_done (jobs i) m) (cj_dst (jobs i)) (cj_len (jobs i))"
    using par [of i] alone [of m] by (intro load_cong) (simp add: job_writes [OF assms(1)])
  then show "qs i = Copied \<and> load_bytes m' (cj_dst (jobs i)) (cj_len (jobs i)) = load_bytes m (cj_src (jobs i)) (cj_len (jobs i))"
    using par [of i] alone [of m] by (simp add: job_done_def load_store_same)
qed

text \<open>Two copies, and nothing else.\<close>

definition idle_job :: copy_job where
  "idle_job = \<lparr>cj_routine = Movsb, cj_dst = 0, cj_src = 0, cj_len = 0\<rparr>"

definition two_jobs :: "copy_job \<Rightarrow> copy_job \<Rightarrow> nat \<Rightarrow> copy_job" where
  "two_jobs j k = (\<lambda>i. if i = 0 then j else if i = 1 then k else idle_job)"

lemma two_jobs_simps [simp]: "two_jobs j k 0 = j" "two_jobs j k 1 = k" "two_jobs j k (Suc 0) = k"
  by (simp_all add: two_jobs_def)

lemma load_at: "load_bytes m p n = load_bytes m' q n \<Longrightarrow> p \<le> a \<Longrightarrow> a < p + n \<Longrightarrow> m a = m' (q + (a - p))"
  using nth_load [of "a - p" n m p] nth_load [of "a - p" n m' q] by simp

lemma two_copies:
  assumes ok: "job_ok j" "job_ok k" "jobs_apart j k"
    and run: "parallel copier_next sch (\<lambda>i. job_start (two_jobs j k i)) m = (qs, m')"
    and enough: "job_steps j \<le> count_list sch 0" "job_steps k \<le> count_list sch 1"
  shows "qs 0 = Copied" "qs 1 = Copied" "m' = job_done k (job_done j m)" "job_done k (job_done j m) = job_done j (job_done k m)"
proof -
  have all: "job_ok (two_jobs j k i)" for i
    using ok by (simp add: two_jobs_def job_ok_def idle_job_def disjoint_ranges_def)
  have ap: "jobs_apart (two_jobs j k i) (two_jobs j k l)" if "i \<noteq> l" for i l
    using ok(3) that jobs_apart_sym [of j k] by (simp add: two_jobs_def) (simp add: jobs_apart_def idle_job_def disjoint_ranges_def)
  note par = copies_in_parallel [OF all ap run]
  have res: "qs 0 = Copied" "load_bytes m' (cj_dst j) (cj_len j) = load_bytes m (cj_src j) (cj_len j)"
    "qs 1 = Copied" "load_bytes m' (cj_dst k) (cj_len k) = load_bytes m (cj_src k) (cj_len k)"
    using par(1) [of 0] par(1) [of 1] enough by simp_all
  have out: "m' a = m a" if "a \<notin> {cj_dst j..<cj_dst j + cj_len j}" "a \<notin> {cj_dst k..<cj_dst k + cj_len k}" for a
    using that by (intro par(2)) (auto simp: two_jobs_def idle_job_def)
  have src: "load_bytes (job_done j m) (cj_src k) (cj_len k) = load_bytes m (cj_src k) (cj_len k)"
    "load_bytes (job_done k m) (cj_src j) (cj_len j) = load_bytes m (cj_src j) (cj_len j)"
    using ok(3) by (simp_all add: job_done_def jobs_apart_def load_store_disjoint disjoint_ranges_sym)
  have dis: "disjoint_ranges (cj_dst j) (cj_len j) (cj_dst k) (cj_len k)" using ok(3) by (simp add: jobs_apart_def)
  show "qs 0 = Copied" "qs 1 = Copied" by fact+
  have done_def: "job_done j' n = store_bytes n (cj_dst j') (load_bytes n (cj_src j') (cj_len j'))" for j' n
    by (simp add: job_done_def)
  show "job_done k (job_done j m) = job_done j (job_done k m)"
    unfolding done_def [of k "job_done j m"] done_def [of j "job_done k m"] src
    using dis by (auto simp: job_done_def store_bytes_def disjoint_ranges_def fun_eq_iff)
  show "m' = job_done k (job_done j m)"
  proof
    fix a
    show "m' a = job_done k (job_done j m) a"
      unfolding done_def [of k "job_done j m"] src
      using dis out [of a] load_at [OF res(2), of a] load_at [OF res(4), of a]
      by (auto simp: job_done_def store_bytes_def disjoint_ranges_def)
  qed
qed

text \<open>
  A block that is read while it is overwritten: the reader may get any number of lines of the
  new contents followed by the old.
\<close>

lemma torn_copy:
  assumes al: "nt_pre slot src len" and k: "k \<le> len div 64"
    and dis: "disjoint_ranges slot len src len" "disjoint_ranges p len slot len"
  obtains sch qs m' where
    "parallel copier_next sch (\<lambda>i. job_start (two_jobs \<lparr>cj_routine = Movsb, cj_dst = p, cj_src = slot, cj_len = len\<rparr>
       \<lparr>cj_routine = Stream, cj_dst = slot, cj_src = src, cj_len = len\<rparr> i)) m = (qs, m')"
    "qs 0 = Copied" "qs 1 = Copied"
    "load_bytes m' p len = load_bytes m src (k * 64) @ load_bytes m (slot + k * 64) (len - k * 64)"
proof -
  let ?n = "len div 64" and ?r = "\<lparr>cj_routine = Movsb, cj_dst = p, cj_src = slot, cj_len = len\<rparr>"
  let ?w = "\<lparr>cj_routine = Stream, cj_dst = slot, cj_src = src, cj_len = len\<rparr>"
  let ?ps = "\<lambda>i. job_start (two_jobs ?r ?w i)"
  have n: "?n * 64 = len" and al': "slot mod 16 = 0" "src mod 16 = 0"
    using al by (simp_all add: nt_pre_def mod_eq_0_iff_dvd)
  define m1 where "m1 = store_bytes m slot (load_bytes m src (k * 64))"
  define m2 where "m2 = store_bytes m1 p (load_bytes m1 slot len)"
  define m3 where "m3 = store_bytes m2 (slot + k * 64) (load_bytes m2 (src + k * 64) ((?n - k) * 64))"
  have k': "k * 64 \<le> len" using k n by (metis mult_le_mono1)
  have sub: "disjoint_ranges slot ((i + l) * 64) src ((i + l) * 64)" if "i + l \<le> ?n" for i l
    using dis(1) mult_le_mono1 [OF that, of 64] by (intro disjoint_ranges_le [OF dis(1)]) (simp add: n)
  have w1: "steps copier_next (10 * k) (?ps 1) m = (Loading slot src ?n k [], m1)"
    using lines_alone [of 0 k ?n slot src m] nt_loop_store [OF al' sub, of 0 k ?n m] k
    by (simp add: job_start_def nt_copier_def CHUNK_SIZE_def m1_def)
  have r: "steps copier_next (Suc len) (?ps 0) m1 = (Copied, m2)"
    using erms_alone [of len p slot m1] dis(2)
    by (simp add: job_start_def m2_def erms_memcpy_def rep_movsb_store del: steps.simps)
  have w2: "steps copier_next (10 * (?n - k) + 1) (Loading slot src ?n k []) m2 = (Copied, m3)"
    using lines_alone [of k "?n - k" ?n slot src m2] nt_loop_store [OF al' sub, of k "?n - k" ?n m2] k
    unfolding steps_last by (simp add: m3_def store_fence_def)
  let ?sch = "replicate (10 * k) 1 @ replicate (Suc len) 0 @ replicate (10 * (?n - k) + 1) 1"
  have run: "parallel copier_next ?sch ?ps m = (?ps(1 := Copied, 0 := Copied), m3)"
    unfolding parallel_append parallel_replicate using w1 r w2 by (simp add: fun_upd_twist del: steps.simps replicate_Suc)
  have rest: "len - k * 64 = (?n - k) * 64" using n by (simp add: diff_mult_distrib)
  have "load_bytes m1 slot len = load_bytes m src (k * 64) @ load_bytes m (slot + k * 64) (len - k * 64)"
    using load_append [of m1 slot "k * 64" "len - k * 64"] k'
    by (simp add: m1_def load_store_same load_store_disjoint disjoint_ranges_def)
  then have m2: "load_bytes m2 p len = load_bytes m src (k * 64) @ load_bytes m (slot + k * 64) (len - k * 64)"
    using load_store_same [of len "load_bytes m1 slot len" m1 p] k' by (simp add: m2_def)
  have "disjoint_ranges p len (slot + k * 64) ((?n - k) * 64)"
    using dis(2) k' rest by (auto simp: disjoint_ranges_def)
  then have "load_bytes m3 p len = load_bytes m2 p len" by (simp add: m3_def load_store_disjoint)
  with m2 have "load_bytes m3 p len = load_bytes m src (k * 64) @ load_bytes m (slot + k * 64) (len - k * 64)" by simp
  from that [OF run _ _ this] show thesis by simp
qed

end
