(* ===== verification/Torn.thy ===== *)
theory Torn
  imports Orderly Copy_Steps
begin

text \<open>
  Clients that copy at the same time. \<open>Interleave\<close> lets a copy between a pool block and a
  caller's buffer happen in one step. With the copies cut at every memory access
  (\<open>Copy_Steps\<close>) this is shown to be no restriction for clients that use different slots and
  buffers; for a client that reads a block while another overwrites it, it is: the reader may
  get a mixture of two versions of the block.
\<close>

section \<open>The copy a client is about to make\<close>

text \<open>
  The four copies of \<open>cached_read\<close> and \<open>cached_write\<close>. Without ERMS the temporal copy is the
  library's \<open>copy_nonoverlapping\<close>, whose accesses the source does not determine.
\<close>

fun client_copy :: "'w env \<Rightarrow> client_pc \<Rightarrow> 'w cache_state \<Rightarrow> copy_job option" where
  "client_copy E (Reading lba ptr (RHit i)) s =
     (if cpu_supports_erms E
      then Some \<lparr>cj_routine = Movsb, cj_dst = ptr, cj_src = bb_ptr (get_block (cs_pool s) i), cj_len = bsize s\<rparr> else None)"
| "client_copy E (Reading lba ptr (RCopy b)) s =
     (if cpu_supports_erms E
      then Some \<lparr>cj_routine = Movsb, cj_dst = ptr, cj_src = bb_ptr b, cj_len = bsize s\<rparr> else None)"
| "client_copy E (Writing lba ptr (WUpdate i)) s =
     Some \<lparr>cj_routine = Stream, cj_dst = bb_ptr (get_block (cs_pool s) i), cj_src = ptr, cj_len = bsize s\<rparr>"
| "client_copy E (Writing lba ptr (WFill i b)) s =
     Some \<lparr>cj_routine = Stream, cj_dst = bb_ptr b, cj_src = ptr, cj_len = bsize s\<rparr>"
| "client_copy E c s = None"

text \<open>The slot it copies from or to, and the calling conditions of the operation.\<close>

fun copy_slot :: "client_pc \<Rightarrow> 'w cache_state \<Rightarrow> usize option" where
  "copy_slot (Reading lba ptr (RHit i)) s = Some i"
| "copy_slot (Reading lba ptr (RCopy b)) s = owner s lba"
| "copy_slot (Writing lba ptr (WUpdate i)) s = Some i"
| "copy_slot (Writing lba ptr (WFill i b)) s = Some i"
| "copy_slot c s = None"

fun call_ok :: "'w cache_state \<Rightarrow> client_pc \<Rightarrow> bool" where
  "call_ok s Idle = True"
| "call_ok s (Reading lba ptr pc) = user_buf_ok s ptr"
| "call_ok s (Writing lba ptr pc) = (user_buf_ok s ptr \<and> write_ptr_ok ptr)"

definition copy_ready :: "'w cache_state \<Rightarrow> client_pc \<Rightarrow> bool" where
  "copy_ready s c \<longleftrightarrow> struct_inv s \<and> client_ok_at s c \<and> call_ok s c"

text \<open>A copy moves one slot from or to the buffer of its caller.\<close>

lemma client_copy_cases:
  assumes ready: "copy_ready s c" and copy: "client_copy E c s = Some j"
  obtains i ptr where "copy_slot c s = Some i" "i < mp_capacity (cs_pool s)" "client_buf c = {ptr}" "user_buf_ok s ptr"
    "j = \<lparr>cj_routine = Movsb, cj_dst = ptr, cj_src = block_addr (cs_pool s) i, cj_len = bsize s\<rparr> \<and> client_out c = {ptr} \<or>
     j = \<lparr>cj_routine = Stream, cj_dst = block_addr (cs_pool s) i, cj_src = ptr, cj_len = bsize s\<rparr> \<and> write_ptr_ok ptr"
proof -
  note inv = ready [unfolded copy_ready_def]
  have "owner s l = Some i \<Longrightarrow> i < mp_capacity (cs_pool s)"
    "owner s l = Some i \<Longrightarrow> bb_ptr (get_block (cs_pool s) i) = block_addr (cs_pool s) i" for l i
    using inv owner_index [of s] owner_block [of s] by (auto simp: slot_block_def)
  then show thesis
    using inv copy by (cases "(E, c, s)" rule: client_copy.cases)
      (auto intro!: that simp: slot_block_def in_hand_def split: if_splits)
qed

lemma client_job_ok:
  assumes "copy_ready s c" "client_copy E c s = Some j"
  shows "job_ok j"
proof -
  have shape: "pool_shape (cs_pool s)" using assms(1) struct_invD(2) by (auto simp: copy_ready_def)
  have "64 dvd bsize s" "block_addr (cs_pool s) i mod 16 = 0" for i
    using shape block_addr_aligned [OF shape, of i] by (auto simp: pool_shape_def mod_eq_0_iff_dvd elim: dvd_trans [rotated])
  then show ?thesis
    using assms by (rule_tac client_copy_cases [OF assms])
      (auto simp: job_ok_def nt_pre_def write_ptr_ok_def buf_slot_disjoint disjoint_ranges_sym)
qed

text \<open>The step of \<open>Interleave\<close> has the effect of the completed copy.\<close>

lemma job_routine:
  assumes "job_ok j"
  shows "cj_routine j = Stream \<Longrightarrow> fast_copy_nontemporal (cj_dst j) (cj_src j) (cj_len j) m = Some (job_done j m)"
    "fast_copy_temporal E (cj_dst j) (cj_src j) (cj_len j) m = job_done j m"
proof -
  note d = assms [unfolded job_ok_def]
  show "cj_routine j = Stream \<Longrightarrow> fast_copy_nontemporal (cj_dst j) (cj_src j) (cj_len j) m = Some (job_done j m)"
    using d nt.copies [of "cj_dst j" "cj_src j" "cj_len j" m] by (simp add: job_done_def)
  show "fast_copy_temporal E (cj_dst j) (cj_src j) (cj_len j) m = job_done j m"
    using d fast_copy_temporal_store [of "cj_dst j" "cj_len j" "cj_src j" E m] by (simp add: job_done_def)
qed

lemma client_copy_step:
  assumes "copy_ready s c" "client_copy E c s = Some j"
  shows "snd (client_next E S chan c s) = s\<lparr>cs_mem := job_done j (cs_mem s)\<rparr>"
    "client_copy E c (s\<lparr>cs_mem := m\<rparr>) = Some j"
    "fst (client_next E S chan c (s\<lparr>cs_mem := m\<rparr>)) = fst (client_next E S chan c s)"
proof -
  note ok = job_routine(1) [OF client_job_ok [OF assms]] job_routine(2) [OF client_job_ok [OF assms], of E]
  show "snd (client_next E S chan c s) = s\<lparr>cs_mem := job_done j (cs_mem s)\<rparr>"
    "client_copy E c (s\<lparr>cs_mem := m\<rparr>) = Some j"
    "fst (client_next E S chan c (s\<lparr>cs_mem := m\<rparr>)) = fst (client_next E S chan c s)"
    using assms(2) ok [of "cs_mem s"] ok [of m]
    by (cases "(E, c, s)" rule: client_copy.cases;
        auto simp: client_next_def read_next_def write_next_def split: if_splits)+
qed

section \<open>Different slots\<close>

lemma client_jobs_apart:
  assumes ready: "copy_ready s c" "copy_ready s d" and copy: "client_copy E c s = Some j" "client_copy E d s = Some k"
    and slots: "copy_slot c s \<noteq> copy_slot d s"
    and bufs: "\<forall>p \<in> client_buf c. \<forall>q \<in> client_out d. disjoint_ranges p (bsize s) q (bsize s)"
      "\<forall>p \<in> client_buf d. \<forall>q \<in> client_out c. disjoint_ranges p (bsize s) q (bsize s)"
  shows "jobs_apart j k"
proof -
  obtain i p where c: "copy_slot c s = Some i" "i < mp_capacity (cs_pool s)" "client_buf c = {p}" "user_buf_ok s p"
      "j = \<lparr>cj_routine = Movsb, cj_dst = p, cj_src = block_addr (cs_pool s) i, cj_len = bsize s\<rparr> \<and> client_out c = {p} \<or>
       j = \<lparr>cj_routine = Stream, cj_dst = block_addr (cs_pool s) i, cj_src = p, cj_len = bsize s\<rparr> \<and> write_ptr_ok p"
    by (rule client_copy_cases [OF ready(1) copy(1)])
  obtain l q where d: "copy_slot d s = Some l" "l < mp_capacity (cs_pool s)" "client_buf d = {q}" "user_buf_ok s q"
      "k = \<lparr>cj_routine = Movsb, cj_dst = q, cj_src = block_addr (cs_pool s) l, cj_len = bsize s\<rparr> \<and> client_out d = {q} \<or>
       k = \<lparr>cj_routine = Stream, cj_dst = block_addr (cs_pool s) l, cj_src = q, cj_len = bsize s\<rparr> \<and> write_ptr_ok q"
    by (rule client_copy_cases [OF ready(2) copy(2)])
  have "disjoint_ranges (block_addr (cs_pool s) i) (bsize s) (block_addr (cs_pool s) l) (bsize s)"
    using slots c(1) d(1) by (intro block_addr_disjoint) auto
  moreover have "disjoint_ranges p (bsize s) (block_addr (cs_pool s) l) (bsize s)"
    "disjoint_ranges q (bsize s) (block_addr (cs_pool s) i) (bsize s)"
    using c d buf_slot_disjoint by blast+
  ultimately show ?thesis
    using c(3,5) d(3,5) bufs by (auto simp: jobs_apart_def disjoint_ranges_sym)
qed

text \<open>
  C15. A copy may count as one step. Take two clients that are about to copy, with different
  slots, neither of them reading into the buffer of the other. However the memory accesses of
  the two copies are interleaved, once each has made its accesses both are complete and the
  state is the one the two clients reach by one step each, in either order.
\<close>

theorem copies_are_steps:
  assumes "copy_ready s c" "copy_ready s d" "client_copy E c s = Some j" "client_copy E d s = Some k"
    and "copy_slot c s \<noteq> copy_slot d s"
    and "\<forall>p \<in> client_buf c. \<forall>q \<in> client_out d. disjoint_ranges p (bsize s) q (bsize s)"
      "\<forall>p \<in> client_buf d. \<forall>q \<in> client_out c. disjoint_ranges p (bsize s) q (bsize s)"
    and "parallel copier_next sch (\<lambda>i. job_start (two_jobs j k i)) (cs_mem s) = (qs, m')"
    and "job_steps j \<le> count_list sch 0" "job_steps k \<le> count_list sch 1"
  shows "qs 0 = Copied \<and> qs 1 = Copied \<and>
    client_next E S chan d (snd (client_next E S chan c s)) = (fst (client_next E S chan d s), s\<lparr>cs_mem := m'\<rparr>) \<and>
    client_next E S chan c (snd (client_next E S chan d s)) = (fst (client_next E S chan c s), s\<lparr>cs_mem := m'\<rparr>)"
proof -
  have apart: "jobs_apart j k" by (rule client_jobs_apart [OF assms(1-7)])
  note res = two_copies [OF client_job_ok [OF assms(1,3)] client_job_ok [OF assms(2,4)] apart assms(8-10)]
  have keep: "copy_ready (s\<lparr>cs_mem := m\<rparr>) b" if "copy_ready s b" for m b
  proof -
    have same: "same_slots s (s\<lparr>cs_mem := m\<rparr>)" by (simp add: same_slots_def)
    have "call_ok (s\<lparr>cs_mem := m\<rparr>) b = call_ok s b" by (cases b) (simp_all add: user_buf_ok_def)
    then show ?thesis
      using that same_slots_struct [OF same] same_slots_client [OF same, of b] by (simp add: copy_ready_def)
  qed
  have next_eq: "client_next E S chan b (s\<lparr>cs_mem := m\<rparr>) = (fst (client_next E S chan b s), s\<lparr>cs_mem := job_done l m\<rparr>)"
    if "copy_ready s b" "client_copy E b s = Some l" for b l m
    using client_copy_step(1) [OF keep [OF that(1), of m] client_copy_step(2) [OF that]] client_copy_step(3) [OF that]
    by (simp add: prod_eq_iff)
  show ?thesis
    using res(1,2) client_copy_step(1) [OF assms(1,3)] client_copy_step(1) [OF assms(2,4)]
      next_eq [OF assms(1,3)] next_eq [OF assms(2,4)]
    by (simp add: res(3)) (simp add: res(4))
qed

text \<open>In an orderly run clients that copy at the same time use different slots and buffers.\<close>

lemma copy_slot_own:
  assumes "client_ok_at s c" "copy_slot c s = Some i"
  shows "i \<in> hand c \<or> owner s (client_lba c) = Some i \<and> client_lba c \<in> claims c"
  using assms by (cases "(c, s)" rule: copy_slot.cases) (auto simp: claims_def)

lemma orderly_copies_apart:
  assumes ser: "serene E disk S x" and ij: "i \<noteq> j" and slots: "copy_slot (sy_clients x i) (sy_state x) = Some a"
    "copy_slot (sy_clients x j) (sy_state x) = Some b"
  shows "a \<noteq> b" "\<forall>p \<in> client_buf (sy_clients x i). \<forall>q \<in> client_out (sy_clients x j).
    disjoint_ranges p (bsize (sy_state x)) q (bsize (sy_state x))"
proof -
  note ok = serene_shared(1,5) [OF ser]
  have ap: "claims (sy_clients x i) \<inter> claims (sy_clients x j) = {}" "hand (sy_clients x i) \<inter> hand (sy_clients x j) = {}"
    using sereneD(2,3) [OF ser] ij by (simp_all add: claims_apart_def hands_apart_def)
  have held: "owner (sy_state x) l \<noteq> Some c" if "c \<in> hand (sy_clients x k)" for l c k
    using hand_in_hand [OF ok(2) that] by (simp add: in_hand_owner)
  have one: "l = l'" if "owner (sy_state x) l = Some c" "owner (sy_state x) l' = Some c" for l l' c
    using ok(1) that unfolding struct_inv_owner by blast
  note own = copy_slot_own [OF ok(2) slots(1)] copy_slot_own [OF ok(2) slots(2)]
  show "a \<noteq> b"
  proof (cases "a \<in> hand (sy_clients x i)")
    case True
    then show ?thesis using own(2) held ap(2) by auto
  next
    case False
    then have "owner (sy_state x) (client_lba (sy_clients x i)) = Some a" "client_lba (sy_clients x i) \<in> claims (sy_clients x i)"
      using own(1) by simp_all
    then show ?thesis using own(2) held [of b j] one [of _ a] ap(1) by (metis disjoint_iff)
  qed
  show "\<forall>p \<in> client_buf (sy_clients x i). \<forall>q \<in> client_out (sy_clients x j).
      disjoint_ranges p (bsize (sy_state x)) q (bsize (sy_state x))"
    using sereneD(4) [OF ser] ij by (simp add: bufs_apart_def)
qed

section \<open>The same slot\<close>

text \<open>
  C16. A read that overlaps a write of the same block can return a block that was never
  written: on a cache that holds the block, the two clients reach their copies of its slot,
  and for every number of cache lines the accesses of the two copies can be ordered such that
  both complete and the reader has that many lines of the new contents followed by the old.
\<close>

theorem torn_read:
  assumes set: "race_setup E disk S link n s" and hit: "cached s lba = Some e" and lba: "lba < ss_max_lba S"
    and erms: "cpu_supports_erms E" and bufs: "user_buf_ok s p" "user_buf_ok s q" "write_ptr_ok q"
    and lines: "k \<le> bsize s div 64"
  shows "\<exists>u j l sch qs m'. (sys_step E S)\<^sup>*\<^sup>* (quiet_start s link)
      (two_clients u (Reading lba p (RHit (ce_pool_index e))) (Writing lba q (WUpdate (ce_pool_index e))) link) \<and>
    client_copy E (Reading lba p (RHit (ce_pool_index e))) u = Some j \<and>
    client_copy E (Writing lba q (WUpdate (ce_pool_index e))) u = Some l \<and>
    parallel copier_next sch (\<lambda>i. job_start (two_jobs j l i)) (cs_mem u) = (qs, m') \<and> qs 0 = Copied \<and> qs 1 = Copied \<and>
    load_bytes m' p (bsize s) = take (k * 64) (load_bytes (cs_mem s) q (bsize s)) @ drop (k * 64) (view disk s lba)"
proof -
  note d = race_setupD [OF set]
  let ?i = "ce_pool_index e" and ?w = "snd (env_now E (cs_world s))"
  let ?u = "s\<lparr>cs_table := snd (table_insert (cs_table s) lba (fst (entry_touch E e (cs_world s)))), cs_world := ?w\<rparr>"
  let ?j = "\<lparr>cj_routine = Movsb, cj_dst = p, cj_src = block_addr (cs_pool s) ?i, cj_len = bsize s\<rparr>"
  let ?l = "\<lparr>cj_routine = Stream, cj_dst = block_addr (cs_pool s) ?i, cj_src = q, cj_len = bsize s\<rparr>"
  have i: "?i < mp_capacity (cs_pool s)" "pool_shape (cs_pool s)"
    using cached_index [OF d(5) hit] struct_invD(2) [OF d(5)] by simp_all
  have touch: "leads E S (fl_chan link) 1 (Reading lba p RTouch, s) (Reading lba p (RHit ?i), ?u)"
    unfolding One_nat_def by (rule leads_step [where z = "(Reading lba p (RHit ?i), ?u)"])
      (simp_all add: client_next_def read_next_def get_and_touch_eq hit)
  have find: "leads E S (fl_chan link) 1 (Writing lba q WGet, ?u) (Writing lba q (WUpdate ?i), ?u)"
    unfolding One_nat_def by (rule leads_step [where z = "(Writing lba q (WUpdate ?i), ?u)"])
      (simp_all add: client_next_def write_next_def d)
  have "(sys_step E S)\<^sup>*\<^sup>* (quiet_start s link) (two_clients s (Reading lba p RTouch) (Writing lba q WGet) link)"
    by (rule two_calls) (simp_all add: d lba)
  note reach = two_second [OF two_first [OF this touch] find]
  have "job_ok ?l"
    using i bufs(2,3) buf_slot_disjoint [of s q ?i] block_addr_aligned [OF i(2), of ?i]
    by (auto simp: job_ok_def nt_pre_def write_ptr_ok_def disjoint_ranges_sym pool_shape_def mod_eq_0_iff_dvd elim: dvd_trans [rotated])
  then have l: "nt_pre (block_addr (cs_pool s) ?i) q (bsize s)" "disjoint_ranges (block_addr (cs_pool s) ?i) (bsize s) q (bsize s)"
    by (simp_all add: job_ok_def)
  obtain sch qs m' where torn: "parallel copier_next sch (\<lambda>i. job_start (two_jobs ?j ?l i)) (cs_mem s) = (qs, m')"
      "qs 0 = Copied" "qs 1 = Copied"
      "load_bytes m' p (bsize s) = load_bytes (cs_mem s) q (k * 64) @
         load_bytes (cs_mem s) (block_addr (cs_pool s) ?i + k * 64) (bsize s - k * 64)"
    by (rule torn_copy [OF l(1) lines l(2) buf_slot_disjoint [OF bufs(1) i(1)], where m = "cs_mem s"])
  have "k * 64 \<le> bsize s" using lines by (metis div_times_less_eq_dividend le_trans mult_le_mono1)
  then have "load_bytes m' p (bsize s) = take (k * 64) (load_bytes (cs_mem s) q (bsize s)) @ drop (k * 64) (view disk s lba)"
    using torn(4) hit by (simp add: view_def block_data_def min_def)
  moreover have "client_copy E (Reading lba p (RHit ?i)) ?u = Some ?j" "client_copy E (Writing lba q (WUpdate ?i)) ?u = Some ?l"
    using erms i by (simp_all add: get_block_eq)
  moreover have "cs_mem ?u = cs_mem s" by simp
  ultimately show ?thesis using reach torn(1-3) by metis
qed

section \<open>On concrete caches\<close>

text \<open>Two slots that hold blocks 3 and 4.\<close>

definition pair_cache :: "sim_world cache_state" where
  "pair_cache = race_cache\<lparr>
     cs_pool := sample_pool\<lparr>mp_backing := \<lparr>ab_ptr = 16777216, ab_size = 8192, ab_align = 4096\<rparr>, mp_capacity := 2\<rparr>,
     cs_table := \<lparr>lt_inner = [(3, race_entry True), (4, (race_entry True)\<lparr>ce_lba := 4, ce_pool_index := 1\<rparr>)]\<rparr>\<rparr>"

lemma pair_cache_simps [simp]:
  "bsize pair_cache = 4096" "mp_capacity (cs_pool pair_cache) = 2" "mp_free_list (cs_pool pair_cache) = []"
  "mp_block_size (cs_pool pair_cache) = 4096" "mp_base_ptr (cs_pool pair_cache) = 16777216"
  "owner pair_cache = [3 \<mapsto> 0, 4 \<mapsto> 1]"
  by (simp_all add: pair_cache_def sample_pool_def owner_def table_get_def race_entry_def fun_eq_iff)

lemma pair_cache_inv: "struct_inv pair_cache"
proof -
  have "pool_inv (cs_pool pair_cache)" by (simp add: pool_inv_def pool_shape_def pool_size_def)
  moreover have "table_inv (cs_table pair_cache)" by (simp add: table_inv_def pair_cache_def race_entry_def)
  ultimately show ?thesis unfolding struct_inv_owner by (simp add: pool_free_def lba_fits_def)
qed

lemma pair_cache_ready: "copy_ready pair_cache (Reading 3 131072 (RHit 0))" "copy_ready pair_cache (Writing 4 65536 (WUpdate 1))"
  using pair_cache_inv
  by (simp_all add: copy_ready_def lba_fits_def user_buf_ok_def pool_size_def disjoint_ranges_def write_ptr_ok_def)

lemma count_turns: "count_list (concat (replicate n [0, 1 :: nat])) 0 = n" "count_list (concat (replicate n [0, 1])) (1 :: nat) = n"
  by (induction n) simp_all

theorem copies_are_steps_witness:
  "\<exists>j k qs m'. client_copy reliable_env (Reading 3 131072 (RHit 0)) pair_cache = Some j \<and>
     client_copy reliable_env (Writing 4 65536 (WUpdate 1)) pair_cache = Some k \<and>
     parallel copier_next (concat (replicate 5000 [0, 1])) (\<lambda>i. job_start (two_jobs j k i)) (cs_mem pair_cache) = (qs, m') \<and>
     qs 0 = Copied \<and> qs 1 = Copied \<and>
     snd (client_next reliable_env sample_session 0 (Writing 4 65536 (WUpdate 1))
       (snd (client_next reliable_env sample_session 0 (Reading 3 131072 (RHit 0)) pair_cache))) = pair_cache\<lparr>cs_mem := m'\<rparr>"
proof -
  let ?c = "Reading 3 131072 (RHit 0)" and ?d = "Writing 4 65536 (WUpdate 1)" and ?sch = "concat (replicate 5000 [0, 1 :: nat])"
  obtain j where j: "client_copy reliable_env ?c pair_cache = Some j" "job_steps j \<le> 5000"
    by (simp add: cpu_supports_erms_def reliable_env_def sim_env_def job_steps_def)
  obtain k where k: "client_copy reliable_env ?d pair_cache = Some k" "job_steps k \<le> 5000"
    by (simp add: job_steps_def)
  obtain qs m' where run: "parallel copier_next ?sch (\<lambda>i. job_start (two_jobs j k i)) (cs_mem pair_cache) = (qs, m')" by fastforce
  have "copy_slot ?c pair_cache \<noteq> copy_slot ?d pair_cache" by simp
  moreover have "\<forall>p \<in> client_buf ?c. \<forall>q \<in> client_out ?d. disjoint_ranges p (bsize pair_cache) q (bsize pair_cache)"
    "\<forall>p \<in> client_buf ?d. \<forall>q \<in> client_out ?c. disjoint_ranges p (bsize pair_cache) q (bsize pair_cache)"
    by (simp_all add: disjoint_ranges_def)
  moreover have "job_steps j \<le> count_list ?sch 0" "job_steps k \<le> count_list ?sch 1"
    using j(2) k(2) unfolding count_turns by simp_all
  ultimately have "qs 0 = Copied \<and> qs 1 = Copied \<and>
      client_next reliable_env sample_session 0 ?d (snd (client_next reliable_env sample_session 0 ?c pair_cache)) =
        (fst (client_next reliable_env sample_session 0 ?d pair_cache), pair_cache\<lparr>cs_mem := m'\<rparr>)"
    using copies_are_steps [OF pair_cache_ready j(1) k(1) _ _ _ run] by blast
  then show ?thesis using j(1) k(1) run by (intro exI conjI) (assumption | simp)+
qed

theorem torn_read_witness:
  "\<exists>u j l sch qs m'. (sys_step reliable_env sample_session)\<^sup>*\<^sup>* (quiet_start race_cache sample_link)
      (two_clients u (Reading 3 131072 (RHit 0)) (Writing 3 65536 (WUpdate 0)) sample_link) \<and>
    parallel copier_next sch (\<lambda>i. job_start (two_jobs j l i)) (cs_mem u) = (qs, m') \<and> qs 0 = Copied \<and> qs 1 = Copied \<and>
    load_bytes m' 131072 4096 = replicate 64 5 @ replicate 4032 7"
proof -
  have e: "cpu_supports_erms reliable_env" by (simp add: cpu_supports_erms_def reliable_env_def sim_env_def)
  have v: "view sim_disk race_cache 3 = replicate 4096 7" by (simp add: view_def race_data)
  show ?thesis
    using torn_read [OF race_sample_setup(1) _ _ e race_sample_buf(2,1,4), of 3 "race_entry True" 1]
    by (simp add: race_data v) metis
qed

end
