(* ===== verification/Portable.thy ===== *)
theory Portable
  imports Asm_Copy
begin

text \<open>
  The bodies the crate compiles on targets other than x86_64 (\<open>#[cfg(not(target_arch =
  "x86_64"))]\<close> in \<open>src/src/asm\<close>): the copies are \<open>ptr::copy_nonoverlapping\<close>, prefetches are
  nothing and fences are the standard library's. They meet the contract of \<open>Asm_Copy\<close>, and
  the theorem says exactly when a program observes the same memory on both kinds of target.
\<close>

section \<open>The routines on other targets\<close>

definition nt_memcpy_other :: "nat \<Rightarrow> nat \<Rightarrow> nat \<Rightarrow> store \<Rightarrow> store option" where
  "nt_memcpy_other dst src len m = Some (copy_nonoverlapping src dst len m)"

definition erms_memcpy_other :: "nat \<Rightarrow> nat \<Rightarrow> nat \<Rightarrow> store \<Rightarrow> store" where
  "erms_memcpy_other dst src len m = copy_nonoverlapping src dst len m"

definition cpu_supports_erms_other :: bool where
  "cpu_supports_erms_other = False"

definition prefetch_read_other :: "nat \<Rightarrow> store \<Rightarrow> store" where
  "prefetch_read_other addr m = m"

definition prefetch_write_other :: "nat \<Rightarrow> store \<Rightarrow> store" where
  "prefetch_write_other addr m = m"

definition prefetch_nta_other :: "nat \<Rightarrow> store \<Rightarrow> store" where
  "prefetch_nta_other addr m = m"

definition store_fence_other :: "store \<Rightarrow> store" where
  "store_fence_other m = m"

definition full_fence_other :: "store \<Rightarrow> store" where
  "full_fence_other m = m"

section \<open>The facade on other targets\<close>

definition detect_strategy_other :: copy_strategy where
  "detect_strategy_other = Generic"

definition fast_copy_nontemporal_other :: "nat \<Rightarrow> nat \<Rightarrow> nat \<Rightarrow> store \<Rightarrow> store option" where
  "fast_copy_nontemporal_other dst src len m = nt_memcpy_other dst src len m"

definition fast_copy_temporal_other :: "nat \<Rightarrow> nat \<Rightarrow> nat \<Rightarrow> store \<Rightarrow> store" where
  "fast_copy_temporal_other dst src len m =
     (if cpu_supports_erms_other then erms_memcpy_other dst src len m else copy_nonoverlapping src dst len m)"

text \<open>The lines \<open>log_cpu_capabilities\<close> writes to the log, those of \<open>detect_strategy\<close> first.\<close>

definition detect_strategy_log :: "'w env \<Rightarrow> string list" where
  "detect_strategy_log E =
     [if cpu_supports_erms E then ''CPU supports Enhanced REP MOVSB (ERMS)''
      else ''CPU does not support ERMS; using MOVNTDQ for streaming'']"

definition log_cpu_capabilities :: "'w env \<Rightarrow> string list" where
  "log_cpu_capabilities E =
     detect_strategy_log E @
     [''Primary copy strategy: '' @ copy_strategy_display (detect_strategy E),
      ''SSE2: always available on x86_64'',
      ''ERMS: '' @ (if cpu_supports_erms E then ''supported'' else ''not supported'')]"

text \<open>On other targets the first line is a warning.\<close>

definition log_cpu_capabilities_other :: "string list" where
  "log_cpu_capabilities_other =
     [''Non-x86_64 target: using generic memcpy fallback'',
      ''Primary copy strategy: '' @ copy_strategy_display detect_strategy_other]"

section \<open>The contract\<close>

interpretation nt_other: copy_routine fast_copy_nontemporal_other "\<lambda>_ _ _. True"
  by unfold_locales
    (simp add: fast_copy_nontemporal_other_def nt_memcpy_other_def copy_nonoverlapping_def)

interpretation temporal_other: copy_routine "\<lambda>dst src n m. Some (fast_copy_temporal_other dst src n m)" "\<lambda>_ _ _. True"
  by unfold_locales
    (simp add: fast_copy_temporal_other_def erms_memcpy_other_def copy_nonoverlapping_def)

section \<open>The two kinds of target\<close>

lemma copy_split:
  assumes "disjoint_ranges dst n src n" "k \<le> n"
  shows "copy_nonoverlapping src dst n m =
    store_bytes (copy_nonoverlapping src dst k m) (dst + k) (load_bytes m (src + k) (n - k))"
  using load_append [of m src k "n - k"] store_append [of m dst "load_bytes m src k"] assms(2)
  by (simp add: copy_nonoverlapping_def)

lemma copy_prefix_eq:
  assumes d: "disjoint_ranges dst n src n" and k: "k \<le> n"
  shows "copy_nonoverlapping src dst k m = copy_nonoverlapping src dst n m \<longleftrightarrow>
    load_bytes m (dst + k) (n - k) = load_bytes m (src + k) (n - k)"
proof -
  have tail: "load_bytes (copy_nonoverlapping src dst k m) (dst + k) (n - k) = load_bytes m (dst + k) (n - k)"
    unfolding copy_nonoverlapping_def by (rule load_store_disjoint) (simp add: disjoint_ranges_def)
  show ?thesis
  proof
    assume "copy_nonoverlapping src dst k m = copy_nonoverlapping src dst n m"
    then show "load_bytes m (dst + k) (n - k) = load_bytes m (src + k) (n - k)"
      using tail copy_split [OF d k, of m] load_store_same [of "n - k" "load_bytes m (src + k) (n - k)"]
      by (metis length_load)
  next
    assume "load_bytes m (dst + k) (n - k) = load_bytes m (src + k) (n - k)"
    then show "copy_nonoverlapping src dst k m = copy_nonoverlapping src dst n m"
      using tail copy_split [OF d k, of m] store_load_id [of "copy_nonoverlapping src dst k m" "dst + k" "n - k"] by simp
  qed
qed

text \<open>
  C30. Where the targets agree. For disjoint ranges the temporal copy leaves the same memory on
  every target, whatever the CPU supports. The non-temporal copy leaves the same memory
  exactly if on x86_64 both pointers are 16-byte aligned or there is no whole cache line to
  copy, and the bytes after the last whole line were the same in both buffers already; in
  particular for every aligned transfer of whole lines, the only kind the engine makes.
\<close>

theorem targets_agree:
  assumes "disjoint_ranges dst len src len"
  shows "fast_copy_temporal E dst src len m = fast_copy_temporal_other dst src len m \<and>
    (fast_copy_nontemporal dst src len m = fast_copy_nontemporal_other dst src len m \<longleftrightarrow>
       (dst mod 16 = 0 \<and> src mod 16 = 0 \<or> len < 64) \<and>
       load_bytes m (dst + len div 64 * 64) (len mod 64) = load_bytes m (src + len div 64 * 64) (len mod 64))"
proof -
  have "len - len div 64 * 64 = len mod 64" using minus_div_mult_eq_mod [of len 64] by simp
  then have tail: "copy_nonoverlapping src dst (len div 64 * 64) m = copy_nonoverlapping src dst len m \<longleftrightarrow>
      load_bytes m (dst + len div 64 * 64) (len mod 64) = load_bytes m (src + len div 64 * 64) (len mod 64)"
    using copy_prefix_eq [OF assms, of "len div 64 * 64" m] by simp
  have "fast_copy_nontemporal dst src len m =
      (if dst mod 16 = 0 \<and> src mod 16 = 0 \<or> len < 64 then Some (copy_nonoverlapping src dst (len div 64 * 64) m) else None)"
    using nt_memcpy_cases [OF assms] by (simp add: fast_copy_nontemporal_def)
  then have "fast_copy_nontemporal dst src len m = fast_copy_nontemporal_other dst src len m \<longleftrightarrow>
      (dst mod 16 = 0 \<and> src mod 16 = 0 \<or> len < 64) \<and>
      copy_nonoverlapping src dst (len div 64 * 64) m = copy_nonoverlapping src dst len m"
    by (simp only: fast_copy_nontemporal_other_def nt_memcpy_other_def split: if_split) auto
  then show ?thesis
    using tail temporal.copies [OF TrueI assms, where ?E = E and m = m] temporal_other.copies [OF TrueI assms, where m = m]
    by simp
qed

theorem targets_agree_witness:
  "disjoint_ranges 4096 65 8192 65 \<and>
   fast_copy_nontemporal 4096 8192 64 (\<lambda>a. of_nat (a div 4096)) = fast_copy_nontemporal_other 4096 8192 64 (\<lambda>a. of_nat (a div 4096)) \<and>
   fast_copy_nontemporal 4096 8192 65 (\<lambda>a. of_nat (a div 4096)) \<noteq> fast_copy_nontemporal_other 4096 8192 65 (\<lambda>a. of_nat (a div 4096))"
proof -
  have d: "disjoint_ranges 4096 64 8192 64" "disjoint_ranges 4096 65 8192 65"
    by (simp_all add: disjoint_ranges_def)
  let ?m = "\<lambda>a. of_nat (a div 4096) :: u8"
  note agree = targets_agree [OF d(1), of sim_env ?m] targets_agree [OF d(2), of sim_env ?m]
  have t: "load_bytes ?m (4096 + 65 div 64 * 64) (65 mod 64) \<noteq> load_bytes ?m (8192 + 65 div 64 * 64) (65 mod 64)"
    by (simp add: load_bytes_def)
  have "fast_copy_nontemporal 4096 8192 64 ?m = fast_copy_nontemporal_other 4096 8192 64 ?m"
    using agree(1) by simp
  moreover have "fast_copy_nontemporal 4096 8192 65 ?m \<noteq> fast_copy_nontemporal_other 4096 8192 65 ?m"
    using agree(2) t by blast
  ultimately show ?thesis using d(2) by blast
qed

end
