(* ===== verification/Unit_Tests.thy ===== *)
theory Unit_Tests
  imports Portable Eviction Engine_Config
begin

text \<open>
  The unit tests of the crate (the \<open>#[cfg(test)]\<close> modules of \<open>src/src/asm\<close>, \<open>src/src/cache\<close>,
  \<open>src/src/engine/config.rs\<close> and \<open>src/src/memory\<close>), each as a definition that is true if the
  test passes: an assertion is a conjunct, and an \<open>unwrap\<close> of an error or of \<open>None\<close> is false.
  The tests exercise the model's operations, so that they hold, in every environment with an
  allocator that has memory and a clock that advances during a \<open>sleep\<close>, checks the model
  against what the authors expect of their code.
\<close>

section \<open>Copies\<close>

text \<open>The body the copy tests share: two buffers, a pattern in the first, the copy, the comparison.\<close>

definition copy_test ::
  "(nat \<Rightarrow> nat \<Rightarrow> nat \<Rightarrow> store \<Rightarrow> store option) \<Rightarrow> (nat \<Rightarrow> nat) \<Rightarrow> usize \<Rightarrow> 'w env \<Rightarrow> 'w \<Rightarrow> store \<Rightarrow> bool" where
  "copy_test copy pattern sz E w m =
     (case aligned_buffer_new E sz w m of
        (Inl e, _) \<Rightarrow> False
      | (Inr src_buf, w1, m1) \<Rightarrow>
          (case aligned_buffer_new E sz w1 m1 of
             (Inl e, _) \<Rightarrow> False
           | (Inr dst_buf, w2, m2) \<Rightarrow>
               (let m3 = enumerate_mut (\<lambda>i. of_nat (pattern i mod 256)) (aligned_buffer_as_mut src_buf) m2
                in case copy (aligned_buffer_as_mut_ptr dst_buf) (aligned_buffer_as_ptr src_buf) (unat sz) m3 of
                     None \<Rightarrow> False
                   | Some m4 \<Rightarrow> aligned_buffer_as_ref src_buf m4 = aligned_buffer_as_ref dst_buf m4)))"

definition erms_copy_matches_standard_copy :: "'w env \<Rightarrow> 'w \<Rightarrow> store \<Rightarrow> bool" where
  "erms_copy_matches_standard_copy =
     copy_test (\<lambda>dst src n m. Some (erms_memcpy dst src n m)) (\<lambda>i. i) 4096"

definition erms_copy_large_buffer :: "'w env \<Rightarrow> 'w \<Rightarrow> store \<Rightarrow> bool" where
  "erms_copy_large_buffer =
     copy_test (\<lambda>dst src n m. Some (erms_memcpy dst src n m)) (\<lambda>i. i * 13 + 7) (2 * 1024 * 1024)"

definition erms_detection_does_not_panic :: "'w env \<Rightarrow> bool" where
  "erms_detection_does_not_panic E = (let supports = cpu_supports_erms E in True)"

definition nt_copy_matches_standard_copy :: "'w env \<Rightarrow> 'w \<Rightarrow> store \<Rightarrow> bool" where
  "nt_copy_matches_standard_copy = copy_test nt_memcpy (\<lambda>i. i) 4096"

definition nt_copy_large_buffer :: "'w env \<Rightarrow> 'w \<Rightarrow> store \<Rightarrow> bool" where
  "nt_copy_large_buffer = copy_test nt_memcpy (\<lambda>i. i * 7 + 3) (1024 * 1024)"

section \<open>Aligned buffers\<close>

definition allocates_aligned_buffer :: "'w env \<Rightarrow> 'w \<Rightarrow> store \<Rightarrow> bool" where
  "allocates_aligned_buffer E w m =
     (case aligned_buffer_new E PAGE_ALIGNMENT w m of
        (Inl e, _) \<Rightarrow> False
      | (Inr buf, _) \<Rightarrow> aligned_buffer_len buf = PAGE_ALIGNMENT \<and>
          aligned_buffer_as_ptr buf mod unat PAGE_ALIGNMENT = 0)"

definition buffer_is_zero_initialised :: "'w env \<Rightarrow> 'w \<Rightarrow> store \<Rightarrow> bool" where
  "buffer_is_zero_initialised E w m =
     (case aligned_buffer_new E PAGE_ALIGNMENT w m of
        (Inl e, _) \<Rightarrow> False
      | (Inr buf, w', m') \<Rightarrow> list_all (\<lambda>b. b = 0) (aligned_buffer_as_ref buf m'))"

definition rejects_zero_size :: "'w env \<Rightarrow> 'w \<Rightarrow> store \<Rightarrow> bool" where
  "rejects_zero_size E w m \<longleftrightarrow> isl (fst (aligned_buffer_new E 0 w m))"

definition rejects_misaligned_size :: "'w env \<Rightarrow> 'w \<Rightarrow> store \<Rightarrow> bool" where
  "rejects_misaligned_size E w m \<longleftrightarrow> isl (fst (aligned_buffer_new E 1000 w m))"

definition large_allocation :: "'w env \<Rightarrow> 'w \<Rightarrow> store \<Rightarrow> bool" where
  "large_allocation E w m =
     (case aligned_buffer_new E (1024 * 1024) w m of
        (Inl e, _) \<Rightarrow> False
      | (Inr buf, _) \<Rightarrow> aligned_buffer_len buf = 1024 * 1024 \<and>
          aligned_buffer_as_ptr buf mod unat PAGE_ALIGNMENT = 0)"

section \<open>The pool\<close>

definition BLOCK_SIZE :: usize where "BLOCK_SIZE = 4096"
definition POOL_SIZE :: usize where "POOL_SIZE = BLOCK_SIZE * 16"

text \<open>\<open>allocate().unwrap()\<close>, \<open>n\<close> times.\<close>

primrec allocate_unwraps :: "nat \<Rightarrow> memory_pool \<Rightarrow> ((usize \<times> block_buffer) list \<times> memory_pool) option" where
  "allocate_unwraps 0 P = Some ([], P)"
| "allocate_unwraps (Suc n) P =
     (case pool_allocate P of
        (Inl e, _) \<Rightarrow> None
      | (Inr ib, P') \<Rightarrow> map_option (\<lambda>(ibs, Q). (ib # ibs, Q)) (allocate_unwraps n P'))"

definition basic_allocate_and_deallocate :: "'w env \<Rightarrow> 'w \<Rightarrow> store \<Rightarrow> bool" where
  "basic_allocate_and_deallocate E w m =
     (case pool_new E POOL_SIZE BLOCK_SIZE w m of
        (Inl e, _) \<Rightarrow> False
      | (Inr pool, _) \<Rightarrow> pool_capacity pool = 16 \<and> free_count pool = 16 \<and>
          (case pool_allocate pool of
             (Inl e, _) \<Rightarrow> False
           | (Inr (idx, buf), pool') \<Rightarrow> free_count pool' = 15 \<and> free_count (pool_deallocate pool' idx) = 16))"

definition exhaust_pool :: "'w env \<Rightarrow> 'w \<Rightarrow> store \<Rightarrow> bool" where
  "exhaust_pool E w m =
     (case pool_new E POOL_SIZE BLOCK_SIZE w m of
        (Inl e, _) \<Rightarrow> False
      | (Inr pool, _) \<Rightarrow>
          (case allocate_unwraps 16 pool of
             None \<Rightarrow> False
           | Some (ibs, pool') \<Rightarrow>
               isl (fst (pool_allocate pool')) \<and>
               (let indices = map fst ibs
                in indices \<noteq> [] \<and> \<not> isl (fst (pool_allocate (pool_deallocate pool' (last indices)))))))"

definition block_buffers_are_page_aligned :: "'w env \<Rightarrow> 'w \<Rightarrow> store \<Rightarrow> bool" where
  "block_buffers_are_page_aligned E w m =
     (case pool_new E POOL_SIZE BLOCK_SIZE w m of
        (Inl e, _) \<Rightarrow> False
      | (Inr pool, _) \<Rightarrow>
          (case allocate_unwraps 16 pool of
             None \<Rightarrow> False
           | Some (ibs, pool') \<Rightarrow> list_all (\<lambda>(_, buf). block_buffer_as_ptr buf mod unat PAGE_ALIGNMENT = 0) ibs))"

definition rejects_bad_parameters :: "'w env \<Rightarrow> 'w \<Rightarrow> store \<Rightarrow> bool" where
  "rejects_bad_parameters E w m \<longleftrightarrow>
     isl (fst (pool_new E 0 BLOCK_SIZE w m)) \<and> isl (fst (pool_new E POOL_SIZE 0 w m)) \<and>
     isl (fst (pool_new E POOL_SIZE 1000 w m)) \<and> isl (fst (pool_new E 5000 BLOCK_SIZE w m))"

section \<open>The table\<close>

definition insert_and_lookup :: "'w env \<Rightarrow> 'w \<Rightarrow> bool" where
  "insert_and_lookup E w =
     (let table = table_new 16;
          (entry, w1) = entry_new E 42 7 w;
          (old, table) = table_insert table 42 entry
      in old = None \<and> table_contains table 42 \<and> \<not> table_contains table 99 \<and>
         (case table_get table 42 of None \<Rightarrow> False | Some got \<Rightarrow> ce_lba got = 42 \<and> ce_pool_index got = 7))"

definition dirty_tracking :: "'w env \<Rightarrow> 'w \<Rightarrow> bool" where
  "dirty_tracking E w =
     (let (entry, w1) = entry_new E 10 0 w;
          table = snd (table_insert (table_new 16) 10 entry);
          (dirtied, w2) = table_mark_dirty E table 10 w1;
          dirty = dirty_entries E dirtied
      in dirty_entries E table = [] \<and> length dirty = 1 \<and> dirty ! 0 = (10, 0) \<and>
         dirty_entries E (table_mark_clean dirtied 10) = [])"

definition remove_entry :: "'w env \<Rightarrow> 'w \<Rightarrow> bool" where
  "remove_entry E w =
     (let (entry, w1) = entry_new E 5 3 w;
          table = snd (table_insert (table_new 16) 5 entry);
          (gone, table) = table_remove table 5;
          (again, table) = table_remove table 5
      in gone \<noteq> None \<and> again = None \<and> \<not> table_contains table 5)"

definition get_and_touch_increments_access :: "'w env \<Rightarrow> 'w \<Rightarrow> bool" where
  "get_and_touch_increments_access E w =
     (let (entry, w1) = entry_new E 1 0 w;
          table = snd (table_insert (table_new 16) 1 entry);
          (pool_idx, table, w2) = get_and_touch E table 1 w1
      in pool_idx = Some 0 \<and>
         (case table_get table 1 of None \<Rightarrow> False | Some entry \<Rightarrow> ce_access_count entry = 2))"

section \<open>Eviction\<close>

text \<open>\<open>sleep\<close> is the standard library's, in milliseconds.\<close>

definition evicts_oldest_clean_first :: "'w env \<Rightarrow> (nat \<Rightarrow> 'w \<Rightarrow> 'w) \<Rightarrow> 'w \<Rightarrow> bool" where
  "evicts_oldest_clean_first E sleep w =
     (let table = table_new 4;
          (e1, w) = entry_new E 1 10 w;
          table = snd (table_insert table 1 e1);
          w = sleep 5 w;
          (e2, w) = entry_new E 2 20 w;
          table = snd (table_insert table 2 e2);
          w = sleep 5 w;
          (e3, w) = entry_new E 3 30 w;
          table = snd (table_insert table 3 e3);
          (table, w) = table_mark_dirty E table 1 w
      in case select_eviction_candidate E table of
           None \<Rightarrow> False
         | Some candidate \<Rightarrow> ec_lba candidate = 2 \<and> \<not> ec_needs_flush candidate)"

definition evicts_oldest_dirty_when_all_dirty :: "'w env \<Rightarrow> (nat \<Rightarrow> 'w \<Rightarrow> 'w) \<Rightarrow> 'w \<Rightarrow> bool" where
  "evicts_oldest_dirty_when_all_dirty E sleep w =
     (let table = table_new 4;
          (e1, w) = entry_new E 1 10 w;
          table = snd (table_insert table 1 e1);
          w = sleep 5 w;
          (e2, w) = entry_new E 2 20 w;
          table = snd (table_insert table 2 e2);
          (table, w) = table_mark_dirty E table 1 w;
          (table, w) = table_mark_dirty E table 2 w
      in case select_eviction_candidate E table of
           None \<Rightarrow> False
         | Some candidate \<Rightarrow> ec_lba candidate = 1 \<and> ec_needs_flush candidate)"

definition empty_table_returns_none :: "'w env \<Rightarrow> bool" where
  "empty_table_returns_none E \<longleftrightarrow> select_eviction_candidate E (table_new 4) = None"

section \<open>The configuration\<close>

definition valid_config :: bool where
  "valid_config = (let cfg = config_new ''/dev/sda'' in \<not> isl (validate cfg) \<and> block_count cfg = 65536)"

definition rejects_zero_cache_size :: bool where
  "rejects_zero_cache_size = (let cfg = (config_new ''/dev/sda'')\<lparr>cfg_cache_size_mb := 0\<rparr> in isl (validate cfg))"

definition rejects_bad_block_size :: bool where
  "rejects_bad_block_size = (let cfg = (config_new ''/dev/sda'')\<lparr>cfg_block_size := 1000\<rparr> in isl (validate cfg))"

definition rejects_bad_watermark :: bool where
  "rejects_bad_watermark =
     (let cfg = (config_new ''/dev/sda'')\<lparr>cfg_dirty_watermark := Fin (3 / 2)\<rparr> in isl (validate cfg))"

section \<open>The machine the tests run on\<close>

text \<open>
  The allocator: \<open>live w\<close> holds the ranges in use; a new allocation is disjoint from all of
  them and joins them. \<open>alloc_serves\<close>: there is memory.
\<close>

definition heap_ok :: "'w env \<Rightarrow> ('w \<Rightarrow> (nat \<times> nat) set) \<Rightarrow> bool" where
  "heap_ok E live \<longleftrightarrow>
     (\<forall>n a w p w'. env_alloc_zeroed E n a w = (p, w') \<longrightarrow> p \<noteq> 0 \<longrightarrow>
        (\<forall>(q, k) \<in> live w. disjoint_ranges p (unat n) q k) \<and> insert (p, unat n) (live w) \<subseteq> live w')"

definition alloc_serves :: "'w env \<Rightarrow> bool" where
  "alloc_serves E \<longleftrightarrow> (\<forall>n w. fst (env_alloc_zeroed E n PAGE_ALIGNMENT w) \<noteq> 0)"

definition sleep_ok :: "('w \<Rightarrow> nat) \<Rightarrow> (nat \<Rightarrow> 'w \<Rightarrow> 'w) \<Rightarrow> bool" where
  "sleep_ok clk sleep \<longleftrightarrow> (\<forall>ms w. 0 < ms \<longrightarrow> clk w < clk (sleep ms w))"

text \<open>A clock no two readings of which are the same, which \<open>Instant\<close> does not promise.\<close>

definition clock_strict :: "'w env \<Rightarrow> ('w \<Rightarrow> nat) \<Rightarrow> bool" where
  "clock_strict E clk \<longleftrightarrow> (\<forall>w. clk w < fst (env_now E w))"

definition test_machine ::
  "'w env \<Rightarrow> ('w \<Rightarrow> (nat \<times> nat) set) \<Rightarrow> ('w \<Rightarrow> nat) \<Rightarrow> (nat \<Rightarrow> 'w \<Rightarrow> 'w) \<Rightarrow> bool" where
  "test_machine E live clk sleep \<longleftrightarrow>
     hash_ok E \<and> alloc_ok E \<and> heap_ok E live \<and> alloc_serves E \<and> clock_ok E clk \<and> sleep_ok clk sleep"

lemma test_machineD:
  assumes "test_machine E live clk sleep"
  shows "hash_ok E" "alloc_ok E" "heap_ok E live" "alloc_serves E" "clock_ok E clk" "sleep_ok clk sleep"
  using assms by (simp_all add: test_machine_def)

section \<open>Buffers and copies\<close>

lemma buffer_new_served:
  assumes "alloc_serves E" "sz \<noteq> 0" "4096 dvd unat sz" "unat sz \<le> 2 ^ 63 - 4096"
  obtains b w' m' where "aligned_buffer_new E sz w m = (Inr b, w', m')"
proof -
  obtain p w' where p: "env_alloc_zeroed E sz PAGE_ALIGNMENT w = (p, w')" by fastforce
  then have "p \<noteq> 0" using assms(1) unfolding alloc_serves_def by (metis fst_conv)
  then have "aligned_buffer_new E sz w m =
      (Inr \<lparr>ab_ptr = p, ab_size = sz, ab_align = PAGE_ALIGNMENT\<rparr>, w', fill_bytes m p (unat sz) 0)"
    using assms p by (simp add: aligned_buffer_new_def is_multiple_of_dvd layout_valid_def)
  then show thesis by (rule that)
qed

lemma buffer_new_aligned:
  assumes "alloc_ok E" "aligned_buffer_new E sz w m = (Inr b, w', m')"
  shows "4096 dvd ab_ptr b" "aligned_buffer_as_ref b m' = replicate (unat sz) 0"
proof -
  note b = aligned_buffer_new_Inr [OF assms(2)]
  show "4096 dvd ab_ptr b"
    using assms(1) b(6) unfolding alloc_ok_def by (metis fst_conv unat_PAGE_ALIGNMENT)
  show "aligned_buffer_as_ref b m' = replicate (unat sz) 0"
    using b(1,7) by (simp add: aligned_buffer_as_ref_def load_fill_same)
qed

text \<open>Two live buffers share no byte.\<close>

lemma two_buffers_disjoint:
  assumes "heap_ok E live" "aligned_buffer_new E sz w m = (Inr b, w1, m1)"
    "aligned_buffer_new E sz w1 m1 = (Inr c, w2, m2)"
  shows "disjoint_ranges (ab_ptr c) (unat sz) (ab_ptr b) (unat sz)"
proof -
  note b = aligned_buffer_new_Inr [OF assms(2)] and c = aligned_buffer_new_Inr [OF assms(3)]
  have "(ab_ptr b, unat sz) \<in> live w1"
    using assms(1) b(2,6) unfolding heap_ok_def by blast
  then show ?thesis using assms(1) c(2,6) unfolding heap_ok_def by blast
qed

lemma copy_test_passes:
  assumes mach: "test_machine E live clk sleep"
    and sz: "sz \<noteq> 0" "4096 dvd unat sz" "unat sz \<le> 2 ^ 63 - 4096"
    and copy: "\<And>dst src m. 4096 dvd dst \<Longrightarrow> 4096 dvd src \<Longrightarrow> disjoint_ranges dst (unat sz) src (unat sz) \<Longrightarrow>
      copy dst src (unat sz) m = Some (store_bytes m dst (load_bytes m src (unat sz)))"
  shows "copy_test copy pattern sz E w m"
proof -
  note a = test_machineD [OF mach]
  obtain b w1 m1 where b: "aligned_buffer_new E sz w m = (Inr b, w1, m1)"
    using a(4) sz by (rule buffer_new_served)
  obtain c w2 m2 where c: "aligned_buffer_new E sz w1 m1 = (Inr c, w2, m2)"
    using a(4) sz by (rule buffer_new_served)
  have len: "ab_size b = sz" "ab_size c = sz"
    using aligned_buffer_new_Inr(1) [OF b] aligned_buffer_new_Inr(1) [OF c] by simp_all
  note dis = two_buffers_disjoint [OF a(3) b c]
  note cp = copy [OF buffer_new_aligned(1) [OF a(2) c] buffer_new_aligned(1) [OF a(2) b] dis]
  show ?thesis
    using dis by (simp add: copy_test_def b c cp len aligned_buffer_as_ptr_def aligned_buffer_as_mut_ptr_def
        aligned_buffer_as_ref_def load_store_same load_store_disjoint disjoint_ranges_sym)
qed

lemma erms_memcpy_store:
  "disjoint_ranges dst n src n \<Longrightarrow> erms_memcpy dst src n m = store_bytes m dst (load_bytes m src n)"
  by (simp add: erms_memcpy_def rep_movsb_store)

lemma nt_memcpy_page:
  assumes "4096 dvd dst" "4096 dvd src" "disjoint_ranges dst n src n" "64 dvd n"
  shows "nt_memcpy dst src n m = Some (store_bytes m dst (load_bytes m src n))"
proof -
  have "(16 :: nat) dvd 4096" by simp
  then have "16 dvd dst" "16 dvd src" using assms(1,2) dvd_trans by blast+
  then show ?thesis using nt_memcpy_store [of dst src n m] assms(3,4) by (simp add: mod_eq_0_iff_dvd)
qed

lemma copy_tests:
  assumes "test_machine E live clk sleep"
  shows "erms_copy_matches_standard_copy E w m" "erms_copy_large_buffer E w m"
    "nt_copy_matches_standard_copy E w m" "nt_copy_large_buffer E w m"
proof -
  note erms = copy_test_passes [OF assms, where copy = "\<lambda>dst src n m. Some (erms_memcpy dst src n m)"]
  show "erms_copy_matches_standard_copy E w m" "erms_copy_large_buffer E w m"
    unfolding erms_copy_matches_standard_copy_def erms_copy_large_buffer_def
    by (rule erms; simp add: erms_memcpy_store)+
  show "nt_copy_matches_standard_copy E w m" "nt_copy_large_buffer E w m"
    unfolding nt_copy_matches_standard_copy_def nt_copy_large_buffer_def
    by (rule copy_test_passes [OF assms]; simp add: nt_memcpy_page)+
qed

lemma buffer_tests:
  assumes "test_machine E live clk sleep"
  shows "allocates_aligned_buffer E w m" "buffer_is_zero_initialised E w m" "rejects_zero_size E w m"
    "rejects_misaligned_size E w m" "large_allocation E w m"
proof -
  note a = test_machineD [OF assms]
  have sz: "PAGE_ALIGNMENT \<noteq> 0" "4096 dvd unat PAGE_ALIGNMENT" "unat PAGE_ALIGNMENT \<le> 2 ^ 63 - 4096"
    "1024 * 1024 \<noteq> (0 :: usize)" "4096 dvd unat (1024 * 1024 :: usize)" "unat (1024 * 1024 :: usize) \<le> 2 ^ 63 - 4096"
    by (simp_all add: PAGE_ALIGNMENT_def)
  obtain b w' m' where b: "aligned_buffer_new E PAGE_ALIGNMENT w m = (Inr b, w', m')"
    using a(4) sz(1-3) by (rule buffer_new_served)
  show "allocates_aligned_buffer E w m" "buffer_is_zero_initialised E w m"
    using buffer_new_aligned [OF a(2) b] aligned_buffer_new_Inr(1) [OF b]
    by (simp_all add: allocates_aligned_buffer_def buffer_is_zero_initialised_def b aligned_buffer_len_def
        aligned_buffer_as_ptr_def mod_eq_0_iff_dvd list_all_iff)
  obtain c w' m' where c: "aligned_buffer_new E (1024 * 1024) w m = (Inr c, w', m')"
    using a(4) sz(4-6) by (rule buffer_new_served)
  show "large_allocation E w m"
    using buffer_new_aligned [OF a(2) c] aligned_buffer_new_Inr(1) [OF c] c
    by (simp add: large_allocation_def aligned_buffer_len_def aligned_buffer_as_ptr_def mod_eq_0_iff_dvd)
  show "rejects_zero_size E w m" "rejects_misaligned_size E w m"
    by (simp_all add: rejects_zero_size_def rejects_misaligned_size_def aligned_buffer_new_def is_multiple_of_dvd)
qed

section \<open>The pool\<close>

lemma allocate_unwraps_Some:
  "n \<le> length (mp_free_list P) \<Longrightarrow>
   \<exists>ibs. allocate_unwraps n P = Some (ibs, P\<lparr>mp_free_list := take (length (mp_free_list P) - n) (mp_free_list P)\<rparr>) \<and>
     length ibs = n \<and> (\<forall>(i, b) \<in> set ibs. i \<in> set (mp_free_list P) \<and> b = buffer_for_index P i)"
proof (induction n arbitrary: P)
  case 0
  then show ?case by simp
next
  case (Suc n)
  let ?fl = "mp_free_list P"
  let ?P = "P\<lparr>mp_free_list := butlast ?fl\<rparr>"
  have ne: "?fl \<noteq> []" using Suc.prems by auto
  obtain ibs where ibs: "allocate_unwraps n ?P = Some (ibs, ?P\<lparr>mp_free_list := take (length (butlast ?fl) - n) (butlast ?fl)\<rparr>)"
      "length ibs = n" "\<forall>(i, b) \<in> set ibs. i \<in> set (butlast ?fl) \<and> b = buffer_for_index ?P i"
    using Suc.IH [of ?P] Suc.prems by fastforce
  have "take (length (butlast ?fl) - n) (butlast ?fl) = take (length ?fl - Suc n) ?fl"
    by (simp add: butlast_conv_take)
  moreover have "buffer_for_index ?P = buffer_for_index P" by (simp add: buffer_for_index_def fun_eq_iff)
  ultimately show ?case
    using ibs ne by (auto simp: pool_allocate_def Let_def dest: in_set_butlastD)
qed

lemma test_pool:
  assumes "test_machine E live clk sleep"
  obtains P w' m' where "pool_new E POOL_SIZE BLOCK_SIZE w m = (Inr P, w', m')" "pool_shape P"
    "mp_capacity P = 16" "length (mp_free_list P) = 16" "set (mp_free_list P) = {i. i < 16}"
proof -
  note a = test_machineD [OF assms]
  have sz: "POOL_SIZE \<noteq> 0" "4096 dvd unat POOL_SIZE" "unat POOL_SIZE \<le> 2 ^ 63 - 4096"
    by (simp_all add: POOL_SIZE_def BLOCK_SIZE_def)
  obtain b w' m' where "aligned_buffer_new E POOL_SIZE w m = (Inr b, w', m')"
    using a(4) sz by (rule buffer_new_served)
  then obtain P where P: "pool_new E POOL_SIZE BLOCK_SIZE w m = (Inr P, w', m')"
    by (simp add: pool_new_def POOL_SIZE_def BLOCK_SIZE_def is_multiple_of_dvd)
  note f = pool_new_Inr [OF P] and inv = pool_new_inv [OF a(2) P]
  have "mp_capacity P = 16" by (simp add: f POOL_SIZE_def BLOCK_SIZE_def)
  moreover from this have "set (mp_free_list P) = {i. i < 16}"
    using inv(3) by (simp add: pool_free_def pool_slots_def)
  moreover have "length (mp_free_list P) = 16" by (simp add: f POOL_SIZE_def BLOCK_SIZE_def)
  ultimately show thesis using P inv(1) by (intro that) (simp_all add: pool_inv_def)
qed

lemma pool_tests:
  assumes "test_machine E live clk sleep"
  shows "basic_allocate_and_deallocate E w m" "exhaust_pool E w m" "block_buffers_are_page_aligned E w m"
    "rejects_bad_parameters E w m"
proof -
  obtain P w' m' where P: "pool_new E POOL_SIZE BLOCK_SIZE w m = (Inr P, w', m')" "pool_shape P"
      "mp_capacity P = 16" "length (mp_free_list P) = 16" "set (mp_free_list P) = {i. i < 16}"
    using assms by (rule test_pool)
  have ne: "mp_free_list P \<noteq> []" using P(4) by auto
  show "basic_allocate_and_deallocate E w m"
    using P(3,4) ne by (simp add: basic_allocate_and_deallocate_def P(1) pool_capacity_def free_count_def
        pool_allocate_def pool_deallocate_def Let_def)
  obtain ibs where ibs: "allocate_unwraps 16 P = Some (ibs, P\<lparr>mp_free_list := []\<rparr>)" "length ibs = 16"
      "\<forall>(i, b) \<in> set ibs. i \<in> set (mp_free_list P) \<and> b = buffer_for_index P i"
    using allocate_unwraps_Some [of 16 P] P(4) by auto
  have "ibs \<noteq> []" using ibs(2) by auto
  then show "exhaust_pool E w m"
    by (simp add: exhaust_pool_def P(1) ibs(1) pool_allocate_def pool_deallocate_def Let_def)
  have "block_buffer_as_ptr b mod unat PAGE_ALIGNMENT = 0" if "(i, b) \<in> set ibs" for i b
  proof -
    have "i < mp_capacity P" "b = buffer_for_index P i" using ibs(3) that P(3,5) by auto
    then show ?thesis
      using block_addr_aligned [OF P(2), of i]
      by (simp add: buffer_for_index_eq [OF P(2)] block_buffer_as_ptr_def mod_eq_0_iff_dvd)
  qed
  then show "block_buffers_are_page_aligned E w m"
    by (auto simp: block_buffers_are_page_aligned_def P(1) ibs(1) list_all_iff)
  show "rejects_bad_parameters E w m"
    by (simp add: rejects_bad_parameters_def pool_new_def POOL_SIZE_def BLOCK_SIZE_def is_multiple_of_dvd)
qed

section \<open>Table, eviction and configuration\<close>

lemma get_new [simp]: "table_get (table_new n) = Map.empty"
  by (simp add: table_new_def table_get_def fun_eq_iff)

lemma inv_new [simp]: "table_inv (table_new n)"
  by (simp add: table_inv_def table_new_def)

lemma inv_insert: "table_inv t \<Longrightarrow> ce_lba e = k \<Longrightarrow> table_inv (snd (table_insert t k e))"
  by (rule lt.inv_put)

lemma single_dirty:
  assumes "hash_ok E" "table_inv t" "table_get t = [k \<mapsto> e]"
  shows "dirty_entries E t = (if ce_dirty e then [(k, ce_pool_index e)] else [])"
proof -
  have "set (dirty_entries E t) = (if ce_dirty e then {(k, ce_pool_index e)} else {})"
    unfolding dirty_entries_set [OF assms(1,2)] by (auto simp: assms(3) split: if_splits)
  moreover have "distinct (dirty_entries E t)" using dirty_entries_distinct [OF assms(1,2)] by (simp add: distinct_map)
  ultimately show ?thesis
    by (cases "dirty_entries E t"; cases "tl (dirty_entries E t)") (auto split: if_splits)
qed

lemma table_tests:
  assumes "hash_ok E"
  shows "insert_and_lookup E w" "dirty_tracking E w" "remove_entry E w" "get_and_touch_increments_access E w"
proof -
  show "insert_and_lookup E w" "remove_entry E w"
    by (simp_all add: insert_and_lookup_def remove_entry_def case_prod_unfold Let_def table_contains_get)
      (simp_all add: table_insert_def table_remove_def table_new_def)
  have "ce_access_count (fst (entry_touch E (fst (entry_new E 1 0 w)) w1)) = 2" for w1
    by (simp add: entry_touch_def entry_new_def saturating_inc_def split: prod.splits)
  then show "get_and_touch_increments_access E w"
    by (simp add: get_and_touch_increments_access_def case_prod_unfold Let_def get_and_touch_eq)
  let ?e = "fst (entry_new E 10 0 w)"
  let ?t = "snd (table_insert (table_new 16) 10 ?e)"
  have t: "dirty_entries E ?t = []" by (simp add: single_dirty [OF assms, of _ 10 ?e] inv_insert)
  have d: "dirty_entries E (snd (table_insert ?t 10 f)) = (if ce_dirty f then [(10, ce_pool_index f)] else [])"
    if "ce_lba f = 10" for f
    using that by (intro single_dirty [OF assms]) (simp_all add: inv_insert)
  have c: "dirty_entries E (snd (table_insert (snd (table_insert ?t 10 f)) 10 (entry_mark_clean f))) = []"
    if "ce_lba f = 10" for f
    using that by (subst single_dirty [OF assms, of _ 10 "entry_mark_clean f"]) (simp_all add: inv_insert)
  show "dirty_tracking E w"
    using t d c by (simp add: dirty_tracking_def case_prod_unfold Let_def table_mark_dirty_eq table_mark_clean_eq)
qed

text \<open>Time passes between the entries of the eviction tests.\<close>

lemma now_after:
  assumes "clock_ok E clk" "sleep_ok clk sleep"
  shows "fst (env_now E w) < fst (env_now E (sleep 5 (snd (env_now E w))))"
proof -
  have "clk (snd (env_now E w)) = fst (env_now E w)" "clk v \<le> fst (env_now E v)" for v
    using assms(1) unfolding clock_ok_def by (metis prod.collapse)+
  moreover have "clk (snd (env_now E w)) < clk (sleep 5 (snd (env_now E w)))"
    using assms(2) unfolding sleep_ok_def by simp
  ultimately show ?thesis by (metis order.strict_trans2)
qed

lemma unique_victim:
  assumes "hash_ok E" "is_victim (ran (table_get t)) v" "\<And>e. is_victim (ran (table_get t)) e \<Longrightarrow> e = v"
  shows "select_eviction_candidate E t = Some \<lparr>ec_lba = ce_lba v, ec_pool_index = ce_pool_index v, ec_needs_flush = ce_dirty v\<rparr>"
proof (cases "select_eviction_candidate E t")
  case None
  then show ?thesis using select_None_iff [OF assms(1), of t] assms(2) by (simp add: is_victim_def)
next
  case (Some c)
  from select_Some [OF assms(1) this] obtain e where e: "is_victim (ran (table_get t)) e"
    "c = \<lparr>ec_lba = ce_lba e, ec_pool_index = ce_pool_index e, ec_needs_flush = ce_dirty e\<rparr>" .
  then show ?thesis using assms(3) Some by auto
qed

lemma select_clean:
  assumes "hash_ok E" "table_get t = [1 \<mapsto> a, 2 \<mapsto> b, 3 \<mapsto> c]"
    and "ce_dirty a" "\<not> ce_dirty b" "\<not> ce_dirty c" "ce_last_access b < ce_last_access c"
  shows "select_eviction_candidate E t = Some \<lparr>ec_lba = ce_lba b, ec_pool_index = ce_pool_index b, ec_needs_flush = False\<rparr>"
proof -
  have ran: "ran (table_get t) = {c, b, a}" by (simp add: assms(2) ran_map_upd)
  have "is_victim {c, b, a} e \<longleftrightarrow> e = b" for e using assms(3-6) by (auto simp: is_victim_def)
  then show ?thesis
    using unique_victim [OF assms(1), of t b, unfolded ran] assms(4) by simp
qed

lemma select_dirty:
  assumes "hash_ok E" "table_get t = [1 \<mapsto> a, 2 \<mapsto> b]"
    and "ce_dirty a" "ce_dirty b" "ce_last_access a < ce_last_access b"
  shows "select_eviction_candidate E t = Some \<lparr>ec_lba = ce_lba a, ec_pool_index = ce_pool_index a, ec_needs_flush = True\<rparr>"
proof -
  have ran: "ran (table_get t) = {b, a}" by (simp add: assms(2) ran_map_upd)
  have "is_victim {b, a} e \<longleftrightarrow> e = a" for e using assms(3-5) by (auto simp: is_victim_def)
  then show ?thesis
    using unique_victim [OF assms(1), of t a, unfolded ran] assms(3) by simp
qed

lemma clean_eviction_test:
  assumes "hash_ok E" "clock_ok E clk" "sleep_ok clk sleep"
  shows "evicts_oldest_clean_first E sleep w"
proof -
  let ?w2 = "sleep 5 (snd (env_now E w))"
  let ?w3 = "sleep 5 (snd (env_now E ?w2))"
  define a b c where "a = fst (entry_mark_dirty E (fst (entry_new E 1 10 w)) (snd (env_now E ?w3)))"
    and "b = fst (entry_new E 2 20 ?w2)" and "c = fst (entry_new E 3 30 ?w3)"
  note abc = a_def [symmetric] b_def [symmetric] c_def [symmetric]
  have f: "ce_dirty a" "\<not> ce_dirty b" "\<not> ce_dirty c" "ce_last_access b < ce_last_access c" "ce_lba b = 2"
    using now_after [OF assms(2,3), of ?w2] by (simp_all add: a_def b_def c_def)
  have "select_eviction_candidate E t = Some \<lparr>ec_lba = 2, ec_pool_index = ce_pool_index b, ec_needs_flush = False\<rparr>"
    if "table_get t = [1 \<mapsto> a, 2 \<mapsto> b, 3 \<mapsto> c]" for t
    using select_clean [OF assms(1) that f(1-4)] f(5) by simp
  then show ?thesis
    by (simp add: evicts_oldest_clean_first_def case_prod_unfold Let_def table_mark_dirty_eq abc fun_upd_twist)
qed

text \<open>The marks of the second test touch the entries again, so its \<open>sleep\<close> does not order them.\<close>

lemma dirty_eviction_test:
  assumes "hash_ok E" "clock_ok E clk" "clock_strict E clk"
  shows "evicts_oldest_dirty_when_all_dirty E sleep w"
proof -
  let ?w3 = "snd (env_now E (sleep 5 (snd (env_now E w))))"
  define a b where "a = fst (entry_mark_dirty E (fst (entry_new E 1 10 w)) ?w3)"
    and "b = fst (entry_mark_dirty E (fst (entry_new E 2 20 (sleep 5 (snd (env_now E w))))) (snd (env_now E ?w3)))"
  note ab = a_def [symmetric] b_def [symmetric]
  have "clk (snd (env_now E ?w3)) = fst (env_now E ?w3)" using assms(2) unfolding clock_ok_def by (metis prod.collapse)
  then have f: "ce_dirty a" "ce_dirty b" "ce_last_access a < ce_last_access b" "ce_lba a = 1"
    using assms(3) unfolding clock_strict_def
    by (simp_all add: a_def b_def entry_mark_dirty_def) metis
  have "select_eviction_candidate E t = Some \<lparr>ec_lba = 1, ec_pool_index = ce_pool_index a, ec_needs_flush = True\<rparr>"
    if "table_get t = [1 \<mapsto> a, 2 \<mapsto> b]" for t
    using select_dirty [OF assms(1) that f(1-3)] f(4) by simp
  then show ?thesis
    by (simp add: evicts_oldest_dirty_when_all_dirty_def case_prod_unfold Let_def table_mark_dirty_eq ab fun_upd_twist)
qed

lemma config_tests: "valid_config" "rejects_zero_cache_size" "rejects_bad_block_size" "rejects_bad_watermark"
  by (simp_all add: valid_config_def rejects_zero_cache_size_def rejects_bad_block_size_def rejects_bad_watermark_def
      validate_def config_new_def cache_size_bytes_def block_count_def is_multiple_of_dvd PAGE_ALIGNMENT_def
      DEFAULT_CACHE_SIZE_MB_def DEFAULT_BLOCK_SIZE_def DEFAULT_FLUSH_INTERVAL_SECS_def DEFAULT_DIRTY_WATERMARK_def)

section \<open>Every test passes\<close>

text \<open>A concrete machine for the tests: allocations one after the other, a clock that ticks.\<close>

definition test_env :: "sim_world env" where
  "test_env = sim_env\<lparr>env_alloc_zeroed := (\<lambda>n a w. let p = (sim_brk w div unat a + 1) * unat a
     in (p, w\<lparr>sim_brk := p + unat n\<rparr>))\<rparr>"

definition test_live :: "sim_world \<Rightarrow> (nat \<times> nat) set" where
  "test_live w = {(q, k). q + k \<le> sim_brk w}"

definition test_sleep :: "nat \<Rightarrow> sim_world \<Rightarrow> sim_world" where
  "test_sleep ms w = w\<lparr>sim_clock := sim_clock w + ms\<rparr>"

lemma test_env_machine: "test_machine test_env test_live sim_clock test_sleep"
proof -
  have above: "w < (w div a + 1) * a" if "0 < a" for w a :: nat
    using dividend_less_div_times [OF that, of w] by (simp add: distrib_right)
  have "heap_ok test_env test_live"
    unfolding heap_ok_def
  proof (intro allI impI)
    fix n a w p w' assume p: "env_alloc_zeroed test_env n a w = (p, w')" "p \<noteq> 0"
    then have e: "p = (sim_brk w div unat a + 1) * unat a" "sim_brk w' = p + unat n"
      by (auto simp: test_env_def Let_def)
    with p(2) have "sim_brk w < p" using above [of "unat a" "sim_brk w"] by (cases "unat a = 0") simp_all
    with e(2) show "(\<forall>(q, k) \<in> test_live w. disjoint_ranges p (unat n) q k) \<and> insert (p, unat n) (test_live w) \<subseteq> test_live w'"
      by (auto simp: test_live_def disjoint_ranges_def)
  qed
  moreover have "alloc_serves test_env" by (simp add: alloc_serves_def test_env_def Let_def)
  moreover have "alloc_ok test_env" by (simp add: alloc_ok_def test_env_def Let_def)
  moreover have "hash_ok test_env" "clock_ok test_env sim_clock"
    using sim_hash_ok sim_clock_ok by (simp_all add: test_env_def hash_ok_def clock_ok_def)
  ultimately show ?thesis by (simp add: test_machine_def sleep_ok_def test_sleep_def)
qed

text \<open>
  C34. The unit tests of the crate pass, from any state of the machine they run on and for any
  order in which the hash map is visited: all of them whenever memory can be had and the
  clock advances during a \<open>sleep\<close>, except that \<open>evicts_oldest_dirty_when_all_dirty\<close> needs a
  clock that also advances between two readings.
\<close>

theorem unit_tests_pass:
  assumes "test_machine E live clk sleep"
  shows "erms_copy_matches_standard_copy E w m \<and> erms_copy_large_buffer E w m \<and> erms_detection_does_not_panic E \<and>
    nt_copy_matches_standard_copy E w m \<and> nt_copy_large_buffer E w m \<and>
    allocates_aligned_buffer E w m \<and> buffer_is_zero_initialised E w m \<and> rejects_zero_size E w m \<and>
    rejects_misaligned_size E w m \<and> large_allocation E w m \<and>
    basic_allocate_and_deallocate E w m \<and> exhaust_pool E w m \<and> block_buffers_are_page_aligned E w m \<and>
    rejects_bad_parameters E w m \<and>
    insert_and_lookup E w \<and> dirty_tracking E w \<and> remove_entry E w \<and> get_and_touch_increments_access E w \<and>
    evicts_oldest_clean_first E sleep w \<and> empty_table_returns_none E \<and>
    (clock_strict E clk \<longrightarrow> evicts_oldest_dirty_when_all_dirty E sleep w) \<and>
    valid_config \<and> rejects_zero_cache_size \<and> rejects_bad_block_size \<and> rejects_bad_watermark"
proof -
  note a = test_machineD [OF assms]
  have "erms_detection_does_not_panic E" "empty_table_returns_none E"
    using select_None_iff [OF a(1), of "table_new 4"]
    by (simp_all add: erms_detection_does_not_panic_def empty_table_returns_none_def)
  then show ?thesis
    using copy_tests [OF assms, of w m] buffer_tests [OF assms, of w m] pool_tests [OF assms, of w m]
      table_tests [OF a(1), of w] clean_eviction_test [OF a(1,5,6)] dirty_eviction_test [OF a(1,5)] config_tests
    by blast
qed

theorem unit_tests_pass_witness:
  "nt_copy_large_buffer test_env sim_init (\<lambda>_. 0) \<and> exhaust_pool test_env sim_init (\<lambda>_. 0) \<and>
   evicts_oldest_dirty_when_all_dirty test_env test_sleep sim_init"
proof -
  have "clock_strict test_env sim_clock" by (simp add: clock_strict_def test_env_def sim_env_def)
  then show ?thesis using unit_tests_pass [OF test_env_machine, of sim_init "\<lambda>_. 0"] by blast
qed

text \<open>
  The exception is real: on a machine whose clock stands still between two readings, which
  \<open>Instant\<close> allows, and whose hash map visits block 2 first, the test fails.
\<close>

definition coarse_env :: "sim_world env" where
  "coarse_env = test_env\<lparr>env_now := (\<lambda>w. (sim_clock w, w)), env_hash_order := rev\<rparr>"

lemma dirty_eviction_test_flaky:
  "test_machine coarse_env test_live sim_clock test_sleep"
  "\<not> evicts_oldest_dirty_when_all_dirty coarse_env test_sleep sim_init"
proof -
  show "test_machine coarse_env test_live sim_clock test_sleep"
    using test_env_machine
    by (simp add: test_machine_def coarse_env_def hash_ok_def alloc_ok_def heap_ok_def alloc_serves_def clock_ok_def)
  show "\<not> evicts_oldest_dirty_when_all_dirty coarse_env test_sleep sim_init"
    by (simp add: evicts_oldest_dirty_when_all_dirty_def coarse_env_def test_env_def test_sleep_def sim_init_def sim_env_def
        entry_new_def table_new_def table_insert_def table_mark_dirty_def entry_mark_dirty_def entry_touch_def
        select_eviction_candidate_def entries_by_lru_def table_values_def find_oldest_clean_def entry_is_dirty_def)
qed

end
