(* ===== verification/Bench.thy ===== *)
theory Bench
  imports Engine
begin

text \<open>
  The benchmark loops (\<open>src/src/bench/sequential.rs\<close>, \<open>src/src/bench/random.rs\<close>): direct runs
  against a descriptor, cached runs through the engine, and the numbers computed from a run.
  A duration is a count of nanoseconds and an \<open>f64\<close> a rational rounded to 53 bits, as in the
  watermark test. The generator of the \<open>rand\<close> crate is a parameter \<open>gen\<close>: \<open>gen seed max i\<close> is
  the \<open>i\<close>-th number it draws below \<open>max\<close>. While a cached run is going on the flush thread runs
  too: before its \<open>i\<close>-th operation it makes \<open>ticks i\<close> iterations, for any function \<open>ticks\<close>.
\<close>

section \<open>Numbers of a run\<close>

text \<open>\<open>Duration::as_secs_f64\<close> and \<open>as_micros\<close>.\<close>

definition as_secs_f64 :: "nat \<Rightarrow> rat" where
  "as_secs_f64 d = round53 (round53 (of_nat (d div 10 ^ 9)) + round53 (of_nat (d mod 10 ^ 9) / 10 ^ 9))"

definition as_micros :: "nat \<Rightarrow> nat" where
  "as_micros d = d div 1000"

record sequential_result =
  sq_operation :: string
  sq_cached :: bool
  sq_block_count :: usize
  sq_block_size :: usize
  sq_elapsed :: nat
  sq_cache_hits :: u64
  sq_cache_misses :: u64

definition sq_total_bytes :: "sequential_result \<Rightarrow> usize" where
  "sq_total_bytes r = sq_block_count r * sq_block_size r"

definition sq_throughput_mbps :: "sequential_result \<Rightarrow> rat" where
  "sq_throughput_mbps r =
     (let bytes = usize_as_f64 (sq_total_bytes r); secs = as_secs_f64 (sq_elapsed r)
      in if secs = 0 then 0 else round53 (round53 (bytes / (1024 * 1024)) / secs))"

definition sq_iops :: "sequential_result \<Rightarrow> rat" where
  "sq_iops r =
     (let secs = as_secs_f64 (sq_elapsed r)
      in if secs = 0 then 0 else round53 (usize_as_f64 (sq_block_count r) / secs))"

definition sq_avg_latency_us :: "sequential_result \<Rightarrow> rat" where
  "sq_avg_latency_us r =
     (if sq_block_count r = 0 then 0
      else round53 (round53 (of_nat (as_micros (sq_elapsed r))) / usize_as_f64 (sq_block_count r)))"

record random_result =
  rn_operation :: string
  rn_cached :: bool
  rn_op_count :: usize
  rn_block_size :: usize
  rn_lba_range :: u64
  rn_elapsed :: nat
  rn_cache_hits :: u64
  rn_cache_misses :: u64

definition rn_total_bytes :: "random_result \<Rightarrow> usize" where
  "rn_total_bytes r = rn_op_count r * rn_block_size r"

definition rn_throughput_mbps :: "random_result \<Rightarrow> rat" where
  "rn_throughput_mbps r =
     (let bytes = usize_as_f64 (rn_total_bytes r); secs = as_secs_f64 (rn_elapsed r)
      in if secs = 0 then 0 else round53 (round53 (bytes / (1024 * 1024)) / secs))"

definition rn_iops :: "random_result \<Rightarrow> rat" where
  "rn_iops r =
     (let secs = as_secs_f64 (rn_elapsed r)
      in if secs = 0 then 0 else round53 (usize_as_f64 (rn_op_count r) / secs))"

definition rn_avg_latency_us :: "random_result \<Rightarrow> rat" where
  "rn_avg_latency_us r =
     (if rn_op_count r = 0 then 0
      else round53 (round53 (of_nat (as_micros (rn_elapsed r))) / usize_as_f64 (rn_op_count r)))"

section \<open>Block addresses\<close>

text \<open>\<open>0..block_count as u64\<close>.\<close>

definition lba_range :: "usize \<Rightarrow> u64 list" where
  "lba_range blocks = map of_nat [0..<unat blocks]"

text \<open>\<open>gen_range\<close> panics on the empty range; with no draws it is never called.\<close>

definition generate_random_lbas :: "(u64 \<Rightarrow> u64 \<Rightarrow> nat \<Rightarrow> u64) \<Rightarrow> usize \<Rightarrow> u64 \<Rightarrow> u64 \<Rightarrow> u64 list option" where
  "generate_random_lbas gen op_count limit seed =
     (if 0 < op_count \<and> limit = 0 then None else Some (map (gen seed limit) [0..<unat op_count]))"

definition BENCH_SEED :: u64 where
  "BENCH_SEED = 0xDEADBEEFCAFEF00D"

definition rand_ok :: "(u64 \<Rightarrow> u64 \<Rightarrow> nat \<Rightarrow> u64) \<Rightarrow> bool" where
  "rand_ok gen \<longleftrightarrow> (\<forall>seed max i. 0 < max \<longrightarrow> gen seed max i < max)"

section \<open>Loops\<close>

primrec read_direct_loop ::
  "'w env \<Rightarrow> i32 \<Rightarrow> usize \<Rightarrow> aligned_buffer \<Rightarrow> u64 list \<Rightarrow> 'w \<Rightarrow> store \<Rightarrow> unit cache_result \<times> 'w \<times> store" where
  "read_direct_loop E fd block_size buf [] w m = (Inr (), w, m)"
| "read_direct_loop E fd block_size buf (lba # lbas) w m =
     (case read_lba E fd lba block_size (ab_ptr buf) (unat (ab_size buf)) w m of
        (Inl e, w', m') \<Rightarrow> (Inl e, w', m')
      | (Inr _, w', m') \<Rightarrow> read_direct_loop E fd block_size buf lbas w' m')"

primrec write_direct_loop ::
  "'w env \<Rightarrow> i32 \<Rightarrow> usize \<Rightarrow> u8 list \<Rightarrow> u64 list \<Rightarrow> 'w \<Rightarrow> unit cache_result \<times> 'w" where
  "write_direct_loop E fd block_size data [] w = (Inr (), w)"
| "write_direct_loop E fd block_size data (lba # lbas) w =
     (case write_lba E fd lba block_size data w of
        (Inl e, w') \<Rightarrow> (Inl e, w')
      | (Inr _, w') \<Rightarrow> write_direct_loop E fd block_size data lbas w')"

primrec read_cached_loop ::
  "'w env \<Rightarrow> (nat \<Rightarrow> nat) \<Rightarrow> nat \<Rightarrow> nat \<Rightarrow> u64 list \<Rightarrow> u64 \<Rightarrow> u64 \<Rightarrow> 'w engine \<Rightarrow>
   (u64 \<times> u64) cache_result \<times> 'w engine" where
  "read_cached_loop E ticks ptr i [] hits misses eg = (Inr (hits, misses), eg)"
| "read_cached_loop E ticks ptr i (lba # lbas) hits misses eg =
     (case engine_read E lba ptr ((engine_background E ^^ ticks i) eg) of
        (Inl e, eg') \<Rightarrow> (Inl e, eg')
      | (Inr result, eg') \<Rightarrow>
          (if rr_cache_hit result
           then read_cached_loop E ticks ptr (Suc i) lbas (hits + 1) misses eg'
           else read_cached_loop E ticks ptr (Suc i) lbas hits (misses + 1) eg'))"

primrec write_cached_loop ::
  "'w env \<Rightarrow> (nat \<Rightarrow> nat) \<Rightarrow> nat \<Rightarrow> nat \<Rightarrow> u64 list \<Rightarrow> u64 \<Rightarrow> u64 \<Rightarrow> 'w engine \<Rightarrow>
   ((u64 \<times> u64) cache_result \<times> 'w engine) option" where
  "write_cached_loop E ticks ptr i [] updates inserts eg = Some (Inr (updates, inserts), eg)"
| "write_cached_loop E ticks ptr i (lba # lbas) updates inserts eg =
     (case engine_write E lba ptr ((engine_background E ^^ ticks i) eg) of
        None \<Rightarrow> None
      | Some (Inl e, eg') \<Rightarrow> Some (Inl e, eg')
      | Some (Inr result, eg') \<Rightarrow>
          (if wr_was_update result
           then write_cached_loop E ticks ptr (Suc i) lbas (updates + 1) inserts eg'
           else write_cached_loop E ticks ptr (Suc i) lbas updates (inserts + 1) eg'))"

text \<open>The pattern the write benchmarks put in their buffer.\<close>

definition bench_pattern :: "nat \<Rightarrow> u8 list" where
  "bench_pattern n = map (\<lambda>i. of_nat (i mod 256)) [0..<n]"

definition fill_pattern :: "aligned_buffer \<Rightarrow> store \<Rightarrow> store" where
  "fill_pattern buf m = store_bytes m (ab_ptr buf) (bench_pattern (unat (ab_size buf)))"


section \<open>The benchmarks\<close>

definition bench_sequential_read_direct ::
  "'w env \<Rightarrow> i32 \<Rightarrow> usize \<Rightarrow> usize \<Rightarrow> 'w \<Rightarrow> store \<Rightarrow> sequential_result cache_result \<times> 'w \<times> store" where
  "bench_sequential_read_direct E fd block_size blocks w m =
     (case aligned_buffer_new E block_size w m of
        (Inl e, w1, m1) \<Rightarrow> (Inl e, w1, m1)
      | (Inr buf, w1, m1) \<Rightarrow>
          (case env_now E w1 of (start, w2) \<Rightarrow>
           case read_direct_loop E fd block_size buf (lba_range blocks) w2 m1 of
             (Inl e, w3, m3) \<Rightarrow> (Inl e, w3, m3)
           | (Inr _, w3, m3) \<Rightarrow>
               (case env_now E w3 of (now, w4) \<Rightarrow>
                  (Inr \<lparr>sq_operation = ''Sequential Read'', sq_cached = False, sq_block_count = blocks,
                     sq_block_size = block_size, sq_elapsed = now - start, sq_cache_hits = 0,
                     sq_cache_misses = blocks\<rparr>, w4, m3))))"

definition bench_sequential_write_direct ::
  "'w env \<Rightarrow> i32 \<Rightarrow> usize \<Rightarrow> usize \<Rightarrow> 'w \<Rightarrow> store \<Rightarrow> sequential_result cache_result \<times> 'w \<times> store" where
  "bench_sequential_write_direct E fd block_size blocks w m =
     (case aligned_buffer_new E block_size w m of
        (Inl e, w1, m1) \<Rightarrow> (Inl e, w1, m1)
      | (Inr buf, w1, m1) \<Rightarrow>
          (let m2 = fill_pattern buf m1
           in case env_now E w1 of (start, w2) \<Rightarrow>
              case write_direct_loop E fd block_size (aligned_buffer_as_ref buf m2) (lba_range blocks) w2 of
                (Inl e, w3) \<Rightarrow> (Inl e, w3, m2)
              | (Inr _, w3) \<Rightarrow>
                  (case env_now E w3 of (now, w4) \<Rightarrow>
                     (Inr \<lparr>sq_operation = ''Sequential Write'', sq_cached = False, sq_block_count = blocks,
                        sq_block_size = block_size, sq_elapsed = now - start, sq_cache_hits = 0,
                        sq_cache_misses = 0\<rparr>, w4, m2))))"

text \<open>\<open>CacheEngine::block_size\<close>, and the engine after a change of the world and of memory.\<close>

definition engine_block_size :: "'w engine \<Rightarrow> usize" where
  "engine_block_size eg = cfg_block_size (eg_config eg)"

definition put_world :: "'w \<Rightarrow> store \<Rightarrow> 'w engine \<Rightarrow> 'w engine" where
  "put_world w m eg = eg\<lparr>eg_state := (eg_state eg)\<lparr>cs_world := w, cs_mem := m\<rparr>\<rparr>"

definition engine_now :: "'w env \<Rightarrow> 'w engine \<Rightarrow> nat \<times> 'w engine" where
  "engine_now E eg =
     (case env_now E (cs_world (eg_state eg)) of (t, w) \<Rightarrow> (t, put_world w (cs_mem (eg_state eg)) eg))"

text \<open>The buffer of a cached run, and the run over a list of blocks with its clock readings.\<close>

definition bench_buffer :: "'w env \<Rightarrow> 'w engine \<Rightarrow> aligned_buffer cache_result \<times> 'w engine" where
  "bench_buffer E eg =
     (case aligned_buffer_new E (engine_block_size eg) (cs_world (eg_state eg)) (cs_mem (eg_state eg)) of
        (r, w, m) \<Rightarrow> (r, put_world w m eg))"

definition timed_reads ::
  "'w env \<Rightarrow> (nat \<Rightarrow> nat) \<Rightarrow> nat \<Rightarrow> u64 list \<Rightarrow> 'w engine \<Rightarrow> (u64 \<times> u64 \<times> nat) cache_result \<times> 'w engine" where
  "timed_reads E ticks ptr lbas eg =
     (case engine_now E eg of (start, eg1) \<Rightarrow>
      case read_cached_loop E ticks ptr 0 lbas 0 0 eg1 of
        (Inl e, eg2) \<Rightarrow> (Inl e, eg2)
      | (Inr (hits, misses), eg2) \<Rightarrow>
          (case engine_now E eg2 of (now, eg3) \<Rightarrow> (Inr (hits, misses, now - start), eg3)))"

definition timed_writes ::
  "'w env \<Rightarrow> (nat \<Rightarrow> nat) \<Rightarrow> nat \<Rightarrow> u64 list \<Rightarrow> 'w engine \<Rightarrow>
   ((u64 \<times> u64 \<times> nat) cache_result \<times> 'w engine) option" where
  "timed_writes E ticks ptr lbas eg =
     (case engine_now E eg of (start, eg1) \<Rightarrow>
      case write_cached_loop E ticks ptr 0 lbas 0 0 eg1 of
        None \<Rightarrow> None
      | Some (Inl e, eg2) \<Rightarrow> Some (Inl e, eg2)
      | Some (Inr (updates, inserts), eg2) \<Rightarrow>
          (case engine_now E eg2 of (now, eg3) \<Rightarrow> Some (Inr (updates, inserts, now - start), eg3)))"

definition bench_sequential_read_cached ::
  "'w env \<Rightarrow> (nat \<Rightarrow> nat) \<Rightarrow> usize \<Rightarrow> 'w engine \<Rightarrow> sequential_result cache_result \<times> 'w engine" where
  "bench_sequential_read_cached E ticks blocks eg =
     (case bench_buffer E eg of
        (Inl e, eg1) \<Rightarrow> (Inl e, eg1)
      | (Inr buf, eg1) \<Rightarrow>
          (case timed_reads E ticks (ab_ptr buf) (lba_range blocks) eg1 of
             (Inl e, eg2) \<Rightarrow> (Inl e, eg2)
           | (Inr (hits, misses, elapsed), eg2) \<Rightarrow>
               (Inr \<lparr>sq_operation = ''Sequential Read'', sq_cached = True, sq_block_count = blocks,
                  sq_block_size = engine_block_size eg, sq_elapsed = elapsed, sq_cache_hits = hits,
                  sq_cache_misses = misses\<rparr>, eg2)))"

definition bench_sequential_write_cached ::
  "'w env \<Rightarrow> (nat \<Rightarrow> nat) \<Rightarrow> usize \<Rightarrow> 'w engine \<Rightarrow> (sequential_result cache_result \<times> 'w engine) option" where
  "bench_sequential_write_cached E ticks blocks eg =
     (case bench_buffer E eg of
        (Inl e, eg1) \<Rightarrow> Some (Inl e, eg1)
      | (Inr buf, eg1) \<Rightarrow>
          (case timed_writes E ticks (ab_ptr buf) (lba_range blocks)
                  (put_world (cs_world (eg_state eg1)) (fill_pattern buf (cs_mem (eg_state eg1))) eg1) of
             None \<Rightarrow> None
           | Some (Inl e, eg2) \<Rightarrow> Some (Inl e, eg2)
           | Some (Inr (updates, inserts, elapsed), eg2) \<Rightarrow>
               Some (Inr \<lparr>sq_operation = ''Sequential Write'', sq_cached = True, sq_block_count = blocks,
                  sq_block_size = engine_block_size eg, sq_elapsed = elapsed, sq_cache_hits = updates,
                  sq_cache_misses = inserts\<rparr>, eg2)))"

definition bench_random_read_direct ::
  "'w env \<Rightarrow> (u64 \<Rightarrow> u64 \<Rightarrow> nat \<Rightarrow> u64) \<Rightarrow> i32 \<Rightarrow> usize \<Rightarrow> usize \<Rightarrow> u64 \<Rightarrow> 'w \<Rightarrow> store \<Rightarrow>
   (random_result cache_result \<times> 'w \<times> store) option" where
  "bench_random_read_direct E gen fd block_size op_count limit w m =
     (case generate_random_lbas gen op_count limit BENCH_SEED of
        None \<Rightarrow> None
      | Some lbas \<Rightarrow>
          (case aligned_buffer_new E block_size w m of
             (Inl e, w1, m1) \<Rightarrow> Some (Inl e, w1, m1)
           | (Inr buf, w1, m1) \<Rightarrow>
               (case env_now E w1 of (start, w2) \<Rightarrow>
                case read_direct_loop E fd block_size buf lbas w2 m1 of
                  (Inl e, w3, m3) \<Rightarrow> Some (Inl e, w3, m3)
                | (Inr _, w3, m3) \<Rightarrow>
                    (case env_now E w3 of (now, w4) \<Rightarrow>
                       Some (Inr \<lparr>rn_operation = ''Random Read'', rn_cached = False, rn_op_count = op_count,
                         rn_block_size = block_size, rn_lba_range = limit, rn_elapsed = now - start,
                         rn_cache_hits = 0, rn_cache_misses = op_count\<rparr>, w4, m3)))))"

definition bench_random_write_direct ::
  "'w env \<Rightarrow> (u64 \<Rightarrow> u64 \<Rightarrow> nat \<Rightarrow> u64) \<Rightarrow> i32 \<Rightarrow> usize \<Rightarrow> usize \<Rightarrow> u64 \<Rightarrow> 'w \<Rightarrow> store \<Rightarrow>
   (random_result cache_result \<times> 'w \<times> store) option" where
  "bench_random_write_direct E gen fd block_size op_count limit w m =
     (case generate_random_lbas gen op_count limit BENCH_SEED of
        None \<Rightarrow> None
      | Some lbas \<Rightarrow>
          (case aligned_buffer_new E block_size w m of
             (Inl e, w1, m1) \<Rightarrow> Some (Inl e, w1, m1)
           | (Inr buf, w1, m1) \<Rightarrow>
               (let m2 = fill_pattern buf m1
                in case env_now E w1 of (start, w2) \<Rightarrow>
                   case write_direct_loop E fd block_size (aligned_buffer_as_ref buf m2) lbas w2 of
                     (Inl e, w3) \<Rightarrow> Some (Inl e, w3, m2)
                   | (Inr _, w3) \<Rightarrow>
                       (case env_now E w3 of (now, w4) \<Rightarrow>
                          Some (Inr \<lparr>rn_operation = ''Random Write'', rn_cached = False, rn_op_count = op_count,
                            rn_block_size = block_size, rn_lba_range = limit, rn_elapsed = now - start,
                            rn_cache_hits = 0, rn_cache_misses = 0\<rparr>, w4, m2)))))"

definition bench_random_read_cached ::
  "'w env \<Rightarrow> (u64 \<Rightarrow> u64 \<Rightarrow> nat \<Rightarrow> u64) \<Rightarrow> (nat \<Rightarrow> nat) \<Rightarrow> usize \<Rightarrow> u64 \<Rightarrow> 'w engine \<Rightarrow>
   (random_result cache_result \<times> 'w engine) option" where
  "bench_random_read_cached E gen ticks op_count limit eg =
     (case generate_random_lbas gen op_count limit BENCH_SEED of
        None \<Rightarrow> None
      | Some lbas \<Rightarrow>
          (case bench_buffer E eg of
             (Inl e, eg1) \<Rightarrow> Some (Inl e, eg1)
           | (Inr buf, eg1) \<Rightarrow>
               (case timed_reads E ticks (ab_ptr buf) lbas eg1 of
                  (Inl e, eg2) \<Rightarrow> Some (Inl e, eg2)
                | (Inr (hits, misses, elapsed), eg2) \<Rightarrow>
                    Some (Inr \<lparr>rn_operation = ''Random Read'', rn_cached = True, rn_op_count = op_count,
                      rn_block_size = engine_block_size eg, rn_lba_range = limit, rn_elapsed = elapsed,
                      rn_cache_hits = hits, rn_cache_misses = misses\<rparr>, eg2))))"

definition bench_random_write_cached ::
  "'w env \<Rightarrow> (u64 \<Rightarrow> u64 \<Rightarrow> nat \<Rightarrow> u64) \<Rightarrow> (nat \<Rightarrow> nat) \<Rightarrow> usize \<Rightarrow> u64 \<Rightarrow> 'w engine \<Rightarrow>
   (random_result cache_result \<times> 'w engine) option" where
  "bench_random_write_cached E gen ticks op_count limit eg =
     (case generate_random_lbas gen op_count limit BENCH_SEED of
        None \<Rightarrow> None
      | Some lbas \<Rightarrow>
          (case bench_buffer E eg of
             (Inl e, eg1) \<Rightarrow> Some (Inl e, eg1)
           | (Inr buf, eg1) \<Rightarrow>
               (case timed_writes E ticks (ab_ptr buf) lbas
                       (put_world (cs_world (eg_state eg1)) (fill_pattern buf (cs_mem (eg_state eg1))) eg1) of
                  None \<Rightarrow> None
                | Some (Inl e, eg2) \<Rightarrow> Some (Inl e, eg2)
                | Some (Inr (updates, inserts, elapsed), eg2) \<Rightarrow>
                    Some (Inr \<lparr>rn_operation = ''Random Write'', rn_cached = True, rn_op_count = op_count,
                      rn_block_size = engine_block_size eg, rn_lba_range = limit, rn_elapsed = elapsed,
                      rn_cache_hits = updates, rn_cache_misses = inserts\<rparr>, eg2))))"

section \<open>The flush thread between the operations\<close>

definition engine_dom :: "'w engine \<Rightarrow> u64 set" where
  "engine_dom eg = dom (cached (eg_state eg))"

lemma background_dom:
  assumes inv: "engine_inv E disk eg"
  shows "engine_dom (engine_background E eg) = engine_dom eg"
proof (cases "\<exists>B th. eg_flusher eg = Some B \<and> bf_handle B = Some th")
  case False
  then show ?thesis by (auto simp: engine_background_def split: option.splits)
next
  case True
  then obtain B th where th: "eg_flusher eg = Some B" "bf_handle B = Some th" by blast
  then have ft: "ft_fd th = bd_fd (eg_device eg)" "ft_block_size th = mp_block_size (cs_pool (eg_state eg))"
    using inv by (simp_all add: engine_inv_def)
  obtain halt s' where it: "flush_iteration E (bd_fd (eg_device eg)) (mp_block_size (cs_pool (eg_state eg)))
      (ft_schedule th) (bf_notifier B) (eg_state eg) = (halt, s')" by fastforce
  have env: "env_ok E disk (bd_fd (eg_device eg))" "cache_inv disk (eg_state eg)"
    using inv by (simp_all add: engine_inv_def)
  have "engine_background E eg = eg\<lparr>eg_state := s'\<rparr>" using th ft it by (simp add: engine_background_def)
  then show ?thesis
    using flushed_to_dom [OF flush_iteration_post(3) [OF env it]] by (auto simp: engine_dom_def dom_def)
qed

lemma background_run:
  assumes inv: "engine_inv E disk eg"
  shows "engine_inv E disk ((engine_background E ^^ k) eg)"
    "engine_view disk ((engine_background E ^^ k) eg) = engine_view disk eg"
    "same_setup eg ((engine_background E ^^ k) eg)"
    "cs_mem (eg_state ((engine_background E ^^ k) eg)) = cs_mem (eg_state eg)"
    "engine_dom ((engine_background E ^^ k) eg) = engine_dom eg"
    "unaccounted n (eg_state ((engine_background E ^^ k) eg)) = unaccounted n (eg_state eg)"
proof -
  have "engine_inv E disk ((engine_background E ^^ k) eg) \<and>
    engine_view disk ((engine_background E ^^ k) eg) = engine_view disk eg \<and>
    same_setup eg ((engine_background E ^^ k) eg) \<and>
    cs_mem (eg_state ((engine_background E ^^ k) eg)) = cs_mem (eg_state eg) \<and>
    engine_dom ((engine_background E ^^ k) eg) = engine_dom eg \<and>
    unaccounted n (eg_state ((engine_background E ^^ k) eg)) = unaccounted n (eg_state eg)"
  proof (induction k)
    case (Suc k)
    then have i: "engine_inv E disk ((engine_background E ^^ k) eg)" by blast
    show ?case
      using Suc engine_background_post [OF i] background_dom [OF i] same_setup_trans by auto
  qed (simp add: inv)
  then show "engine_inv E disk ((engine_background E ^^ k) eg)"
    "engine_view disk ((engine_background E ^^ k) eg) = engine_view disk eg"
    "same_setup eg ((engine_background E ^^ k) eg)"
    "cs_mem (eg_state ((engine_background E ^^ k) eg)) = cs_mem (eg_state eg)"
    "engine_dom ((engine_background E ^^ k) eg) = engine_dom eg"
    "unaccounted n (eg_state ((engine_background E ^^ k) eg)) = unaccounted n (eg_state eg)"
    by blast+
qed

lemma same_setup_buf: "same_setup eg eg' \<Longrightarrow> user_buf_ok (eg_state eg') = user_buf_ok (eg_state eg)"
  using same_geometryD(6) unfolding same_setup_def by blast

lemma same_setup_sizes:
  "same_setup eg eg' \<Longrightarrow> bsize (eg_state eg') = bsize (eg_state eg)"
  "same_setup eg eg' \<Longrightarrow> mp_capacity (cs_pool (eg_state eg')) = mp_capacity (cs_pool (eg_state eg))"
  using same_geometryD(1,2) unfolding same_setup_def by (metis)+

section \<open>Runs of reads\<close>

lemma engine_dom_contains: "table_contains (cs_table (eg_state eg)) lba \<longleftrightarrow> lba \<in> engine_dom eg"
  by (simp add: table_contains_get engine_dom_def domIff)

lemma notifier_table: "flush_notifier_or_noop E eg = (c, eg') \<Longrightarrow> cs_table (eg_state eg') = cs_table (eg_state eg)"
  by (auto simp: flush_notifier_or_noop_def split: option.splits prod.splits)

lemma engine_read_hit_dom:
  assumes run: "engine_read E lba ptr eg = (Inr v, eg')" and hit: "lba \<in> engine_dom eg"
  shows "engine_dom eg' = engine_dom eg"
proof -
  obtain c eg1 where n: "flush_notifier_or_noop E eg = (c, eg1)" by fastforce
  obtain e where e: "cached (eg_state eg1) lba = Some e"
    using hit notifier_table [OF n] by (auto simp: engine_dom_def)
  then show ?thesis
    using run n notifier_table [OF n] hit
    by (auto simp: engine_read_def cached_read_def get_and_touch_eq Let_def engine_dom_def split: sum.splits if_splits)
qed

definition reads_post ::
  "'w env \<Rightarrow> 'w disk_view \<Rightarrow> 'w engine \<Rightarrow> u64 list \<Rightarrow> u64 \<Rightarrow> u64 \<Rightarrow> (u64 \<times> u64) cache_result \<Rightarrow> 'w engine \<Rightarrow> bool" where
  "reads_post E disk eg lbas h m r eg' \<longleftrightarrow>
     engine_inv E disk eg' \<and> engine_view disk eg' = engine_view disk eg \<and> same_setup eg eg' \<and>
     (\<forall>h' m'. r = Inr (h', m') \<longrightarrow>
        (\<exists>k \<le> length lbas. h' = h + of_nat (length lbas - k) \<and> m' = m + of_nat k \<and>
           (k = 0 \<longleftrightarrow> set lbas \<subseteq> engine_dom eg)))"

lemma read_cached_loop_post:
  assumes "engine_inv E disk eg" "user_buf_ok (eg_state eg) ptr"
    "read_cached_loop E ticks ptr i lbas h m eg = (r, eg')"
  shows "reads_post E disk eg lbas h m r eg'"
  using assms
proof (induction lbas arbitrary: i h m eg)
  case Nil
  then show ?case by (auto simp: reads_post_def)
next
  case (Cons lba lbas)
  let ?b = "(engine_background E ^^ ticks i) eg"
  note bg = background_run [OF Cons.prems(1), where k = "ticks i"]
  have buf: "user_buf_ok (eg_state ?b) ptr" using Cons.prems(2) same_setup_buf [OF bg(3)] by simp
  obtain q eg1 where q: "engine_read E lba ptr ?b = (q, eg1)" by fastforce
  note p = engine_read_post [OF bg(1) buf q]
  have kept: "same_setup eg eg1" "engine_view disk eg1 = engine_view disk eg"
    using same_setup_trans [OF bg(3) p(3)] p(2) bg(2) by simp_all
  show ?case
  proof (cases q)
    case (Inl e)
    then show ?thesis using Cons.prems(3) q p(1) kept by (auto simp: reads_post_def)
  next
    case (Inr v)
    have hit: "rr_cache_hit v \<longleftrightarrow> lba \<in> engine_dom eg"
      using p(5) [OF Inr] bg(5) by (simp add: engine_dom_contains)
    let ?h = "if rr_cache_hit v then h + 1 else h" and ?m = "if rr_cache_hit v then m else m + 1"
    have "read_cached_loop E ticks ptr (Suc i) lbas ?h ?m eg1 = (r, eg')"
      using Cons.prems(3) q Inr by (simp split: if_splits)
    from Cons.IH [OF p(1) _ this] have post: "reads_post E disk eg1 lbas ?h ?m r eg'"
      using Cons.prems(2) same_setup_buf [OF kept(1)] by simp
    have dom: "engine_dom eg1 = engine_dom eg" if "rr_cache_hit v"
      using engine_read_hit_dom [OF q [unfolded Inr]] bg(5) that hit by simp
    have "\<exists>k \<le> length (lba # lbas). h' = h + of_nat (length (lba # lbas) - k) \<and> m' = m + of_nat k \<and>
        (k = 0 \<longleftrightarrow> set (lba # lbas) \<subseteq> engine_dom eg)" if "r = Inr (h', m')" for h' m'
    proof -
      from post that obtain k where k: "k \<le> length lbas" "h' = ?h + of_nat (length lbas - k)"
        "m' = ?m + of_nat k" "k = 0 \<longleftrightarrow> set lbas \<subseteq> engine_dom eg1"
        unfolding reads_post_def by blast
      show ?thesis
      proof (cases "rr_cache_hit v")
        case True
        then show ?thesis
          using k dom hit by (intro exI [of _ k]) (auto simp: Suc_diff_le add.assoc)
      next
        case False
        then show ?thesis
          using k hit by (intro exI [of _ "Suc k"]) (auto simp: add.assoc)
      qed
    qed
    then show ?thesis
      using post kept same_setup_trans [OF kept(1)] by (auto simp: reads_post_def)
  qed
qed

text \<open>Changes of the world and of memory outside the pool.\<close>

lemma put_world_post:
  assumes inv: "engine_inv E disk eg" and w: "disk w = disk (cs_world (eg_state eg))"
    and m: "agree_outside p (bsize (eg_state eg)) (cs_mem (eg_state eg)) m" "user_buf_ok (eg_state eg) p"
  shows "engine_inv E disk (put_world w m eg)" "engine_view disk (put_world w m eg) = engine_view disk eg"
    "same_setup eg (put_world w m eg)" "engine_dom (put_world w m eg) = engine_dom eg"
    "unaccounted n (eg_state (put_world w m eg)) = unaccounted n (eg_state eg)"
proof -
  let ?s = "(eg_state eg)\<lparr>cs_mem := m\<rparr>"
  have c: "cache_inv disk (eg_state eg)" "struct_inv (eg_state eg)" using inv by (simp_all add: engine_inv_def cache_inv_def)
  note out = mem_outside [OF c(2) m(1) m(2) [unfolded user_buf_ok_def], of disk]
  have w': "disk w = disk (cs_world ?s)" using w by simp
  have s: "(eg_state eg)\<lparr>cs_world := w, cs_mem := m\<rparr> = ?s\<lparr>cs_world := w\<rparr>" by simp
  have "cache_inv disk (?s\<lparr>cs_world := w\<rparr>)" "view disk (?s\<lparr>cs_world := w\<rparr>) = view disk (eg_state eg)"
    using world_change [OF w'] out c(1) by simp_all
  moreover have "on_device (dev_bytes eg) (?s\<lparr>cs_world := w\<rparr>)"
    using inv by (simp add: engine_inv_def on_device_def)
  ultimately show "engine_inv E disk (put_world w m eg)" "engine_view disk (put_world w m eg) = engine_view disk eg"
    using engine_state_inv [OF inv, of "?s\<lparr>cs_world := w\<rparr>"] by (simp_all add: put_world_def s engine_view_def same_geometry_refl)
  show "same_setup eg (put_world w m eg)" by (simp add: put_world_def same_setup_def same_geometry_refl)
  show "engine_dom (put_world w m eg) = engine_dom eg" by (simp add: put_world_def engine_dom_def)
  show "unaccounted n (eg_state (put_world w m eg)) = unaccounted n (eg_state eg)"
    by (simp add: put_world_def unaccounted_def)
qed

lemma engine_now_post:
  assumes inv: "engine_inv E disk eg" and run: "engine_now E eg = (t, eg')"
  shows "engine_inv E disk eg'" "engine_view disk eg' = engine_view disk eg" "same_setup eg eg'"
    "engine_dom eg' = engine_dom eg" "unaccounted n (eg_state eg') = unaccounted n (eg_state eg)"
    "cs_mem (eg_state eg') = cs_mem (eg_state eg)"
proof -
  obtain w where eg': "eg' = eg\<lparr>eg_state := (eg_state eg)\<lparr>cs_world := w\<rparr>\<rparr>" "disk w = disk (cs_world (eg_state eg))"
  proof (rule that [of "snd (env_now E (cs_world (eg_state eg)))"])
    show "disk (snd (env_now E (cs_world (eg_state eg)))) = disk (cs_world (eg_state eg))"
      using inv quiet_okD(1) by (auto simp: engine_inv_def env_ok_def)
  qed (use run in \<open>simp add: engine_now_def put_world_def case_prod_unfold\<close>)
  have "cache_inv disk (eg_state eg)" using inv by (simp add: engine_inv_def)
  then show "engine_inv E disk eg'" "engine_view disk eg' = engine_view disk eg"
    using world_change [OF eg'(2)] engine_state_inv [OF inv, of "(eg_state eg)\<lparr>cs_world := w\<rparr>"] inv
    by (simp_all add: eg'(1) engine_view_def engine_inv_def on_device_def)
  show "same_setup eg eg'" "engine_dom eg' = engine_dom eg" "unaccounted n (eg_state eg') = unaccounted n (eg_state eg)"
    "cs_mem (eg_state eg') = cs_mem (eg_state eg)"
    by (simp_all add: eg'(1) same_setup_def engine_dom_def unaccounted_def same_geometry_refl)
qed

text \<open>The allocator hands out memory that is not the pool's.\<close>

definition fresh_buffer :: "'w env \<Rightarrow> 'w engine \<Rightarrow> bool" where
  "fresh_buffer E eg \<longleftrightarrow>
     user_buf_ok (eg_state eg) (fst (env_alloc_zeroed E (engine_block_size eg) PAGE_ALIGNMENT (cs_world (eg_state eg))))"

lemma engine_bsize: "engine_inv E disk eg \<Longrightarrow> unat (engine_block_size eg) = bsize (eg_state eg)"
  by (simp add: engine_inv_def engine_block_size_def)

lemma bench_buffer_post:
  assumes inv: "engine_inv E disk eg" and fresh: "fresh_buffer E eg" and run: "bench_buffer E eg = (Inr buf, eg')"
  shows "engine_inv E disk eg'" "engine_view disk eg' = engine_view disk eg" "same_setup eg eg'"
    "engine_dom eg' = engine_dom eg" "unaccounted n (eg_state eg') = unaccounted n (eg_state eg)"
    "user_buf_ok (eg_state eg') (ab_ptr buf)" "unat (ab_size buf) = bsize (eg_state eg)"
    "alloc_ok E \<Longrightarrow> write_ptr_ok (ab_ptr buf)"
proof -
  obtain w m where new: "aligned_buffer_new E (engine_block_size eg) (cs_world (eg_state eg)) (cs_mem (eg_state eg)) = (Inr buf, w, m)"
    and eg': "eg' = put_world w m eg"
    using run by (auto simp: bench_buffer_def split: prod.splits)
  note b = aligned_buffer_new_Inr [OF new]
  have buf: "user_buf_ok (eg_state eg) (ab_ptr buf)" using fresh b(6) by (simp add: fresh_buffer_def)
  have "disk w = disk (cs_world (eg_state eg))"
    using inv b(6) quiet_okD(8) [of E disk "engine_block_size eg" PAGE_ALIGNMENT "cs_world (eg_state eg)"]
    by (simp add: engine_inv_def env_ok_def)
  moreover have "agree_outside (ab_ptr buf) (bsize (eg_state eg)) (cs_mem (eg_state eg)) m"
    using agree_fill [of "ab_ptr buf"] by (simp add: b(7) engine_bsize [OF inv])
  ultimately show "engine_inv E disk eg'" "engine_view disk eg' = engine_view disk eg" "same_setup eg eg'"
    "engine_dom eg' = engine_dom eg" "unaccounted n (eg_state eg') = unaccounted n (eg_state eg)"
    "user_buf_ok (eg_state eg') (ab_ptr buf)"
    using put_world_post [OF inv _ _ buf] same_setup_buf [of eg "put_world w m eg"] buf by (auto simp: eg')
  show "unat (ab_size buf) = bsize (eg_state eg)" by (simp add: b(1) engine_bsize [OF inv])
  show "write_ptr_ok (ab_ptr buf)" if "alloc_ok E"
  proof -
    have "unat PAGE_ALIGNMENT dvd fst (env_alloc_zeroed E (engine_block_size eg) PAGE_ALIGNMENT (cs_world (eg_state eg)))"
      using that by (simp add: alloc_ok_def del: unat_PAGE_ALIGNMENT)
    then show ?thesis using b(6) mod_dvd_trans(1) by (simp add: write_ptr_ok_def)
  qed
qed

lemma timed_reads_post:
  assumes inv: "engine_inv E disk eg" and buf: "user_buf_ok (eg_state eg) ptr"
    and run: "timed_reads E ticks ptr lbas eg = (r, eg')"
  shows "engine_inv E disk eg'" "engine_view disk eg' = engine_view disk eg" "same_setup eg eg'"
    "r = Inr (h, m, t) \<Longrightarrow> \<exists>k \<le> length lbas. h = of_nat (length lbas - k) \<and> m = of_nat k \<and> (k = 0 \<longleftrightarrow> set lbas \<subseteq> engine_dom eg)"
proof -
  obtain t0 eg1 where n: "engine_now E eg = (t0, eg1)" by fastforce
  note p1 = engine_now_post [OF inv n]
  obtain q eg2 where q: "read_cached_loop E ticks ptr 0 lbas 0 0 eg1 = (q, eg2)" by fastforce
  have post: "reads_post E disk eg1 lbas 0 0 q eg2"
    using read_cached_loop_post [OF p1(1) _ q] buf same_setup_buf [OF p1(3)] by simp
  have goals: "engine_inv E disk eg' \<and> engine_view disk eg' = engine_view disk eg \<and> same_setup eg eg' \<and>
    (\<forall>h m t. r = Inr (h, m, t) \<longrightarrow> (\<exists>k \<le> length lbas. h = of_nat (length lbas - k) \<and> m = of_nat k \<and> (k = 0 \<longleftrightarrow> set lbas \<subseteq> engine_dom eg)))"
  proof (cases q)
    case (Inl e)
    then show ?thesis
      using run n q post p1 same_setup_trans [OF p1(3)] by (auto simp: timed_reads_def reads_post_def)
  next
    case (Inr hm)
    obtain h m where hm: "hm = (h, m)" by fastforce
    obtain t1 eg3 where n3: "engine_now E eg2 = (t1, eg3)" by fastforce
    have "engine_inv E disk eg2" using post by (simp add: reads_post_def)
    note p3 = engine_now_post [OF this n3]
    have "r = Inr (h, m, t1 - t0)" "eg' = eg3" using run n q Inr hm n3 by (simp_all add: timed_reads_def)
    then show ?thesis
      using post p1 p3 Inr hm same_setup_trans [OF p1(3) same_setup_trans [OF _ p3(3)]]
      by (auto simp: reads_post_def)
  qed
  then show "engine_inv E disk eg'" "engine_view disk eg' = engine_view disk eg" "same_setup eg eg'"
    "r = Inr (h, m, t) \<Longrightarrow> \<exists>k \<le> length lbas. h = of_nat (length lbas - k) \<and> m = of_nat k \<and> (k = 0 \<longleftrightarrow> set lbas \<subseteq> engine_dom eg)"
    by blast+
qed

text \<open>No more blocks are cached than the pool has slots.\<close>

lemma card_engine_dom:
  assumes "engine_inv E disk eg"
  shows "finite (engine_dom eg)" "card (engine_dom eg) \<le> unat (mp_capacity (cs_pool (eg_state eg)))"
proof -
  let ?s = "eg_state eg" and ?f = "\<lambda>l. ce_pool_index (the (cached (eg_state eg) l))"
  have struct: "struct_inv ?s" using assms by (simp add: engine_inv_def cache_inv_def)
  show "finite (engine_dom eg)" unfolding engine_dom_def by (rule lt.finite_dom)
  have "inj_on ?f (engine_dom eg)"
    using cached_slot_unique [OF struct] by (auto simp: inj_on_def engine_dom_def)
  moreover have "?f ` engine_dom eg \<subseteq> pool_slots (cs_pool ?s)"
    using cached_index [OF struct] by (auto simp: engine_dom_def pool_slots_def)
  ultimately have "card (engine_dom eg) \<le> card (pool_slots (cs_pool ?s))"
    by (intro card_inj_on_le [of ?f] mp.slots_finite)
  then show "card (engine_dom eg) \<le> unat (mp_capacity (cs_pool (eg_state eg)))" by (simp add: card_pool_slots)
qed

text \<open>A run that fits into the pool evicts nothing: all its blocks are cached afterwards.\<close>

lemma free_slot:
  assumes inv: "engine_inv E disk eg" and un: "unaccounted 0 (eg_state eg)"
    and room: "card (engine_dom eg) < unat (mp_capacity (cs_pool (eg_state eg)))"
  shows "mp_free_list (cs_pool (eg_state eg)) \<noteq> []"
proof -
  have "table_inv (cs_table (eg_state eg))"
    using inv by (simp add: engine_inv_def cache_inv_def struct_inv_def)
  then have "length (lt_inner (cs_table (eg_state eg))) = card (engine_dom eg)"
    by (simp add: lt.count_dom engine_dom_def)
  with un room show ?thesis by (auto simp: unaccounted_def)
qed

lemma notifier_pool: "flush_notifier_or_noop E eg = (c, eg') \<Longrightarrow> cs_pool (eg_state eg') = cs_pool (eg_state eg)"
  by (auto simp: flush_notifier_or_noop_def split: option.splits prod.splits)

lemma engine_read_miss_dom:
  assumes run: "engine_read E lba ptr eg = (Inr v, eg')" and miss: "lba \<notin> engine_dom eg"
    and room: "mp_free_list (cs_pool (eg_state eg)) \<noteq> []"
  shows "engine_dom eg' = insert lba (engine_dom eg)"
proof -
  obtain c eg1 where n: "flush_notifier_or_noop E eg = (c, eg1)" by fastforce
  have none: "cached (eg_state eg1) lba = None" and free: "mp_free_list (cs_pool (eg_state eg1)) \<noteq> []"
    using miss room notifier_table [OF n] notifier_pool [OF n] by (simp_all add: engine_dom_def domIff)
  then obtain i P where al: "pool_allocate (cs_pool (eg_state eg1)) = (Inr i, P)"
    by (simp add: pool_allocate_def Let_def)
  obtain u s' where cr: "cached_read E lba ptr (bd_fd (eg_device eg1)) c (eg_state eg1) = (Inr u, s')"
    and eg': "eg' = eg1\<lparr>eg_state := s'\<rparr>"
    using run n by (auto simp: engine_read_def split: sum.splits prod.splits)
  have "cached s' = (cached (eg_state eg1))(lba \<mapsto> the (cached s' lba))"
    using cr none al
    by (auto simp: cached_read_def get_and_touch_eq allocate_or_evict_def Let_def fun_eq_iff split: sum.splits prod.splits)
  then have "dom (cached s') = insert lba (dom (cached (eg_state eg1)))" by (metis dom_fun_upd option.distinct(1))
  then show ?thesis using notifier_table [OF n] by (simp add: engine_dom_def eg')
qed

lemma engine_read_fits:
  assumes inv: "engine_inv E disk eg" and buf: "user_buf_ok (eg_state eg) ptr" and un: "unaccounted 0 (eg_state eg)"
    and room: "card (insert lba (engine_dom eg)) \<le> unat (mp_capacity (cs_pool (eg_state eg)))"
    and run: "engine_read E lba ptr eg = (Inr v, eg')"
  shows "engine_dom eg' = insert lba (engine_dom eg)" "unaccounted 0 (eg_state eg')"
proof -
  show "unaccounted 0 (eg_state eg')" using engine_read_post(5) [OF inv buf run HOL.refl] un by blast
  show "engine_dom eg' = insert lba (engine_dom eg)"
  proof (cases "lba \<in> engine_dom eg")
    case True
    then show ?thesis using engine_read_hit_dom [OF run] by auto
  next
    case False
    with room card_engine_dom(1) [OF inv] have "card (engine_dom eg) < unat (mp_capacity (cs_pool (eg_state eg)))" by simp
    from engine_read_miss_dom [OF run False free_slot [OF inv un this]] show ?thesis .
  qed
qed

lemma read_cached_loop_fits:
  assumes "engine_inv E disk eg" "user_buf_ok (eg_state eg) ptr" "unaccounted 0 (eg_state eg)"
    "card (engine_dom eg \<union> set lbas) \<le> unat (mp_capacity (cs_pool (eg_state eg)))"
    "read_cached_loop E ticks ptr i lbas h m eg = (Inr hm, eg')"
  shows "engine_dom eg' = engine_dom eg \<union> set lbas"
  using assms
proof (induction lbas arbitrary: i h m eg)
  case Nil
  then show ?case by simp
next
  case (Cons lba lbas)
  let ?b = "(engine_background E ^^ ticks i) eg"
  note bg = background_run [OF Cons.prems(1), where k = "ticks i"]
  have b: "user_buf_ok (eg_state ?b) ptr" "unaccounted 0 (eg_state ?b)"
    using Cons.prems(2,3) same_setup_buf [OF bg(3)] bg(6) by simp_all
  obtain v eg1 where q: "engine_read E lba ptr ?b = (Inr v, eg1)"
    using Cons.prems(5) by (auto split: sum.splits prod.splits)
  have cap: "mp_capacity (cs_pool (eg_state ?b)) = mp_capacity (cs_pool (eg_state eg))"
    by (rule same_setup_sizes(2) [OF bg(3)])
  have "card (insert lba (engine_dom ?b)) \<le> card (engine_dom eg \<union> set (lba # lbas))"
    using card_engine_dom(1) [OF Cons.prems(1)] bg(5) by (intro card_mono) auto
  then have "card (insert lba (engine_dom ?b)) \<le> unat (mp_capacity (cs_pool (eg_state ?b)))"
    using Cons.prems(4) cap by simp
  note f = engine_read_fits [OF bg(1) b this q]
  note p = engine_read_post [OF bg(1) b(1) q]
  have cap1: "mp_capacity (cs_pool (eg_state eg1)) = mp_capacity (cs_pool (eg_state eg))"
    using same_setup_sizes(2) [OF p(3)] cap by simp
  have "engine_dom eg' = engine_dom eg1 \<union> set lbas"
  proof (rule Cons.IH)
    show "engine_inv E disk eg1" "unaccounted 0 (eg_state eg1)" by (rule p(1), rule f(2))
    show "user_buf_ok (eg_state eg1) ptr" using b(1) same_setup_buf [OF p(3)] by simp
    show "card (engine_dom eg1 \<union> set lbas) \<le> unat (mp_capacity (cs_pool (eg_state eg1)))"
      using Cons.prems(4) f(1) bg(5) cap1 by simp
    show "read_cached_loop E ticks ptr (Suc i) lbas (if rr_cache_hit v then h + 1 else h)
        (if rr_cache_hit v then m else m + 1) eg1 = (Inr hm, eg')"
      using Cons.prems(5) q by (simp split: if_splits)
  qed
  then show ?case using f(1) bg(5) by simp
qed

lemma timed_reads_fits:
  assumes inv: "engine_inv E disk eg" and buf: "user_buf_ok (eg_state eg) ptr" and un: "unaccounted 0 (eg_state eg)"
    and room: "card (engine_dom eg \<union> set lbas) \<le> unat (mp_capacity (cs_pool (eg_state eg)))"
    and run: "timed_reads E ticks ptr lbas eg = (Inr hmt, eg')"
  shows "engine_dom eg' = engine_dom eg \<union> set lbas"
proof -
  obtain t0 eg1 where n: "engine_now E eg = (t0, eg1)" by fastforce
  note p1 = engine_now_post [OF inv n]
  obtain hm eg2 where q: "read_cached_loop E ticks ptr 0 lbas 0 0 eg1 = (Inr hm, eg2)"
    using run n by (auto simp: timed_reads_def split: sum.splits prod.splits)
  have side: "user_buf_ok (eg_state eg1) ptr" "unaccounted 0 (eg_state eg1)"
      "card (engine_dom eg1 \<union> set lbas) \<le> unat (mp_capacity (cs_pool (eg_state eg1)))"
    using buf un room same_setup_buf [OF p1(3)] same_setup_sizes(2) [OF p1(3)] p1(4,5) by simp_all
  have "engine_dom eg2 = engine_dom eg \<union> set lbas"
    using read_cached_loop_fits [OF p1(1) side q] p1(4) by simp
  moreover have "engine_inv E disk eg2"
    using read_cached_loop_post [OF p1(1) side(1) q] by (simp add: reads_post_def)
  ultimately show ?thesis
    using run n q engine_now_post(4) by (fastforce simp: timed_reads_def split: prod.splits)
qed

section \<open>Runs of writes\<close>

definition writes_post ::
  "'w env \<Rightarrow> 'w disk_view \<Rightarrow> 'w engine \<Rightarrow> u8 list \<Rightarrow> u64 list \<Rightarrow> u64 \<Rightarrow> u64 \<Rightarrow> (u64 \<times> u64) cache_result \<Rightarrow> 'w engine \<Rightarrow> bool" where
  "writes_post E disk eg data lbas u n r eg' \<longleftrightarrow>
     engine_inv E disk eg' \<and> same_setup eg eg' \<and>
     (\<forall>l. engine_view disk eg' l = engine_view disk eg l \<or> l \<in> set lbas \<and> engine_view disk eg' l = data) \<and>
     (\<forall>u' n'. r = Inr (u', n') \<longrightarrow> u' + n' = u + n + of_nat (length lbas) \<and>
        (\<forall>l \<in> set lbas. engine_view disk eg' l = data))"

lemma buf_kept:
  assumes "engine_inv E disk eg" "user_buf_ok (eg_state eg) ptr"
    "agree_outside (mp_base_ptr (cs_pool (eg_state eg))) (pool_size (cs_pool (eg_state eg))) (cs_mem (eg_state eg)) m"
  shows "load_bytes m ptr (bsize (eg_state eg)) = load_bytes (cs_mem (eg_state eg)) ptr (bsize (eg_state eg))"
  using load_agree [OF assms(3)] assms(2) by (simp add: user_buf_ok_def)

lemma write_cached_loop_post:
  assumes "engine_inv E disk eg" "user_buf_ok (eg_state eg) ptr" "write_ptr_ok ptr"
    "load_bytes (cs_mem (eg_state eg)) ptr (bsize (eg_state eg)) = data"
  shows "\<exists>r eg'. write_cached_loop E ticks ptr i lbas u n eg = Some (r, eg') \<and> writes_post E disk eg data lbas u n r eg'"
  using assms
proof (induction lbas arbitrary: i u n eg)
  case Nil
  then show ?case by (auto simp: writes_post_def)
next
  case (Cons lba lbas)
  let ?b = "(engine_background E ^^ ticks i) eg"
  note bg = background_run [OF Cons.prems(1), where k = "ticks i"]
  note size = same_setup_sizes(1) [OF bg(3)]
  have b: "user_buf_ok (eg_state ?b) ptr" "load_bytes (cs_mem (eg_state ?b)) ptr (bsize (eg_state ?b)) = data"
    using Cons.prems(2,4) same_setup_buf [OF bg(3)] bg(4) size by simp_all
  obtain q eg1 where q: "engine_write E lba ptr ?b = Some (q, eg1)" and p: "engine_write_post E disk ?b lba ptr q eg1"
    using engine_write_total [OF bg(1) b(1) Cons.prems(3)] by blast
  have eg1: "engine_inv E disk eg1" "same_setup ?b eg1" using p by (simp_all add: engine_write_post_def)
  have kept: "same_setup eg eg1" by (rule same_setup_trans [OF bg(3) eg1(2)])
  show ?case
  proof (cases q)
    case (Inl e)
    then have "engine_view disk eg1 = engine_view disk eg" using p bg(2) by (simp add: engine_write_post_def)
    then have "writes_post E disk eg data (lba # lbas) u n (Inl e) eg1" using eg1 kept by (simp add: writes_post_def)
    then show ?thesis using q Inl by simp
  next
    case (Inr v)
    then have view1: "engine_view disk eg1 = (engine_view disk eg)(lba := data)"
      using p bg(2) b(2) by (simp add: engine_write_post_def)
    have side: "user_buf_ok (eg_state eg1) ptr" "load_bytes (cs_mem (eg_state eg1)) ptr (bsize (eg_state eg1)) = data"
      using b buf_kept [OF bg(1) b(1), of "cs_mem (eg_state eg1)"] p same_setup_buf [OF eg1(2)] same_setup_sizes(1) [OF eg1(2)]
      by (simp_all add: engine_write_post_def)
    let ?u = "if wr_was_update v then u + 1 else u" and ?n = "if wr_was_update v then n else n + 1"
    obtain r eg' where r: "write_cached_loop E ticks ptr (Suc i) lbas ?u ?n eg1 = Some (r, eg')"
      and post: "writes_post E disk eg1 data lbas ?u ?n r eg'"
      using Cons.IH [OF eg1(1) side(1) Cons.prems(3) side(2)] by blast
    have run: "write_cached_loop E ticks ptr i (lba # lbas) u n eg = Some (r, eg')"
      using q Inr r by (simp split: if_splits)
    have sum: "?u + ?n = u + n + 1" by simp
    have "writes_post E disk eg data (lba # lbas) u n r eg'"
      unfolding writes_post_def
    proof (intro conjI allI impI ballI)
      show "engine_inv E disk eg'" "same_setup eg eg'"
        using post same_setup_trans [OF kept] by (auto simp: writes_post_def)
      show "engine_view disk eg' l = engine_view disk eg l \<or> l \<in> set (lba # lbas) \<and> engine_view disk eg' l = data" for l
      proof -
        have "engine_view disk eg' l = engine_view disk eg1 l \<or> l \<in> set lbas \<and> engine_view disk eg' l = data"
          using post unfolding writes_post_def by blast
        then show ?thesis unfolding view1 by (cases "l = lba") auto
      qed
      show "u' + n' = u + n + of_nat (length (lba # lbas))" if "r = Inr (u', n')" for u' n'
        using post that sum by (simp add: writes_post_def add.assoc)
      show "engine_view disk eg' l = data" if "r = Inr (u', n')" "l \<in> set (lba # lbas)" for u' n' l
        using post that view1 unfolding writes_post_def by (cases "l \<in> set lbas") (auto split: if_splits)
    qed
    with run show ?thesis by blast
  qed
qed

section \<open>Whole benchmarks\<close>

lemma bench_buffer_fail:
  assumes inv: "engine_inv E disk eg" and run: "bench_buffer E eg = (Inl e, eg')"
  shows "engine_inv E disk eg'" "engine_view disk eg' = engine_view disk eg" "same_setup eg eg'"
proof -
  obtain w where w: "eg' = put_world w (cs_mem (eg_state eg)) eg" "disk w = disk (cs_world (eg_state eg))"
  proof -
    have quiet: "quiet_ok E disk" using inv by (simp add: engine_inv_def env_ok_def)
    let ?w = "cs_world (eg_state eg)" and ?n = "engine_block_size eg"
    have "eg' = put_world ?w (cs_mem (eg_state eg)) eg \<or>
        eg' = put_world (snd (env_alloc_zeroed E ?n PAGE_ALIGNMENT ?w)) (cs_mem (eg_state eg)) eg"
      using run by (auto simp: bench_buffer_def aligned_buffer_new_def case_prod_unfold split: if_splits)
    then show thesis using that quiet_okD(8) [OF quiet] by blast
  qed
  have s: "put_world w (cs_mem (eg_state eg)) eg = eg\<lparr>eg_state := (eg_state eg)\<lparr>cs_world := w\<rparr>\<rparr>"
    by (simp add: put_world_def)
  show "engine_inv E disk eg'" "engine_view disk eg' = engine_view disk eg"
    using world_change [OF w(2)] engine_state_inv [OF inv, of "(eg_state eg)\<lparr>cs_world := w\<rparr>"] inv
    by (simp_all add: w(1) s engine_view_def engine_inv_def on_device_def)
  show "same_setup eg eg'" by (simp add: w(1) s same_setup_def same_geometry_refl)
qed

lemma length_lba_range [simp]: "length (lba_range n) = unat n"
  by (simp add: lba_range_def)

lemma set_lba_range: "set (lba_range n) = {lba. lba < n}"
proof -
  have "of_nat i < n" if "i < unat n" for i
    using that unat_of_nat_small [of i] unat_lt_2_64 [of n] by (simp add: word_less_nat_alt)
  moreover have "lba \<in> of_nat ` {..<unat n}" if "lba < n" for lba
    using that by (intro image_eqI [of _ _ "unat lba"]) (simp_all add: word_less_nat_alt)
  ultimately show ?thesis by (auto simp: lba_range_def atLeast0LessThan)
qed

lemma hits_misses_exact:
  fixes n h m :: u64
  assumes "k \<le> unat n" "h = of_nat (unat n - k)" "m = of_nat k"
  shows "unat h + unat m = unat n" "m = 0 \<longleftrightarrow> k = 0"
proof -
  have "unat h = unat n - k" "unat m = k"
    using assms unat_of_nat_small [of "unat n - k"] unat_of_nat_small [of k] unat_lt_2_64 [of n] by simp_all
  then show "unat h + unat m = unat n" "m = 0 \<longleftrightarrow> k = 0" using assms(1) by (simp_all add: word_unat_eq_iff)
qed

lemma seq_read_cached_post:
  assumes inv: "engine_inv E disk eg" and fresh: "fresh_buffer E eg"
    and run: "bench_sequential_read_cached E ticks n eg = (r, eg')"
  shows "engine_inv E disk eg'" "engine_view disk eg' = engine_view disk eg" "same_setup eg eg'"
    "r = Inr x \<Longrightarrow> sq_block_count x = n \<and> sq_block_size x = engine_block_size eg \<and>
       unat (sq_cache_hits x) + unat (sq_cache_misses x) = unat n \<and>
       (sq_cache_misses x = 0 \<longleftrightarrow> {lba. lba < n} \<subseteq> engine_dom eg)"
proof -
  obtain b eg1 where b: "bench_buffer E eg = (b, eg1)" by fastforce
  have "engine_inv E disk eg' \<and> engine_view disk eg' = engine_view disk eg \<and> same_setup eg eg' \<and>
    (\<forall>x. r = Inr x \<longrightarrow> sq_block_count x = n \<and> sq_block_size x = engine_block_size eg \<and>
       unat (sq_cache_hits x) + unat (sq_cache_misses x) = unat n \<and>
       (sq_cache_misses x = 0 \<longleftrightarrow> {lba. lba < n} \<subseteq> engine_dom eg))"
  proof (cases b)
    case (Inl e)
    then show ?thesis
      using run b bench_buffer_fail [OF inv] by (auto simp: bench_sequential_read_cached_def)
  next
    case (Inr buf)
    note p = bench_buffer_post [OF inv fresh b [unfolded Inr]]
    obtain q eg2 where t: "timed_reads E ticks (ab_ptr buf) (lba_range n) eg1 = (q, eg2)" by fastforce
    note tp = timed_reads_post [OF p(1,6) t]
    have eg': "eg' = eg2" using run b Inr t by (auto simp: bench_sequential_read_cached_def split: sum.splits)
    show ?thesis
    proof (intro conjI allI impI)
      show "engine_inv E disk eg'" "engine_view disk eg' = engine_view disk eg" "same_setup eg eg'"
        using tp(1-3) p(2) same_setup_trans [OF p(3)] by (simp_all add: eg')
      fix x assume x: "r = Inr x"
      obtain h m t' where q: "q = Inr (h, m, t')"
        and x': "x = \<lparr>sq_operation = ''Sequential Read'', sq_cached = True, sq_block_count = n,
            sq_block_size = engine_block_size eg, sq_elapsed = t', sq_cache_hits = h, sq_cache_misses = m\<rparr>"
        using run b Inr t x by (auto simp: bench_sequential_read_cached_def split: sum.splits)
      from tp(4) [OF q] obtain k where "k \<le> unat n" "h = of_nat (unat n - k)" "m = of_nat k"
        "k = 0 \<longleftrightarrow> {lba. lba < n} \<subseteq> engine_dom eg"
        unfolding set_lba_range p(4) length_lba_range by blast
      with hits_misses_exact [of k n h m] show "sq_block_count x = n" "sq_block_size x = engine_block_size eg"
        "unat (sq_cache_hits x) + unat (sq_cache_misses x) = unat n"
        "sq_cache_misses x = 0 \<longleftrightarrow> {lba. lba < n} \<subseteq> engine_dom eg" by (simp_all add: x')
    qed
  qed
  then show "engine_inv E disk eg'" "engine_view disk eg' = engine_view disk eg" "same_setup eg eg'"
    "r = Inr x \<Longrightarrow> sq_block_count x = n \<and> sq_block_size x = engine_block_size eg \<and>
       unat (sq_cache_hits x) + unat (sq_cache_misses x) = unat n \<and>
       (sq_cache_misses x = 0 \<longleftrightarrow> {lba. lba < n} \<subseteq> engine_dom eg)"
    by blast+
qed

lemma length_bench_pattern [simp]: "length (bench_pattern n) = n"
  by (simp add: bench_pattern_def)

lemma pattern_ready:
  assumes inv: "engine_inv E disk eg" and fresh: "fresh_buffer E eg" and alloc: "alloc_ok E"
    and b: "bench_buffer E eg = (Inr buf, eg1)"
  defines "eg2 \<equiv> put_world (cs_world (eg_state eg1)) (fill_pattern buf (cs_mem (eg_state eg1))) eg1"
  shows "engine_inv E disk eg2" "engine_view disk eg2 = engine_view disk eg" "same_setup eg eg2"
    "user_buf_ok (eg_state eg2) (ab_ptr buf)" "write_ptr_ok (ab_ptr buf)"
    "load_bytes (cs_mem (eg_state eg2)) (ab_ptr buf) (bsize (eg_state eg2)) = bench_pattern (bsize (eg_state eg))"
proof -
  note p = bench_buffer_post [OF inv fresh b]
  have size: "unat (ab_size buf) = bsize (eg_state eg1)" using p(7) same_setup_sizes(1) [OF p(3)] by simp
  have "agree_outside (ab_ptr buf) (bsize (eg_state eg1)) (cs_mem (eg_state eg1)) (fill_pattern buf (cs_mem (eg_state eg1)))"
    unfolding fill_pattern_def by (rule agree_outside_store) (simp add: size)
  note q = put_world_post [OF p(1) HOL.refl this p(6), folded eg2_def]
  show "engine_inv E disk eg2" "engine_view disk eg2 = engine_view disk eg" "same_setup eg eg2"
    "user_buf_ok (eg_state eg2) (ab_ptr buf)" "write_ptr_ok (ab_ptr buf)"
    using q(1,2) p(2,6) same_setup_trans [OF p(3) q(3)] same_setup_buf [OF q(3)] p(8) [OF alloc] by simp_all
  show "load_bytes (cs_mem (eg_state eg2)) (ab_ptr buf) (bsize (eg_state eg2)) = bench_pattern (bsize (eg_state eg))"
    using p(7) same_setup_sizes(1) [OF p(3)] by (simp add: eg2_def put_world_def fill_pattern_def load_store_same)
qed

lemma timed_writes_post:
  assumes inv: "engine_inv E disk eg" and buf: "user_buf_ok (eg_state eg) ptr" "write_ptr_ok ptr"
    and data: "load_bytes (cs_mem (eg_state eg)) ptr (bsize (eg_state eg)) = data"
  shows "\<exists>r eg'. timed_writes E ticks ptr lbas eg = Some (r, eg') \<and> engine_inv E disk eg' \<and>
    (\<forall>l. engine_view disk eg' l = engine_view disk eg l \<or> l \<in> set lbas \<and> engine_view disk eg' l = data) \<and>
    (\<forall>u k t. r = Inr (u, k, t) \<longrightarrow> u + k = of_nat (length lbas) \<and> (\<forall>l \<in> set lbas. engine_view disk eg' l = data))"
proof -
  obtain t0 eg1 where n: "engine_now E eg = (t0, eg1)" by fastforce
  note m = engine_now_post [OF inv n]
  have side: "user_buf_ok (eg_state eg1) ptr" "load_bytes (cs_mem (eg_state eg1)) ptr (bsize (eg_state eg1)) = data"
    using buf(1) data same_setup_buf [OF m(3)] same_setup_sizes(1) [OF m(3)] m(6) by simp_all
  obtain r eg2 where w: "write_cached_loop E ticks ptr 0 lbas 0 0 eg1 = Some (r, eg2)"
    and post: "writes_post E disk eg1 data lbas 0 0 r eg2"
    using write_cached_loop_post [OF m(1) side(1) buf(2) side(2)] by blast
  have inv2: "engine_inv E disk eg2" using post by (simp add: writes_post_def)
  obtain t1 eg3 where n3: "engine_now E eg2 = (t1, eg3)" by fastforce
  note m3 = engine_now_post [OF inv2 n3]
  have views: "engine_view disk eg2 l = engine_view disk eg l \<or> l \<in> set lbas \<and> engine_view disk eg2 l = data" for l
    using post m(2) unfolding writes_post_def by metis
  show ?thesis
  proof (cases r)
    case (Inl e)
    then show ?thesis using n w inv2 views by (simp add: timed_writes_def)
  next
    case (Inr uk)
    then show ?thesis
      using n w n3 m3(1,2) views post by (cases uk) (simp add: timed_writes_def writes_post_def)
  qed
qed

lemma rnd_read_cached_run:
  assumes "bench_random_read_cached E gen ticks n limit eg = Some (Inr x, eg')"
    "generate_random_lbas gen n limit BENCH_SEED = Some lbas"
  obtains buf eg1 t where "bench_buffer E eg = (Inr buf, eg1)"
    "timed_reads E ticks (ab_ptr buf) lbas eg1 = (Inr (rn_cache_hits x, rn_cache_misses x, t), eg')"
    "rn_op_count x = n"
  using assms by (auto simp: bench_random_read_cached_def split: sum.splits prod.splits)

lemma rnd_read_cached_post:
  assumes inv: "engine_inv E disk eg" and fresh: "fresh_buffer E eg"
    and run: "bench_random_read_cached E gen ticks n limit eg = Some (Inr x, eg')"
    and lbas: "generate_random_lbas gen n limit BENCH_SEED = Some lbas"
  shows "engine_inv E disk eg'" "engine_view disk eg' = engine_view disk eg" "same_setup eg eg'"
    "unat (rn_cache_hits x) + unat (rn_cache_misses x) = unat n"
    "rn_cache_misses x = 0 \<longleftrightarrow> set lbas \<subseteq> engine_dom eg"
    "unaccounted 0 (eg_state eg) \<Longrightarrow>
       card (engine_dom eg \<union> set lbas) \<le> unat (mp_capacity (cs_pool (eg_state eg))) \<Longrightarrow>
       engine_dom eg' = engine_dom eg \<union> set lbas"
proof -
  obtain buf eg1 t where b: "bench_buffer E eg = (Inr buf, eg1)"
    and t: "timed_reads E ticks (ab_ptr buf) lbas eg1 = (Inr (rn_cache_hits x, rn_cache_misses x, t), eg')"
    by (rule rnd_read_cached_run [OF run lbas])
  note p = bench_buffer_post [OF inv fresh b]
  note tp = timed_reads_post [OF p(1,6) t]
  show "engine_inv E disk eg'" "engine_view disk eg' = engine_view disk eg" "same_setup eg eg'"
    using tp(1-3) p(2) same_setup_trans [OF p(3)] by simp_all
  have len: "length lbas = unat n" using lbas by (auto simp: generate_random_lbas_def split: if_splits)
  obtain k where k: "k \<le> unat n" "rn_cache_hits x = of_nat (unat n - k)" "rn_cache_misses x = of_nat k"
    "k = 0 \<longleftrightarrow> set lbas \<subseteq> engine_dom eg"
    using tp(4) [OF HOL.refl] unfolding p(4) len by blast
  from hits_misses_exact [OF k(1-3)] k(4)
  show "unat (rn_cache_hits x) + unat (rn_cache_misses x) = unat n"
    "rn_cache_misses x = 0 \<longleftrightarrow> set lbas \<subseteq> engine_dom eg" by simp_all
  show "engine_dom eg' = engine_dom eg \<union> set lbas" if "unaccounted 0 (eg_state eg)"
    "card (engine_dom eg \<union> set lbas) \<le> unat (mp_capacity (cs_pool (eg_state eg)))"
    using timed_reads_fits [OF p(1,6) _ _ t] that p(4,5) same_setup_sizes(2) [OF p(3)] by simp
qed

lemma write_direct_refused:
  assumes "pwrite_refused E fd" "lbas \<noteq> []" "unat (bs :: usize) > 0" "length data = unat bs"
  shows "\<exists>e. write_direct_loop E fd bs data lbas w = (Inl e, w)"
proof -
  have "refused_at E fd w" using assms(1) by (simp add: pwrite_refused_def refused_at_def)
  then obtain e where "write_lba E fd (hd lbas) bs data w = (Inl e, w)"
    using write_lba_refused [of E fd w] assms(3,4) by (metis length_greater_0_conv)
  then show ?thesis using assms(2) by (cases lbas) simp_all
qed

text \<open>The error of the rate: three roundings, of the fraction of a second, the sum and the quotient.\<close>

lemma round53_between:
  assumes "0 \<le> q"
  shows "q * (1 - 1 / 2 ^ 53) \<le> round53 q" "round53 q \<le> q * (1 + 1 / 2 ^ 53)"
proof -
  define e where "e = q / 2 ^ 53"
  have "\<bar>round53 q - q\<bar> \<le> e" unfolding e_def by (rule round53_error [OF assms])
  then have "q - e \<le> round53 q" "round53 q \<le> q + e" by (simp_all add: abs_le_iff)
  moreover have "q * (1 - 1 / 2 ^ 53) = q - e" "q * (1 + 1 / 2 ^ 53) = q + e"
    unfolding e_def by (simp_all only: right_diff_distrib distrib_left mult_1_right times_divide_eq_right)
  ultimately show "q * (1 - 1 / 2 ^ 53) \<le> round53 q" "round53 q \<le> q * (1 + 1 / 2 ^ 53)"
    by simp_all
qed

lemma as_secs_f64_between:
  assumes "d < 2 ^ 53"
  defines "x \<equiv> of_nat d / 10 ^ 9" and "u \<equiv> 1 / 2 ^ 53"
  shows "x * (1 - u) ^ 2 \<le> as_secs_f64 d" "as_secs_f64 d \<le> x * (1 + u) ^ 2"
proof -
  define a :: rat where "a = of_nat (d div 10 ^ 9)"
  define b :: rat where "b = of_nat (d mod 10 ^ 9) / 10 ^ 9"
  have ab: "0 \<le> a" "0 \<le> b" by (simp_all add: a_def b_def)
  have "(of_nat d :: rat) = of_nat (d div 10 ^ 9) * 10 ^ 9 + of_nat (d mod 10 ^ 9)"
    using arg_cong [OF div_mult_mod_eq [of d "10 ^ 9", symmetric], of "of_nat :: nat \<Rightarrow> rat"]
    by (simp only: of_nat_add of_nat_mult of_nat_power of_nat_numeral)
  then have x: "x = a + b" unfolding x_def a_def b_def by (simp add: add_divide_distrib)
  have "d div 10 ^ 9 < 2 ^ 53" using assms(1) by (meson div_le_dividend le_less_trans)
  then have secs: "as_secs_f64 d = round53 (a + round53 b)"
    by (simp add: as_secs_f64_def a_def b_def round53_small_nat)
  have u: "0 \<le> u" "u \<le> 1" by (simp_all add: u_def)
  have b': "b * (1 - u) \<le> round53 b" "round53 b \<le> b * (1 + u)"
    using round53_between [OF ab(2)] by (simp_all add: u_def)
  have "a * (1 - u) \<le> a" "a \<le> a * (1 + u)" using ab(1) u by (simp_all add: algebra_simps)
  with b' have s: "x * (1 - u) \<le> a + round53 b" "a + round53 b \<le> x * (1 + u)"
    unfolding x by (simp_all add: distrib_right)
  have nn: "0 \<le> a + round53 b" using ab(1) round53_nonneg [of b] by simp
  have r: "(a + round53 b) * (1 - u) \<le> as_secs_f64 d" "as_secs_f64 d \<le> (a + round53 b) * (1 + u)"
    using round53_between [OF nn] by (simp_all add: secs u_def)
  have "x * (1 - u) * (1 - u) \<le> (a + round53 b) * (1 - u)" using s(1) u by (intro mult_right_mono) simp_all
  with r(1) show "x * (1 - u) ^ 2 \<le> as_secs_f64 d" by (simp add: power2_eq_square)
  have "(a + round53 b) * (1 + u) \<le> x * (1 + u) * (1 + u)" using s(2) u by (intro mult_right_mono) simp_all
  with r(2) show "as_secs_f64 d \<le> x * (1 + u) ^ 2" by (simp add: power2_eq_square)
qed

lemma abs_between: "r * (1 - v) \<le> a \<Longrightarrow> a \<le> r * (1 + v) \<Longrightarrow> \<bar>a - r\<bar> \<le> r * v" for r :: rat
  by (simp add: abs_le_iff algebra_simps)

lemma rate_error:
  fixes x s n q u :: rat
  assumes "0 < x" "0 \<le> n" "0 < u" "u < 1 / 16" "x * (1 - u) ^ 2 \<le> s" "s \<le> x * (1 + u) ^ 2"
    "n / s * (1 - u) \<le> q" "q \<le> n / s * (1 + u)"
  shows "n / x * (1 - 4 * u) \<le> q" "q \<le> n / x * (1 + 4 * u)"
proof -
  have lo: "0 < x * (1 - u) ^ 2" and s: "0 < s" using assms(1,3-5) by (auto intro: less_le_trans [OF _ assms(5)])
  have hi: "0 < x * (1 + u) ^ 2" using assms(1,3) by simp
  have uu: "u * u \<le> u / 16" using mult_left_mono [of u "1 / 16" u] assms(3,4) by simp
  have uuu: "0 \<le> u * (u * u)" using assms(3) by simp
  have "(1 - u) ^ 2 * (1 + 4 * u) = 1 + 2 * u - 7 * (u * u) + 4 * (u * (u * u))"
    "(1 + u) ^ 2 * (1 - 4 * u) = 1 - 2 * u - 7 * (u * u) - 4 * (u * (u * u))"
    by (simp_all add: power2_eq_square algebra_simps)
  then have poly: "1 + u \<le> (1 - u) ^ 2 * (1 + 4 * u)" "(1 + u) ^ 2 * (1 - 4 * u) \<le> 1 - u"
    using uu uuu assms(3) zero_le_square [of u] by linarith+
  have "n / s * (1 + u) \<le> n / (x * (1 - u) ^ 2) * (1 + u)"
    using divide_left_mono [OF assms(5,2)] lo s assms(3) by (intro mult_right_mono) simp_all
  also have "\<dots> \<le> n / (x * (1 - u) ^ 2) * ((1 - u) ^ 2 * (1 + 4 * u))"
    using poly(1) assms(2) lo by (intro mult_left_mono) simp_all
  also have "\<dots> = n / x * (1 + 4 * u)" using assms(3,4) by simp
  finally show "q \<le> n / x * (1 + 4 * u)" using assms(8) by simp
  have "n / x * (1 - 4 * u) = n / (x * (1 + u) ^ 2) * ((1 + u) ^ 2 * (1 - 4 * u))" using assms(3) by simp
  also have "\<dots> \<le> n / (x * (1 + u) ^ 2) * (1 - u)"
    using poly(2) assms(2) hi by (intro mult_left_mono) simp_all
  also have "\<dots> \<le> n / s * (1 - u)"
    using divide_left_mono [OF assms(6,2)] hi s assms(4) by (intro mult_right_mono) simp_all
  finally show "n / x * (1 - 4 * u) \<le> q" using assms(7) by simp
qed

section \<open>Properties\<close>

text \<open>
  A cached sequential read benchmark, whatever the flush thread does between its
  operations, leaves every block's contents as clients see them and keeps the engine's
  invariant, also when it fails. If it succeeds, its hits and misses add up to the number of
  blocks it was asked to read, and there are no misses exactly if every one of these blocks
  was cached before.
\<close>

theorem sequential_read_counts:
  assumes "engine_inv E disk eg" "fresh_buffer E eg"
    "bench_sequential_read_cached E ticks n eg = (r, eg')"
  shows "engine_inv E disk eg' \<and> engine_view disk eg' = engine_view disk eg \<and>
    (\<forall>x. r = Inr x \<longrightarrow> unat (sq_cache_hits x) + unat (sq_cache_misses x) = unat n \<and>
       (sq_cache_misses x = 0 \<longleftrightarrow> {lba. lba < n} \<subseteq> engine_dom eg))"
  using seq_read_cached_post [OF assms] by blast

text \<open>
  When a repeated random read benchmark is served from the cache alone: if the blocks of
  the run fit into the pool next to what is cached already, the second run has no misses; if
  the run has more different blocks than the pool has slots, it has at least one, although it
  asks for the same blocks.
\<close>

theorem warm_rerun_hits:
  assumes "engine_inv E disk eg" "unaccounted 0 (eg_state eg)"
    "generate_random_lbas gen n limit BENCH_SEED = Some lbas"
    "bench_random_read_cached E gen ticks n limit eg = Some (Inr cold, eg1)" "fresh_buffer E eg"
    "bench_random_read_cached E gen ticks' n limit eg1 = Some (Inr warm, eg2)" "fresh_buffer E eg1"
  defines "slots \<equiv> unat (mp_capacity (cs_pool (eg_state eg)))"
  shows "(card (engine_dom eg \<union> set lbas) \<le> slots \<longrightarrow> rn_cache_misses warm = 0 \<and> rn_cache_hits warm = n) \<and>
    (slots < card (set lbas) \<longrightarrow> rn_cache_misses warm \<noteq> 0)"
proof -
  note c = rnd_read_cached_post [OF assms(1,5,4,3)]
  note w = rnd_read_cached_post [OF c(1) assms(7,6,3)]
  have "rn_cache_misses warm = 0 \<and> rn_cache_hits warm = n" if "card (engine_dom eg \<union> set lbas) \<le> slots"
  proof -
    have "rn_cache_misses warm = 0" using c(6) [OF assms(2)] that w(5) by (simp add: slots_def)
    moreover have "rn_cache_hits warm = n" using w(4) \<open>rn_cache_misses warm = 0\<close> by (simp add: word_unat_eq_iff)
    ultimately show ?thesis by simp
  qed
  moreover have "rn_cache_misses warm \<noteq> 0" if "slots < card (set lbas)"
  proof
    assume "rn_cache_misses warm = 0"
    with w(5) have "card (set lbas) \<le> card (engine_dom eg1)"
      using card_mono [OF card_engine_dom(1) [OF c(1)]] by blast
    with that card_engine_dom(2) [OF c(1)] same_setup_sizes(2) [OF c(3)] show False by (simp add: slots_def)
  qed
  ultimately show ?thesis by blast
qed

text \<open>
  A cached sequential write benchmark returns (an allocated buffer is aligned, so the copy
  never faults) and keeps the engine's invariant. A block either keeps its contents or is one
  of the blocks of the run and holds the pattern; if the benchmark succeeds, every block of
  the run holds the pattern and updates and insertions add up to the number of blocks.
\<close>

theorem sequential_write_pattern:
  assumes "engine_inv E disk eg" "fresh_buffer E eg" "alloc_ok E"
  shows "\<exists>r eg'. bench_sequential_write_cached E ticks n eg = Some (r, eg') \<and> engine_inv E disk eg' \<and>
    (\<forall>l. engine_view disk eg' l = engine_view disk eg l \<or>
         l < n \<and> engine_view disk eg' l = bench_pattern (bsize (eg_state eg))) \<and>
    (\<forall>x. r = Inr x \<longrightarrow> sq_cache_hits x + sq_cache_misses x = n \<and>
       (\<forall>l < n. engine_view disk eg' l = bench_pattern (bsize (eg_state eg))))"
proof -
  obtain b eg1 where b: "bench_buffer E eg = (b, eg1)" by fastforce
  show ?thesis
  proof (cases b)
    case (Inl e)
    then show ?thesis
      using b bench_buffer_fail [OF assms(1)] by (auto simp: bench_sequential_write_cached_def)
  next
    case (Inr buf)
    define eg2 where "eg2 = put_world (cs_world (eg_state eg1)) (fill_pattern buf (cs_mem (eg_state eg1))) eg1"
    note p = pattern_ready [OF assms b [unfolded Inr], folded eg2_def]
    obtain q eg' where t: "timed_writes E ticks (ab_ptr buf) (lba_range n) eg2 = Some (q, eg')" and inv': "engine_inv E disk eg'"
      and views: "\<And>l. engine_view disk eg' l = engine_view disk eg l \<or> l < n \<and> engine_view disk eg' l = bench_pattern (bsize (eg_state eg))"
      and sums: "\<And>u k t. q = Inr (u, k, t) \<Longrightarrow> u + k = n \<and> (\<forall>l < n. engine_view disk eg' l = bench_pattern (bsize (eg_state eg)))"
      using timed_writes_post [OF p(1,4,5,6), of ticks "lba_range n"] unfolding p(2) set_lba_range by auto
    show ?thesis
    proof (cases q)
      case (Inl e)
      then show ?thesis using b Inr t inv' views by (simp add: bench_sequential_write_cached_def eg2_def)
    next
      case ukt: (Inr ukt)
      obtain u k t' where ukt': "ukt = (u, k, t')" by (cases ukt) auto
      then show ?thesis
        using b Inr t inv' views sums [of u k t'] ukt by (simp add: bench_sequential_write_cached_def eg2_def)
    qed
  qed
qed

text \<open>
  C22. The reported rate is right: for a run of less than \<open>2 ^ 53\<close> nanoseconds (over three
  months) and operations, the figure shown as operations per second differs from the true
  quotient by at most four units in the last place of a double; a run whose clock did not
  move reports zero instead of dividing by zero, and so do the other two figures.
\<close>

theorem iops_accurate:
  assumes "sq_elapsed r < 2 ^ 53" "unat (sq_block_count r) < 2 ^ 53"
  defines "rate \<equiv> of_nat (unat (sq_block_count r)) * 10 ^ 9 / of_nat (sq_elapsed r)"
  shows "(0 < sq_elapsed r \<longrightarrow> \<bar>sq_iops r - rate\<bar> \<le> rate * 4 / 2 ^ 53) \<and>
    (sq_elapsed r = 0 \<longrightarrow> sq_iops r = 0 \<and> sq_throughput_mbps r = 0 \<and> sq_avg_latency_us r = 0)"
proof (intro conjI impI)
  assume pos: "0 < sq_elapsed r"
  define x :: rat where "x = of_nat (sq_elapsed r) / 10 ^ 9"
  define n :: rat where "n = of_nat (unat (sq_block_count r))"
  have x: "0 < x" and n: "0 \<le> n" using pos by (simp_all add: x_def n_def del: of_nat_unat)
  have u: "0 < 1 / (2 :: rat) ^ 53" "1 / (2 :: rat) ^ 53 < 1 / 16" by simp_all
  note s = as_secs_f64_between [OF assms(1), folded x_def]
  have "0 < x * (1 - 1 / 2 ^ 53) ^ 2" using x by simp
  with s(1) have secs: "0 < as_secs_f64 (sq_elapsed r)" by simp
  have iops: "sq_iops r = round53 (n / as_secs_f64 (sq_elapsed r))"
    using secs usize_as_f64_exact [OF assms(2)] by (simp add: sq_iops_def Let_def n_def)
  have "0 \<le> n / as_secs_f64 (sq_elapsed r)" using n secs by simp
  from round53_between [OF this] rate_error [OF x n u s, of "sq_iops r"]
  have "n / x * (1 - 4 * (1 / 2 ^ 53)) \<le> sq_iops r" "sq_iops r \<le> n / x * (1 + 4 * (1 / 2 ^ 53))"
    by (simp_all add: iops)
  moreover have "n / x = rate" by (simp add: rate_def n_def x_def)
  ultimately show "\<bar>sq_iops r - rate\<bar> \<le> rate * 4 / 2 ^ 53"
    using abs_between [of rate "4 * (1 / 2 ^ 53)" "sq_iops r"] by simp
next
  assume "sq_elapsed r = 0"
  then show "sq_iops r = 0" "sq_throughput_mbps r = 0" "sq_avg_latency_us r = 0"
    by (simp_all add: sq_iops_def sq_throughput_mbps_def sq_avg_latency_us_def as_secs_f64_def as_micros_def)
qed

theorem iops_accurate_witness:
  "\<bar>sq_iops \<lparr>sq_operation = ''Sequential Read'', sq_cached = True, sq_block_count = 1000, sq_block_size = 4096,
      sq_elapsed = 3000000, sq_cache_hits = 0, sq_cache_misses = 1000\<rparr> - 1000 * 10 ^ 9 / 3000000\<bar> \<le>
   (1000 * 10 ^ 9 / 3000000) * 4 / 2 ^ 53"
  using iops_accurate [of "\<lparr>sq_operation = ''Sequential Read'', sq_cached = True, sq_block_count = 1000,
      sq_block_size = 4096, sq_elapsed = 3000000, sq_cache_hits = 0, sq_cache_misses = 1000\<rparr>"]
  by simp

section \<open>A concrete run\<close>

text \<open>The sample engine, with the allocator past the pool.\<close>

definition bench_engine :: "sim_world engine" where
  "bench_engine = put_world ((cs_world sample_cache)\<lparr>sim_brk := 16781312\<rparr>) (cs_mem sample_cache) sample_engine"

lemma bench_engine_inv: "env_ok E sim_disk 3 \<Longrightarrow> engine_inv E sim_disk bench_engine"
proof -
  assume env: "env_ok E sim_disk 3"
  have "user_buf_ok (eg_state sample_engine) 65536" using sample_cache_buf by simp
  then show ?thesis
    unfolding bench_engine_def
    by (intro put_world_post(1) [OF sample_engine_inv [OF env], where p = 65536]) (simp_all add: agree_outside_def)
qed

lemma bench_engine_simps [simp]:
  "cs_pool (eg_state bench_engine) = sample_pool" "cs_table (eg_state bench_engine) = cs_table sample_cache"
  "engine_block_size bench_engine = 4096" "sim_brk (cs_world (eg_state bench_engine)) = 16781312"
  "unaccounted 0 (eg_state bench_engine)" "engine_dom bench_engine = {3}"
  by (simp_all add: bench_engine_def put_world_def engine_block_size_def sample_engine_def config_new_def
      DEFAULT_BLOCK_SIZE_def unaccounted_def engine_dom_def dom_table_get sample_cache_def sample_pool_def)

lemma sim_fresh:
  assumes "cs_pool (eg_state eg) = sample_pool" "engine_block_size eg = 4096" "16781312 \<le> sim_brk (cs_world (eg_state eg))"
  shows "fresh_buffer sim_env eg"
  using assms
  by (auto simp: fresh_buffer_def user_buf_ok_def disjoint_ranges_def sim_env_def Let_def pool_size_def)
    (simp_all add: sample_pool_def)

theorem sequential_read_counts_witness:
  "engine_inv sim_env sim_disk (snd (bench_sequential_read_cached sim_env (\<lambda>i. i) 4 bench_engine)) \<and>
   engine_view sim_disk (snd (bench_sequential_read_cached sim_env (\<lambda>i. i) 4 bench_engine)) =
     engine_view sim_disk bench_engine"
  using sequential_read_counts [OF bench_engine_inv [OF sim_env_ok] sim_fresh surjective_pairing] by simp

theorem sequential_write_pattern_witness:
  "\<exists>r eg'. bench_sequential_write_cached sim_env (\<lambda>i. i) 4 bench_engine = Some (r, eg') \<and> engine_inv sim_env sim_disk eg'"
  using sequential_write_pattern [OF bench_engine_inv [OF sim_env_ok] sim_fresh sim_alloc_ok, of "\<lambda>i. i" 4] by auto

text \<open>A generator that always draws block 3, which is cached: one operation, one hit.\<close>

lemma one_hit_run:
  assumes "eg_flusher eg \<noteq> None" "engine_block_size eg = 4096" "table_get (cs_table (eg_state eg)) 3 \<noteq> None" "validate_lba eg 3 = Inr ()"
    "0 < sim_brk (cs_world (eg_state eg))"
  shows "\<exists>x eg'. bench_random_read_cached sim_env (\<lambda>_ _ _. 3) (\<lambda>_. 0) 1 256 eg = Some (Inr x, eg') \<and>
    eg_flusher eg' = eg_flusher eg \<and> engine_block_size eg' = 4096 \<and> cs_pool (eg_state eg') = cs_pool (eg_state eg) \<and>
    sim_brk (cs_world (eg_state eg)) \<le> sim_brk (cs_world (eg_state eg')) \<and>
    table_get (cs_table (eg_state eg')) 3 \<noteq> None \<and> validate_lba eg' 3 = Inr ()"
proof -
  obtain B where B: "eg_flusher eg = Some B" using assms(1) by blast
  obtain e where e: "table_get (cs_table (eg_state eg)) 3 = Some e" using assms(3) by blast
  have up: "k \<le> (4095 + k) div 4096 * 4096" for k :: nat
    using div_mult_mod_eq [of "4095 + k" 4096] mod_less_divisor [of 4096 "4095 + k"] by linarith
  have valid: "\<not> max_lba (bd_info (eg_device eg)) (cfg_block_size (eg_config eg)) \<le> 3"
    using assms(4) by (auto simp: validate_lba_def Let_def split: if_splits)
  have bs: "cfg_block_size (eg_config eg) = 4096" using assms(2) by (simp add: engine_block_size_def)
  have nz: "0 < (4095 + sim_brk (cs_world (eg_state eg))) div 4096"
    using up [of "sim_brk (cs_world (eg_state eg))"] assms(5) by (intro Nat.gr0I) simp
  show ?thesis
    using B e valid bs nz up [of "sim_brk (cs_world (eg_state eg))"]
    by (simp add: bench_random_read_cached_def generate_random_lbas_def bench_buffer_def aligned_buffer_new_def
        is_multiple_of_dvd layout_valid_def engine_block_size_def sim_env_def Let_def timed_reads_def engine_now_def put_world_def
        engine_read_def validate_lba_def flush_notifier_or_noop_def cached_read_def get_and_touch_eq)
qed

theorem warm_rerun_hits_witness:
  "\<exists>cold eg1 warm eg2.
     bench_random_read_cached sim_env (\<lambda>_ _ _. 3) (\<lambda>_. 0) 1 256 bench_engine = Some (Inr cold, eg1) \<and>
     bench_random_read_cached sim_env (\<lambda>_ _ _. 3) (\<lambda>_. 0) 1 256 eg1 = Some (Inr warm, eg2) \<and>
     rn_cache_misses warm = 0 \<and> rn_cache_hits warm = 1"
proof -
  have "eg_flusher bench_engine \<noteq> None" "validate_lba bench_engine 3 = Inr ()" "table_get (cs_table sample_cache) 3 \<noteq> None"
    by (simp_all add: bench_engine_def put_world_def sample_engine_def validate_lba_def max_lba_def config_new_def
        DEFAULT_BLOCK_SIZE_def sample_cache_def table_get_def)
  note start = this
  obtain cold eg1 where c: "bench_random_read_cached sim_env (\<lambda>_ _ _. 3) (\<lambda>_. 0) 1 256 bench_engine = Some (Inr cold, eg1)"
    and eg1: "eg_flusher eg1 = eg_flusher bench_engine" "engine_block_size eg1 = 4096" "cs_pool (eg_state eg1) = sample_pool"
      "16781312 \<le> sim_brk (cs_world (eg_state eg1))" "table_get (cs_table (eg_state eg1)) 3 \<noteq> None" "validate_lba eg1 3 = Inr ()"
    using one_hit_run [of bench_engine] start by auto
  obtain warm eg2 where w: "bench_random_read_cached sim_env (\<lambda>_ _ _. 3) (\<lambda>_. 0) 1 256 eg1 = Some (Inr warm, eg2)"
    using one_hit_run [of eg1] start(1) eg1 by auto
  have lbas: "generate_random_lbas (\<lambda>_ _ _. 3) 1 256 BENCH_SEED = Some [3]" by (simp add: generate_random_lbas_def)
  have "rn_cache_misses warm = 0 \<and> rn_cache_hits warm = 1"
    using warm_rerun_hits [OF bench_engine_inv [OF sim_env_ok] _ lbas c _ w] sim_fresh [of bench_engine] sim_fresh [OF eg1(3,2,4)]
    by simp
  with c w show ?thesis by blast
qed

end
