(* ===== verification/Quiescent.thy ===== *)
theory Quiescent
  imports Bench
begin

text \<open>
  Runs that never dirty a block. As long as every entry of the table is clean, nothing in the
  program writes to the device: a victim needs no write-back, and the flush thread finds
  nothing to flush, whether it runs between operations, at \<open>stop\<close> or when the engine is
  dropped. The predicate \<open>pristine\<close> says so and records the contents of the device; every
  operation a read-only client can reach keeps it. The benchmarks and the command line rest
  on these lemmas.
\<close>

section \<open>The cache\<close>

definition pristine :: "'w disk_view \<Rightarrow> store \<Rightarrow> 'w cache_state \<Rightarrow> bool" where
  "pristine disk d s \<longleftrightarrow> table_inv (cs_table s) \<and> all_clean s \<and> disk (cs_world s) = d"

lemma pristine_cong:
  "cs_table s' = cs_table s \<Longrightarrow> disk (cs_world s') = disk (cs_world s) \<Longrightarrow> pristine disk d s' = pristine disk d s"
  by (simp add: pristine_def all_clean_def)

lemma read_loop_disk:
  assumes "pread_ok E disk fd"
  shows "read_loop E fd offset ptr len k w m = (r, w', m') \<Longrightarrow> disk w' = disk w"
  using assms
proof (induction E fd offset ptr len k w m rule: read_loop.induct)
  case (1 E fd offset ptr len k w m)
  note unfold = read_loop.simps [of E fd offset ptr len k w m]
  obtain r1 w1 where call: "env_pread E fd (of_nat (len - k)) (offset + of_nat k) w = (r1, w1)" by fastforce
  note d = pread_okD(1) [OF "1.prems"(2) call]
  show ?case
  proof (cases "k < len \<and> (\<exists>bs. r1 = Inr bs \<and> bs \<noteq> [])")
    case True
    then obtain bs where bs: "k < len" "r1 = Inr bs" "bs \<noteq> []" by blast
    then show ?thesis
      using "1.IH" [OF bs(1) call [symmetric] bs(2,3)] "1.prems" call d by (simp add: unfold)
  next
    case False
    then show ?thesis using "1.prems"(1) call d by (auto simp: unfold split: sum.splits if_splits)
  qed
qed

lemma read_lba_disk: "pread_ok E disk fd \<Longrightarrow> read_lba E fd lba bs ptr len w m = (r, w', m') \<Longrightarrow> disk w' = disk w"
  by (auto simp: read_lba_def read_block_def dest: read_loop_disk)

lemma allocate_or_evict_pristine:
  assumes env: "env_ok E disk fd" and inv: "pristine disk d s"
    and run: "allocate_or_evict E fd chan s = (r, s')"
  shows "pristine disk d s'"
proof -
  have tab: "table_inv (snd (table_remove (cs_table s) lba))" for lba
    using inv lt.inv_del by (simp add: pristine_def)
  have "\<not> ec_needs_flush c" if "select_eviction_candidate E (cs_table s) = Some c" for c
    using select_Some_entry [OF env_okD(4) [OF env] _ that] inv by (metis all_clean_def pristine_def)
  then show ?thesis
    using run inv tab
    by (auto simp: allocate_or_evict_def flush_candidate_def Let_def pristine_def all_clean_def
        split: prod.splits sum.splits option.splits if_splits)
qed

lemma table_insert_pristine:
  assumes "pristine disk d s" "ce_lba e = lba" "\<not> ce_dirty e" "disk w = disk (cs_world s)"
  shows "pristine disk d (s\<lparr>cs_table := snd (table_insert (cs_table s) lba e), cs_world := w, cs_mem := m\<rparr>)"
  using assms lt.inv_put by (auto simp: pristine_def all_clean_def)

lemma cached_read_pristine:
  assumes env: "env_ok E disk fd" and inv: "pristine disk d s"
    and run: "cached_read E lba ptr fd chan s = (r, s')"
  shows "pristine disk d s'"
proof (cases "cached s lba")
  case (Some e)
  have "ce_lba e = lba" "\<not> ce_dirty e"
    using inv Some table_inv_get by (auto simp: pristine_def all_clean_def)
  then show ?thesis
    using run Some table_insert_pristine [OF inv, of "fst (entry_touch E e (cs_world s))" lba]
      quiet_okD(1) [OF env_okD(3) [OF env]]
    by (auto simp: cached_read_def get_and_touch_eq Let_def)
next
  case None
  obtain r1 s1 where al: "allocate_or_evict E fd chan s = (r1, s1)" by fastforce
  note p = allocate_or_evict_pristine [OF env inv al]
  show ?thesis
  proof (cases r1)
    case (Inl e)
    then show ?thesis using run None al p by (simp add: cached_read_def get_and_touch_eq Let_def)
  next
    case (Inr ib)
    obtain r2 w m where rd: "read_lba E fd lba (mp_block_size (cs_pool s)) (bb_ptr (snd ib)) (unat (bb_size (snd ib)))
        (cs_world s1) (cs_mem s1) = (r2, w, m)" by (metis prod_cases3)
    have dw: "disk w = disk (cs_world s1)" "disk (snd (env_now E w)) = disk (cs_world s1)"
      using read_lba_disk [OF env_okD(1) [OF env] rd] quiet_okD(1) [OF env_okD(3) [OF env]] by simp_all
    have "pristine disk d (s1\<lparr>cs_world := w, cs_mem := m\<rparr>)"
      using p dw by (simp add: pristine_def all_clean_def)
    then show ?thesis
      using run None al Inr rd dw table_insert_pristine [OF p, of "fst (entry_new E lba (fst ib) w)" lba]
      by (auto simp: cached_read_def get_and_touch_eq Let_def case_prod_unfold split: sum.splits)
  qed
qed

lemma flush_iteration_pristine:
  assumes env: "env_ok E disk fd" and inv: "pristine disk d s"
  shows "pristine disk d (snd (flush_iteration E fd bs sch link s))"
proof -
  have "dirty_entries E (cs_table s) = []"
    using dirty_entries_set [OF env_okD(4) [OF env], of "cs_table s"] inv
    by (simp add: pristine_def all_clean_def flip: set_empty)
  then have "snd (flush_iteration E fd bs sch link s) =
      s\<lparr>cs_world := snd (receiver_wait E (fl_chan link) (fs_interval sch) (cs_world s))\<rparr>"
    by (simp add: flush_iteration_def flush_dirty_blocks_def Let_def split: prod.splits)
  then show ?thesis
    using inv receiver_wait_disk [OF env_okD(3) [OF env]] by (simp add: pristine_def all_clean_def)
qed

section \<open>The engine\<close>

definition pristine_engine :: "'w disk_view \<Rightarrow> store \<Rightarrow> 'w engine \<Rightarrow> bool" where
  "pristine_engine disk d eg \<longleftrightarrow> pristine disk d (eg_state eg)"

lemma put_world_pristine:
  "disk w = disk (cs_world (eg_state eg)) \<Longrightarrow> pristine_engine disk d (put_world w m eg) = pristine_engine disk d eg"
  by (simp add: pristine_engine_def put_world_def pristine_def all_clean_def)

lemma flusher_shutdown_pristine:
  assumes env: "\<And>fd. env_ok E disk fd" and inv: "pristine disk d s"
  shows "\<exists>r B' s'. flusher_shutdown E panicked B s = Some (r, B', s') \<and> pristine disk d s'"
proof -
  let ?link = "(bf_notifier B)\<lparr>fl_stop := True\<rparr>"
  let ?s = "s\<lparr>cs_world := env_try_send E (fl_chan (bf_notifier B)) Shutdown (cs_world s)\<rparr>"
  have p: "pristine disk d ?s"
    using inv quiet_okD(2) [OF env_okD(3) [OF env]] by (simp add: pristine_def all_clean_def)
  show ?thesis
    using p flush_iteration_pristine [OF env p]
    by (auto simp: flusher_shutdown_def notifier_shutdown_def Let_def flush_thread_main_stopped is_stopped_def
        split: option.splits)
qed

lemma engine_read_pristine:
  assumes env: "\<And>fd. env_ok E disk fd" and inv: "pristine_engine disk d eg"
    and run: "engine_read E lba ptr eg = (r, eg')"
  shows "pristine_engine disk d eg'"
proof -
  obtain chan eg1 where n: "flush_notifier_or_noop E eg = (chan, eg1)" by fastforce
  have "pristine disk d (eg_state eg1)"
    using n inv quiet_okD(4) [OF env_okD(3) [OF env], of "cs_world (eg_state eg)"]
    by (auto simp: flush_notifier_or_noop_def flush_channel_def pristine_engine_def pristine_def all_clean_def
        split: option.splits prod.splits)
  then show ?thesis
    using run n inv cached_read_pristine [OF env]
    by (auto simp: engine_read_def pristine_engine_def split: sum.splits prod.splits)
qed

lemma engine_background_pristine:
  assumes env: "\<And>fd. env_ok E disk fd" and inv: "pristine_engine disk d eg"
  shows "pristine_engine disk d ((engine_background E ^^ k) eg)"
proof (induction k)
  case (Suc k)
  then show ?case
    using flush_iteration_pristine [OF env]
    by (simp add: engine_background_def pristine_engine_def split: option.splits)
qed (simp add: inv)

lemma engine_start_pristine:
  assumes env: "\<And>fd. env_ok E disk fd" and inv: "pristine_engine disk d eg"
  shows "pristine_engine disk d (engine_start E eg)"
  using inv quiet_okD(4) [OF env_okD(3) [OF env], of "cs_world (eg_state eg)"]
  by (auto simp: engine_start_def flusher_spawn_def flush_channel_def pristine_engine_def pristine_def all_clean_def
      split: prod.splits)

lemma engine_stop_pristine:
  assumes env: "\<And>fd. env_ok E disk fd" and inv: "pristine_engine disk d eg"
  shows "\<exists>r eg'. engine_stop E panicked eg = Some (r, eg') \<and> pristine_engine disk d eg'"
proof (cases "eg_flusher eg")
  case None
  then show ?thesis using inv by (simp add: engine_stop_def)
next
  case (Some B)
  obtain r B' s' where "flusher_shutdown E panicked B (eg_state eg) = Some (r, B', s')" "pristine disk d s'"
    using flusher_shutdown_pristine [OF env] inv by (metis pristine_engine_def)
  then show ?thesis using Some by (cases r) (simp_all add: engine_stop_def pristine_engine_def)
qed

lemma device_drop_disk: "quiet_ok E disk \<Longrightarrow> disk (device_drop E dev w) = disk w"
  by (simp add: device_drop_def quiet_okD)

lemma engine_drop_pristine:
  assumes env: "\<And>fd. env_ok E disk fd" and inv: "pristine_engine disk d eg"
  shows "\<exists>s. engine_drop E panicked eg = Some s \<and> disk (cs_world s) = d"
proof -
  let ?s = "(eg_state eg)\<lparr>cs_world := device_drop E (eg_device eg) (cs_world (eg_state eg))\<rparr>"
  have p: "pristine disk d ?s"
    using inv device_drop_disk [OF env_okD(3) [OF env]] by (simp add: pristine_engine_def pristine_def all_clean_def)
  have "\<exists>s. flusher_drop E panicked B ?s = Some s \<and> disk (cs_world s) = d" for B
    using p flusher_shutdown_pristine [OF env p, of panicked B] by (auto simp: flusher_drop_def pristine_def)
  then show ?thesis using p by (auto simp: engine_drop_def Let_def pristine_def split: option.splits)
qed

lemma engine_new_pristine:
  assumes env: "\<And>fd. env_ok E disk fd"
  shows "engine_new E cfg w m = Some (Inr eg) \<Longrightarrow> pristine_engine disk (disk w) eg"
    "engine_new E cfg w m = Some (Inl (e, w', m')) \<Longrightarrow> disk w' = disk w"
proof -
  note q = env_okD(3) [OF env]
  assume new: "engine_new E cfg w m = Some (Inr eg)"
  from engine_new_Inr [OF new] obtain w1 m1 where
    p: "pool_new E (cache_size_bytes cfg) (cfg_block_size cfg) w m = (Inr (cs_pool (eg_state eg)), w1, m1)"
    and o: "device_open E (cfg_device_path cfg) (cfg_read_only cfg) w1 = (Inr (eg_device eg), cs_world (eg_state eg))"
    and t: "cs_table (eg_state eg) = table_new (block_count cfg)" .
  then show "pristine_engine disk (disk w) eg"
    using device_open_disk [OF q o] pool_new_disk [OF q p]
    by (simp add: pristine_engine_def pristine_def all_clean_def table_new_def table_inv_def table_get_def)
next
  note q = env_okD(3) [OF env]
  assume "engine_new E cfg w m = Some (Inl (e, w', m'))"
  then show "disk w' = disk w"
    using device_open_disk [OF q] pool_new_disk [OF q]
    by (fastforce simp: engine_new_def Let_def split: sum.splits prod.splits option.splits)
qed

section \<open>The read benchmarks\<close>

lemma aligned_buffer_new_disk:
  assumes "quiet_ok E disk" "aligned_buffer_new E sz w m = (r, w', m')"
  shows "disk w' = disk w"
  using assms(2) quiet_okD(8) [OF assms(1), of sz PAGE_ALIGNMENT w]
  by (auto simp: aligned_buffer_new_def split: if_splits prod.splits)

lemma read_direct_loop_disk:
  assumes "pread_ok E disk fd"
  shows "read_direct_loop E fd bs buf lbas w m = (r, w', m') \<Longrightarrow> disk w' = disk w"
proof (induction lbas arbitrary: w m)
  case (Cons lba lbas)
  obtain r1 w1 m1 where rd: "read_lba E fd lba bs (ab_ptr buf) (unat (ab_size buf)) w m = (r1, w1, m1)"
    by (metis prod_cases3)
  show ?case
    using Cons.prems Cons.IH [of w1 m1] rd read_lba_disk [OF assms rd] by (cases r1) auto
qed simp

lemma direct_read_disk:
  assumes env: "env_ok E disk fd"
  shows "bench_sequential_read_direct E fd bs n w m = (r, w', m') \<Longrightarrow> disk w' = disk w"
    "bench_random_read_direct E gen fd bs n limit w m = Some (x, w', m') \<Longrightarrow> disk w' = disk w"
proof -
  note q = env_okD(3) [OF env]
  have now: "env_now E v = (t, v') \<Longrightarrow> disk v' = disk v" for v t v' using quiet_okD(1) [OF q, of v] by simp
  note parts = now aligned_buffer_new_disk [OF q] read_direct_loop_disk [OF env_okD(1) [OF env]]
  show "bench_sequential_read_direct E fd bs n w m = (r, w', m') \<Longrightarrow> disk w' = disk w"
    by (auto simp: bench_sequential_read_direct_def split: prod.splits sum.splits dest!: parts)
  show "bench_random_read_direct E gen fd bs n limit w m = Some (x, w', m') \<Longrightarrow> disk w' = disk w"
    by (auto simp: bench_random_read_direct_def split: option.splits prod.splits sum.splits dest!: parts)
qed

lemma read_cached_loop_pristine:
  assumes env: "\<And>fd. env_ok E disk fd"
  shows "pristine_engine disk d eg \<Longrightarrow> read_cached_loop E ticks ptr i lbas h m eg = (r, eg') \<Longrightarrow>
    pristine_engine disk d eg'"
proof (induction lbas arbitrary: eg i h m)
  case (Cons lba lbas)
  obtain r1 eg1 where rd: "engine_read E lba ptr ((engine_background E ^^ ticks i) eg) = (r1, eg1)" by fastforce
  have "pristine_engine disk d eg1"
    using engine_read_pristine [OF env engine_background_pristine [OF env Cons.prems(1)] rd] .
  then show ?case using Cons.prems(2) Cons.IH rd by (auto split: sum.splits if_splits)
qed simp

lemma cached_read_pristine_run:
  assumes env: "\<And>fd. env_ok E disk fd" and inv: "pristine_engine disk d eg"
  shows "bench_sequential_read_cached E ticks n eg = (r, eg') \<Longrightarrow> pristine_engine disk d eg'"
    "bench_random_read_cached E gen ticks n limit eg = Some (x, eg') \<Longrightarrow> pristine_engine disk d eg'"
proof -
  note q = env_okD(3) [OF env]
  have now: "engine_now E eg = (t, eg') \<Longrightarrow> pristine_engine disk d eg' = pristine_engine disk d eg" for eg t eg'
    using put_world_pristine [of disk] quiet_okD(1) [OF q]
    by (auto simp: engine_now_def case_prod_unfold)
  have buf: "bench_buffer E eg = (b, eg') \<Longrightarrow> pristine_engine disk d eg' = pristine_engine disk d eg" for eg b eg'
    using put_world_pristine [of disk]
    by (auto simp: bench_buffer_def split: prod.splits dest!: aligned_buffer_new_disk [OF q])
  have timed: "pristine_engine disk d eg'"
    if run: "timed_reads E ticks ptr lbas eg = (x, eg')" and eg: "pristine_engine disk d eg" for ptr lbas eg x eg'
  proof -
    obtain t eg1 where a: "engine_now E eg = (t, eg1)" by fastforce
    obtain y eg2 where b: "read_cached_loop E ticks ptr 0 lbas 0 0 eg1 = (y, eg2)" by fastforce
    have "pristine_engine disk d eg2" using read_cached_loop_pristine [OF env _ b] now [OF a] eg by simp
    then show ?thesis
      using run now [of eg2] by (auto simp: timed_reads_def a b split: prod.splits sum.splits)
  qed
  show "bench_sequential_read_cached E ticks n eg = (r, eg') \<Longrightarrow> pristine_engine disk d eg'"
    using inv by (auto simp: bench_sequential_read_cached_def buf split: prod.splits sum.splits dest!: timed)
  show "bench_random_read_cached E gen ticks n limit eg = Some (x, eg') \<Longrightarrow> pristine_engine disk d eg'"
    using inv
    by (auto simp: bench_random_read_cached_def buf split: option.splits prod.splits sum.splits dest!: timed)
qed

end
