(* ===== verification/Emit.thy ===== *)
theory Emit
  imports Device
begin

text \<open>
  What the program prints (\<open>src/src/cli/emit.rs\<close>): a line is a list of spans, plain text or
  text with the colours the \<open>colored\<close> crate is asked for, and goes to the standard output or
  to the standard error. A width in a format string pads the text inside the colours; it
  counts characters, and text is UTF-8. The print mutex makes each function one step.
\<close>

section \<open>Lines\<close>

datatype paint = Green | Blue | Yellow | Red | White | Cyan | Bold | Dimmed

datatype span = Plain string | Styled "paint list" string

datatype printed = Stdout "span list" | Stderr "span list"

fun span_text :: "span \<Rightarrow> string" where
  "span_text (Plain s) = s"
| "span_text (Styled ps s) = s"

definition line_text :: "span list \<Rightarrow> string" where
  "line_text l = concat (map span_text l)"

fun output_text :: "printed \<Rightarrow> string" where
  "output_text (Stdout l) = line_text l"
| "output_text (Stderr l) = line_text l"

fun is_stderr :: "printed \<Rightarrow> bool" where
  "is_stderr (Stdout l) = False"
| "is_stderr (Stderr l) = True"

text \<open>Characters of UTF-8 text: every byte that is not a continuation byte starts one.\<close>

definition char_count :: "string \<Rightarrow> nat" where
  "char_count s = length (filter (\<lambda>c. \<not> (0x80 \<le> (of_char c :: nat) \<and> (of_char c :: nat) < 0xC0)) s)"

definition pad_left :: "nat \<Rightarrow> string \<Rightarrow> string" where
  "pad_left n s = replicate (n - char_count s) CHR '' '' @ s"

definition pad_right :: "nat \<Rightarrow> string \<Rightarrow> string" where
  "pad_right n s = s @ replicate (n - char_count s) CHR '' ''"

section \<open>Shared pieces\<close>

definition arrow :: span where "arrow = Styled [Blue, Bold] ''  -->''"
definition gutter :: span where "gutter = Styled [Blue, Bold] ''   |''"
definition gutter_item :: span where "gutter_item = Styled [Blue, Bold] ''   | ''"
definition note_mark :: span where "note_mark = Styled [Blue, Bold] ''   = ''"

definition note_line :: "string \<Rightarrow> span list" where
  "note_line msg = [note_mark, Plain '' '', Styled [Bold] ''note:'', Plain ('' '' @ msg)]"

definition help_line :: "string \<Rightarrow> span list" where
  "help_line msg = [note_mark, Plain '' '', Styled [Bold] ''help:'', Plain ('' '' @ msg)]"

definition status :: "string \<Rightarrow> string \<Rightarrow> printed list" where
  "status action msg = [Stdout [Styled [Green, Bold] (pad_left 12 action), Plain ('' '' @ msg)]]"

definition warning :: "string \<Rightarrow> string option \<Rightarrow> string list \<Rightarrow> printed list" where
  "warning msg device_path help_notes =
     [Stderr [Styled [Yellow, Bold] ''warning'', Styled [White, Bold] '':'', Plain '' '', Styled [White, Bold] msg]] @
     (case device_path of None \<Rightarrow> [] | Some path \<Rightarrow> [Stderr [arrow, Plain ('' '' @ path)]]) @
     [Stderr [gutter]] @
     map (\<lambda>note. Stderr [note_mark, Plain ('' '' @ note)]) help_notes @
     [Stderr []]"

section \<open>Errors\<close>

text \<open>The body of the \<open>match\<close> in \<open>error\<close>.\<close>

fun error_body :: "cache_error \<Rightarrow> span list list" where
  "error_body (DeviceNotFound path) =
     [[gutter, Plain '' '', Styled [Yellow, Bold] ''path'', Plain ('': '' @ path)], [gutter],
      note_line ''make sure the device is plugged in and check the path via `lsblk`'']"
| "error_body (NotBlockDevice path) =
     [[gutter, Plain '' '', Styled [Yellow, Bold] ''path'', Plain ('': '' @ path)], [gutter],
      note_line ''target path exists but is not a hardware block device'',
      help_line ''only raw block devices (e.g., /dev/sdX, /dev/loopX) are supported'']"
| "error_body (PermissionDenied detail) =
     [[gutter, Plain '' '', Styled [Red] detail], [gutter],
      note_line ''reading or writing to raw block devices requires root privileges'',
      help_line ''try running with `sudo` or check if the user has `CAP_SYS_RAWIO` capability'']"
| "error_body (Config message) =
     [[gutter, Plain '' '', Styled [Red] message], [gutter], note_line ''verify the command-line arguments'']"
| "error_body (Allocation reason) =
     [[gutter, Plain '' '', Styled [Red] reason], [gutter],
      note_line ''system is out of memory or the memory alignment request failed'']"
| "error_body (Alignment expected actual) =
     [[gutter, Plain ('' expected alignment '' @ show_word expected @ '', got offset '' @ show_word actual)], [gutter],
      note_line ''block device operations require O_DIRECT buffers to be page-aligned'']"
| "error_body (PoolExhausted in_use capacity) =
     [[gutter, Plain ('' '' @ show_word in_use @ '' of '' @ show_word capacity @ '' blocks in use'')], [gutter],
      note_line ''all memory pool blocks are dirty and background flusher is catching up'',
      help_line ''increase flush frequency or cache size'']"
| "error_body (Io operation source) =
     [[gutter, Plain ('' failed during '' @ operation @ '' ('' @ ie_text source @ '')'')], [gutter],
      note_line ''underlying OS system call returned an error'']"
| "error_body (Ioctl name detail) =
     [[gutter, Plain ('' ioctl '' @ name @ '' failed: '' @ detail)], [gutter],
      note_line ''target block device may not support this operation or format'']"
| "error_body (FlushThread reason) =
     [[gutter, Plain ('' flusher failed: '' @ reason)], [gutter],
      note_line ''background flusher encountered an unrecoverable panic'']"
| "error_body (Internal message) =
     [[gutter, Plain ('' invariant violated: '' @ message)], [gutter],
      note_line ''this is a bug in the cache engine; please report it'']"
| "error_body (LbaOutOfRange lba mx) =
     [[gutter, Plain ('' LBA '' @ show_word lba @ '' is out of range (max: '' @ show_word mx @ '')'')], [gutter],
      note_line ''cannot access an offset beyond the physical device capacity'']"

definition emit_error :: "cache_error \<Rightarrow> printed list" where
  "emit_error err =
     map Stderr
       ([[Styled [Red, Bold] ''error['', Styled [Red, Bold] (get_error_code err), Plain '' '', Styled [Red, Bold] '']: '',
          Styled [White, Bold] (error_display err)],
         [arrow, Plain ('' '' @ get_error_path err)],
         [gutter]] @
        error_body err @ [[]])"

section \<open>Device metadata\<close>

definition info_item :: "string \<Rightarrow> string \<Rightarrow> printed" where
  "info_item name text = Stdout [gutter_item, Plain '' '', Styled [Bold] (pad_right 11 name), Plain ('': '' @ text)]"

definition emit_device_info :: "device_info \<Rightarrow> printed list" where
  "emit_device_info info =
     (let size_gib = round53 (usize_as_f64 (di_total_bytes info) / (1024 * 1024 * 1024))
      in [Stdout [Styled [Green, Bold] (pad_left 12 ''Introspecting''), Plain ('' block-device `'' @ di_path info @ ''`'')],
          Stdout [arrow, Plain ('' '' @ di_path info)],
          Stdout [gutter],
          Stdout (note_line ''hardware block device details:''),
          info_item ''Model'' (di_model info),
          info_item ''Size'' (show_fixed 2 size_gib @ '' GiB ('' @ show_word (di_total_bytes info) @ '' bytes)''),
          info_item ''Sector size'' (show_word (di_sector_size info) @ '' bytes''),
          info_item ''Sectors'' (show_word (di_sector_count info)),
          info_item ''Max LBA'' (show_word (max_lba info 4096)),
          Stdout [gutter]])"

section \<open>Properties\<close>

fun error_variant :: "cache_error \<Rightarrow> nat" where
  "error_variant (Config _) = 1"
| "error_variant (DeviceNotFound _) = 2"
| "error_variant (NotBlockDevice _) = 3"
| "error_variant (Allocation _) = 4"
| "error_variant (Alignment _ _) = 5"
| "error_variant (PoolExhausted _ _) = 6"
| "error_variant (Io _ _) = 7"
| "error_variant (Ioctl _ _) = 8"
| "error_variant (FlushThread _) = 9"
| "error_variant (Internal _) = 10"
| "error_variant (LbaOutOfRange _ _) = 11"
| "error_variant (PermissionDenied _) = 12"

lemma error_code_variant: "get_error_code e = get_error_code e' \<longleftrightarrow> error_variant e = error_variant e'"
  by (cases e; cases e') simp_all

text \<open>
  The diagnostic of an error goes to the standard error as a whole. Its first line is the
  code in brackets, with a blank before the closing one, and the text of the error; the
  second names where the error lies; it ends with an empty line. The code is a function of
  the variant of the error alone and tells any two variants apart.
\<close>

theorem error_diagnostic:
  "(\<forall>l \<in> set (emit_error e). is_stderr l) \<and>
   output_text (emit_error e ! 0) = ''error['' @ get_error_code e @ '' ]: '' @ error_display e \<and>
   output_text (emit_error e ! 1) = ''  --> '' @ get_error_path e \<and>
   last (emit_error e) = Stderr [] \<and>
   (get_error_code e = get_error_code e' \<longleftrightarrow> error_variant e = error_variant e')"
  by (auto simp: emit_error_def line_text_def arrow_def error_code_variant)

theorem error_diagnostic_witness:
  "output_text (emit_error (PermissionDenied ''open'') ! 0) =
     ''error[E0012 ]: Permission denied: open. Try running with sudo or CAP_SYS_RAWIO.''"
  using error_diagnostic [of "PermissionDenied ''open''"] by simp

end
