(* ===== verification/Report.thy ===== *)
theory Report
  imports Emit
begin

text \<open>
  The report of a benchmark (\<open>src/src/bench/report.rs\<close>): the table comparing a direct run
  with a cached one, the header and the footer. The figures are doubles that are never
  negative, so they are rationals rounded to 53 bits.
\<close>

record report_row =
  rr_label :: string
  rr_throughput_mbps :: rat
  rr_iops :: rat
  rr_avg_latency_us :: rat
  rr_cache_hits :: u64
  rr_cache_misses :: u64

text \<open>\<open>str::replace\<close> with the empty string.\<close>

fun str_remove :: "string \<Rightarrow> string \<Rightarrow> string" where
  "str_remove p [] = []"
| "str_remove p (c # cs) =
     (if p \<noteq> [] \<and> take (length p) (c # cs) = p then str_remove p (drop (length p - 1) cs)
      else c # str_remove p cs)"

text \<open>A quotient of two figures, zero when the divisor is.\<close>

definition speedup :: "rat \<Rightarrow> rat \<Rightarrow> rat" where
  "speedup a b = (if 0 < b then round53 (a / b) else 0)"

definition times_sign :: string where "times_sign = [CHR 0xC3, CHR 0x97]"
definition micro_s :: string where "micro_s = [CHR 0xCE, CHR 0xBC, CHR ''s'']"

definition speedup_span :: "rat \<Rightarrow> span" where
  "speedup_span v =
     Styled (if 2 \<le> v then [Green, Bold] else if 1 \<le> v then [Yellow] else [Red])
       (pad_left 15 (show_fixed 1 v @ times_sign))"

definition rule_line :: "span list" where
  "rule_line = [gutter, Plain ('' '' @ replicate 20 CHR ''-'' @ ''-|-'' @ replicate 15 CHR ''-'' @ ''-|-'' @
     replicate 15 CHR ''-'' @ ''-|-'' @ replicate 15 CHR ''-'')]"

definition hit_ratio :: "report_row \<Rightarrow> rat" where
  "hit_ratio cached_row =
     round53 (round53 (usize_as_f64 (rr_cache_hits cached_row) /
       usize_as_f64 (rr_cache_hits cached_row + rr_cache_misses cached_row)) * 100)"

definition print_comparison :: "report_row \<Rightarrow> report_row \<Rightarrow> printed list" where
  "print_comparison direct cached_row =
     [Stdout [Styled [Green, Bold] (pad_left 12 ''Comparing''), Plain '' comparison for `'',
        Styled [Cyan, Bold] (str_remove '' (direct)'' (rr_label direct)), Plain ''`''],
      Stdout [arrow, Plain '' benchmark results''],
      Stdout [gutter],
      Stdout [gutter, Plain '' '', Styled [Bold] (pad_right 20 ''Metric''), Plain '' | '',
        Styled [Bold] (pad_left 15 ''Direct I/O''), Plain '' | '', Styled [Bold] (pad_left 15 ''Cached I/O''), Plain '' | '',
        Styled [Bold] (pad_left 15 ''Speedup'')],
      Stdout rule_line,
      Stdout [gutter, Plain ('' '' @ pad_right 20 ''Throughput'' @ '' | '' @
        pad_left 10 (show_fixed 1 (rr_throughput_mbps direct)) @ '' MB/s | '' @
        pad_left 10 (show_fixed 1 (rr_throughput_mbps cached_row)) @ '' MB/s | ''),
        speedup_span (speedup (rr_throughput_mbps cached_row) (rr_throughput_mbps direct))],
      Stdout [gutter, Plain ('' '' @ pad_right 20 ''IOPS'' @ '' | '' @
        pad_left 15 (show_fixed 0 (rr_iops direct)) @ '' | '' @
        pad_left 15 (show_fixed 0 (rr_iops cached_row)) @ '' | ''),
        speedup_span (speedup (rr_iops cached_row) (rr_iops direct))],
      Stdout [gutter, Plain ('' '' @ pad_right 20 ''Avg Latency'' @ '' | '' @
        pad_left 12 (show_fixed 1 (rr_avg_latency_us direct)) @ '' '' @ micro_s @ '' | '' @
        pad_left 12 (show_fixed 1 (rr_avg_latency_us cached_row)) @ '' '' @ micro_s @ '' | ''),
        speedup_span (speedup (rr_avg_latency_us direct) (rr_avg_latency_us cached_row))],
      Stdout rule_line] @
     (if 0 < rr_cache_hits cached_row + rr_cache_misses cached_row then
        [Stdout [note_mark, Plain '' '', Styled [Bold] ''note: cache hit ratio:'',
           Plain ('' '' @ show_fixed 1 (hit_ratio cached_row) @ ''% ('' @ show_word (rr_cache_hits cached_row) @ '' hits / '' @
             show_word (rr_cache_misses cached_row) @ '' misses)'')]]
      else []) @
     [Stdout [gutter], Stdout []]"

text \<open>The version is the one of \<open>Cargo.toml\<close>.\<close>

definition print_header :: "string \<Rightarrow> usize \<Rightarrow> usize \<Rightarrow> printed list" where
  "print_header device_path cache_size_mb blocks =
     [Stdout [Styled [Green, Bold] (pad_left 12 ''Benchmarking''),
        Plain ('' asm-cache-inject-bench v0.1.1 ('' @ device_path @ '')'')],
      Stdout [arrow, Plain ('' '' @ device_path)],
      Stdout [gutter],
      Stdout (note_line ''starting benchmark run''),
      Stdout (note_line ''RAM cache configuration:''),
      Stdout [gutter_item, Plain '' '', Styled [Bold] ''Cache size'', Plain ('': '' @ show_word cache_size_mb @ '' MiB'')],
      Stdout [gutter_item, Plain '' '', Styled [Bold] ''Block count'',
        Plain ('': '' @ show_word blocks @ '' blocks (4096 B/block)'')],
      Stdout [gutter]]"

definition print_footer :: "printed list" where
  "print_footer =
     [Stdout [Styled [Green, Bold] (pad_left 12 ''Finished''), Plain '' benchmark run complete''],
      Stdout [gutter, Plain '' '', Styled [Dimmed] ''All times are wall-clock elapsed.''],
      Stdout []]"

section \<open>Properties\<close>

lemma round53_100: "round53 100 = 100"
  using round53_small_nat [of 100] by simp

lemma hit_ratio_exact:
  assumes "unat (rr_cache_hits r) + unat (rr_cache_misses r) < 2 ^ 53" "0 < rr_cache_hits r + rr_cache_misses r"
  shows "hit_ratio r = round53 (round53 (of_nat (unat (rr_cache_hits r)) /
      of_nat (unat (rr_cache_hits r) + unat (rr_cache_misses r))) * 100)"
proof -
  have "unat (rr_cache_hits r + rr_cache_misses r) = unat (rr_cache_hits r) + unat (rr_cache_misses r)"
    using assms(1) by (intro unat_add_lem [THEN iffD1]) simp
  then show ?thesis
    using usize_as_f64_exact [of "rr_cache_hits r"] usize_as_f64_exact [of "rr_cache_hits r + rr_cache_misses r"] assms(1)
    by (simp add: hit_ratio_def del: of_nat_unat of_nat_add)
qed

text \<open>
  The hit ratio in the report is a percentage: for counts that a double holds exactly it
  lies between 0 and 100, is 100 if there were no misses and 0 if there were no hits, and it
  is printed only when there was an operation, so the division is never by zero.
\<close>

theorem hit_ratio_percentage:
  assumes "unat (rr_cache_hits r) + unat (rr_cache_misses r) < 2 ^ 53" "0 < rr_cache_hits r + rr_cache_misses r"
  shows "0 \<le> hit_ratio r \<and> hit_ratio r \<le> 100 \<and>
    (rr_cache_misses r = 0 \<longrightarrow> hit_ratio r = 100) \<and> (rr_cache_hits r = 0 \<longrightarrow> hit_ratio r = 0)"
proof -
  let ?q = "of_nat (unat (rr_cache_hits r)) / of_nat (unat (rr_cache_hits r) + unat (rr_cache_misses r)) :: rat"
  note exact = hit_ratio_exact [OF assms]
  have pos: "0 < unat (rr_cache_hits r) + unat (rr_cache_misses r)" using assms(2) by (auto simp: word_gt_0 unat_gt_0)
  have "(of_nat (unat (rr_cache_hits r)) :: rat) \<le> of_nat (unat (rr_cache_hits r) + unat (rr_cache_misses r))"
    by (simp only: of_nat_le_iff)
  then have "?q \<le> 1" using pos by (simp add: divide_le_eq del: of_nat_unat of_nat_add)
  then have "round53 ?q \<le> 1" using round53_mono [of ?q 1] by simp
  then have "hit_ratio r \<le> 100" using round53_mono [of "round53 ?q * 100" 100] by (simp add: exact round53_100 del: of_nat_unat of_nat_add)
  moreover have "0 \<le> hit_ratio r" by (simp add: hit_ratio_def round53_nonneg)
  moreover have "hit_ratio r = 100" if "rr_cache_misses r = 0"
    using pos that by (simp add: exact round53_100 del: of_nat_unat)
  moreover have "hit_ratio r = 0" if "rr_cache_hits r = 0"
    using that by (simp add: hit_ratio_def usize_as_f64_def)
  ultimately show ?thesis by blast
qed

theorem hit_ratio_percentage_witness:
  "hit_ratio \<lparr>rr_label = ''Seq Read (warm cache)'', rr_throughput_mbps = 1, rr_iops = 1, rr_avg_latency_us = 1,
     rr_cache_hits = 1000, rr_cache_misses = 0\<rparr> = 100"
  using hit_ratio_percentage [of "\<lparr>rr_label = ''Seq Read (warm cache)'', rr_throughput_mbps = 1, rr_iops = 1,
      rr_avg_latency_us = 1, rr_cache_hits = 1000, rr_cache_misses = 0\<rparr>"] by simp

end
