(* ===== verification/Runner.thy ===== *)
theory Runner
  imports Quiescent Report
begin

text \<open>
  The benchmark orchestrator (\<open>src/src/bench/runner.rs\<close>). A run of the suite is a program over
  the engine that may fail, may panic and prints; the three combinators below are the \<open>?\<close>
  operator, the sequence of statements and \<open>println!\<close>. When the function returns, early or
  not, its locals are dropped: first the engine, then the direct device.
\<close>

section \<open>Modes and configuration\<close>

datatype bench_mode = Sequential | Random | All

text \<open>\<open>to_lowercase\<close> on ASCII text; other characters occur in no name that is accepted.\<close>

definition ascii_lower :: "char \<Rightarrow> char" where
  "ascii_lower c = (let n = of_char c :: nat in if 65 \<le> n \<and> n \<le> 90 then char_of (n + 32) else c)"

definition bench_mode_from_str :: "string \<Rightarrow> string + bench_mode" where
  "bench_mode_from_str s =
     (let l = map ascii_lower s
      in if l = ''sequential'' \<or> l = ''seq'' then Inr Sequential
         else if l = ''random'' \<or> l = ''rand'' then Inr Random
         else if l = ''all'' then Inr All
         else Inl (''unknown bench mode: '' @ s))"

record bench_config =
  bc_device_path :: string
  bc_mode :: bench_mode
  bc_block_count :: usize
  bc_cache_size_mb :: usize
  bc_include_writes :: bool

section \<open>Programs over the engine\<close>

type_synonym ('w, 'a) program = "'w engine \<Rightarrow> ('a cache_result \<times> 'w engine \<times> printed list) option"

definition then_do :: "('w, 'a) program \<Rightarrow> ('a \<Rightarrow> ('w, 'b) program) \<Rightarrow> ('w, 'b) program" where
  "then_do f g eg =
     (case f eg of
        None \<Rightarrow> None
      | Some (Inl e, eg', out) \<Rightarrow> Some (Inl e, eg', out)
      | Some (Inr a, eg', out) \<Rightarrow> map_option (\<lambda>(r, eg'', out'). (r, eg'', out @ out')) (g a eg'))"

definition prints :: "printed list \<Rightarrow> ('w, unit) program" where
  "prints ls eg = Some (Inr (), eg, ls)"

definition done_with :: "'a \<Rightarrow> ('w, 'a) program" where
  "done_with a eg = Some (Inr a, eg, [])"

text \<open>A benchmark against the direct descriptor, and one through the engine.\<close>

definition direct :: "('w \<Rightarrow> store \<Rightarrow> ('a cache_result \<times> 'w \<times> store) option) \<Rightarrow> ('w, 'a) program" where
  "direct f eg =
     (case f (cs_world (eg_state eg)) (cs_mem (eg_state eg)) of
        None \<Rightarrow> None | Some (r, w, m) \<Rightarrow> Some (r, put_world w m eg, []))"

definition cached_run :: "('w engine \<Rightarrow> ('a cache_result \<times> 'w engine) option) \<Rightarrow> ('w, 'a) program" where
  "cached_run f eg = map_option (\<lambda>(r, eg'). (r, eg', [])) (f eg)"

section \<open>The suite\<close>

definition seq_row :: "string \<Rightarrow> u64 \<Rightarrow> u64 \<Rightarrow> sequential_result \<Rightarrow> report_row" where
  "seq_row label hits misses r = \<lparr>rr_label = label, rr_throughput_mbps = sq_throughput_mbps r, rr_iops = sq_iops r,
     rr_avg_latency_us = sq_avg_latency_us r, rr_cache_hits = hits, rr_cache_misses = misses\<rparr>"

definition rnd_row :: "string \<Rightarrow> u64 \<Rightarrow> u64 \<Rightarrow> random_result \<Rightarrow> report_row" where
  "rnd_row label hits misses r = \<lparr>rr_label = label, rr_throughput_mbps = rn_throughput_mbps r, rr_iops = rn_iops r,
     rr_avg_latency_us = rn_avg_latency_us r, rr_cache_hits = hits, rr_cache_misses = misses\<rparr>"

definition seq_writes :: "'w env \<Rightarrow> (nat \<Rightarrow> nat) \<Rightarrow> i32 \<Rightarrow> usize \<Rightarrow> usize \<Rightarrow> ('w, unit) program" where
  "seq_writes E ticks fd block_size n =
     then_do (prints (status ''Running'' ''Sequential Write benchmark'')) (\<lambda>_.
     then_do (direct (\<lambda>w m. Some (bench_sequential_write_direct E fd block_size n w m))) (\<lambda>d.
     then_do (cached_run (bench_sequential_write_cached E ticks n)) (\<lambda>c.
     prints (print_comparison (seq_row ''Seq Write (direct)'' 0 0 d)
       (seq_row ''Seq Write (cached)'' (sq_cache_hits c) (sq_cache_misses c) c)))))"

definition seq_benchmarks :: "'w env \<Rightarrow> (nat \<Rightarrow> nat \<Rightarrow> nat) \<Rightarrow> i32 \<Rightarrow> usize \<Rightarrow> usize \<Rightarrow> bool \<Rightarrow> ('w, unit) program" where
  "seq_benchmarks E ticks fd block_size n include_writes =
     then_do (prints (status ''Running'' ''Sequential Read benchmark'')) (\<lambda>_.
     then_do (direct (\<lambda>w m. Some (bench_sequential_read_direct E fd block_size n w m))) (\<lambda>d.
     then_do (cached_run (\<lambda>eg. Some (bench_sequential_read_cached E (ticks 0) n eg))) (\<lambda>c.
     then_do (prints (print_comparison (seq_row ''Seq Read (direct)'' 0 (sq_block_count d) d)
       (seq_row ''Seq Read (cached)'' (sq_cache_hits c) (sq_cache_misses c) c))) (\<lambda>_.
     then_do (prints (status ''Running'' ''Sequential Read (warm cache) benchmark'')) (\<lambda>_.
     then_do (cached_run (\<lambda>eg. Some (bench_sequential_read_cached E (ticks 1) n eg))) (\<lambda>h.
     then_do (prints (print_comparison (seq_row ''Seq Read (direct)'' 0 (sq_block_count d) d)
       (seq_row ''Seq Read (warm cache)'' (sq_cache_hits h) (sq_cache_misses h) h))) (\<lambda>_.
     if include_writes then seq_writes E (ticks 2) fd block_size n else done_with ())))))))"

definition rnd_writes ::
  "'w env \<Rightarrow> (u64 \<Rightarrow> u64 \<Rightarrow> nat \<Rightarrow> u64) \<Rightarrow> (nat \<Rightarrow> nat) \<Rightarrow> i32 \<Rightarrow> usize \<Rightarrow> usize \<Rightarrow> u64 \<Rightarrow> ('w, unit) program" where
  "rnd_writes E gen ticks fd block_size n limit =
     then_do (prints (status ''Running'' ''Random Write benchmark'')) (\<lambda>_.
     then_do (direct (bench_random_write_direct E gen fd block_size n limit)) (\<lambda>d.
     then_do (cached_run (bench_random_write_cached E gen ticks n limit)) (\<lambda>c.
     prints (print_comparison (rnd_row ''Rnd Write (direct)'' 0 0 d)
       (rnd_row ''Rnd Write (cached)'' (rn_cache_hits c) (rn_cache_misses c) c)))))"

definition rnd_benchmarks ::
  "'w env \<Rightarrow> (u64 \<Rightarrow> u64 \<Rightarrow> nat \<Rightarrow> u64) \<Rightarrow> (nat \<Rightarrow> nat \<Rightarrow> nat) \<Rightarrow> i32 \<Rightarrow> usize \<Rightarrow> usize \<Rightarrow> u64 \<Rightarrow> bool \<Rightarrow> ('w, unit) program" where
  "rnd_benchmarks E gen ticks fd block_size n limit include_writes =
     then_do (prints (status ''Running'' ''Random Read benchmark'')) (\<lambda>_.
     then_do (direct (bench_random_read_direct E gen fd block_size n limit)) (\<lambda>d.
     then_do (cached_run (bench_random_read_cached E gen (ticks 3) n limit)) (\<lambda>c.
     then_do (prints (print_comparison (rnd_row ''Rnd Read (direct)'' 0 (rn_op_count d) d)
       (rnd_row ''Rnd Read (cached)'' (rn_cache_hits c) (rn_cache_misses c) c))) (\<lambda>_.
     then_do (prints (status ''Running'' ''Random Read (warm cache) benchmark'')) (\<lambda>_.
     then_do (cached_run (bench_random_read_cached E gen (ticks 4) n limit)) (\<lambda>h.
     then_do (prints (print_comparison (rnd_row ''Rnd Read (direct)'' 0 (rn_op_count d) d)
       (rnd_row ''Rnd Read (warm cache)'' (rn_cache_hits h) (rn_cache_misses h) h))) (\<lambda>_.
     if include_writes then rnd_writes E gen (ticks 5) fd block_size n limit else done_with ())))))))"

text \<open>The part of \<open>run_benchmarks\<close> after the engine has been started.\<close>

definition bench_suite ::
  "'w env \<Rightarrow> (u64 \<Rightarrow> u64 \<Rightarrow> nat \<Rightarrow> u64) \<Rightarrow> (nat \<Rightarrow> nat \<Rightarrow> nat) \<Rightarrow> bool \<Rightarrow> bench_config \<Rightarrow> i32 \<Rightarrow> usize \<Rightarrow> u64 \<Rightarrow>
   ('w, unit) program" where
  "bench_suite E gen ticks panicked cfg fd n limit =
     then_do (if bc_mode cfg = Sequential \<or> bc_mode cfg = All
              then seq_benchmarks E ticks fd 4096 n (bc_include_writes cfg) else done_with ()) (\<lambda>_.
     then_do (if bc_mode cfg = Random \<or> bc_mode cfg = All
              then rnd_benchmarks E gen ticks fd 4096 n limit (bc_include_writes cfg) else done_with ()) (\<lambda>_.
     then_do (cached_run (engine_stop E panicked)) (\<lambda>_.
     prints print_footer)))"

definition bench_engine_config :: "bench_config \<Rightarrow> cache_config" where
  "bench_engine_config cfg = (config_new (bc_device_path cfg))
     \<lparr>cfg_cache_size_mb := bc_cache_size_mb cfg, cfg_read_only := \<not> bc_include_writes cfg\<rparr>"

definition run_benchmarks ::
  "'w env \<Rightarrow> (u64 \<Rightarrow> u64 \<Rightarrow> nat \<Rightarrow> u64) \<Rightarrow> (nat \<Rightarrow> nat \<Rightarrow> nat) \<Rightarrow> bool \<Rightarrow> bench_config \<Rightarrow> 'w \<Rightarrow> store \<Rightarrow>
   (unit cache_result \<times> printed list \<times> 'w \<times> store) option" where
  "run_benchmarks E gen ticks panicked cfg w m =
     (let header = print_header (bc_device_path cfg) (bc_cache_size_mb cfg) (bc_block_count cfg)
      in case device_open E (bc_device_path cfg) True w of
           (Inl e, w1) \<Rightarrow> Some (Inl e, header, w1, m)
         | (Inr direct_device, w1) \<Rightarrow>
             (let limit = max_lba (bd_info direct_device) 4096;
                  n = min (bc_block_count cfg) limit
              in case engine_new E (bench_engine_config cfg) w1 m of
                   None \<Rightarrow> None
                 | Some (Inl (e, w2, m2)) \<Rightarrow> Some (Inl e, header, device_drop E direct_device w2, m2)
                 | Some (Inr eg) \<Rightarrow>
                     (case bench_suite E gen ticks panicked cfg (bd_fd direct_device) n limit (engine_start E eg) of
                        None \<Rightarrow> None
                      | Some (r, eg', out) \<Rightarrow>
                          (case engine_drop E panicked eg' of
                             None \<Rightarrow> None
                           | Some s \<Rightarrow> Some (r, header @ out, device_drop E direct_device (cs_world s), cs_mem s)))))"

section \<open>Programs that keep an invariant\<close>

text \<open>From every state that satisfies the invariant the program returns, in one that does.\<close>

definition safe :: "('w engine \<Rightarrow> bool) \<Rightarrow> ('w, 'a) program \<Rightarrow> bool" where
  "safe I p \<longleftrightarrow> (\<forall>eg. I eg \<longrightarrow> (\<exists>r eg' out. p eg = Some (r, eg', out) \<and> I eg'))"

text \<open>The program never returns \<open>Ok\<close>.\<close>

definition fails :: "('w, 'a) program \<Rightarrow> bool" where
  "fails p \<longleftrightarrow> (\<forall>eg a eg' out. p eg \<noteq> Some (Inr a, eg', out))"

named_theorems safe_rules

lemma safe_then_do [safe_rules]:
  assumes "safe I f" "\<And>a. safe I (g a)"
  shows "safe I (then_do f g)"
  unfolding safe_def
proof (intro allI impI)
  fix eg assume "I eg"
  with assms(1) obtain r eg' out where f: "f eg = Some (r, eg', out)" "I eg'" unfolding safe_def by blast
  show "\<exists>r eg' out. then_do f g eg = Some (r, eg', out) \<and> I eg'"
  proof (cases r)
    case (Inr a)
    obtain r' eg'' out' where "g a eg' = Some (r', eg'', out')" "I eg''"
      using assms(2) f(2) unfolding safe_def by blast
    then show ?thesis using f Inr by (simp add: then_do_def)
  qed (simp add: then_do_def f)
qed

lemma safe_if [safe_rules]: "(b \<Longrightarrow> safe I p) \<Longrightarrow> (\<not> b \<Longrightarrow> safe I q) \<Longrightarrow> safe I (if b then p else q)"
  by simp

lemma safe_prints [safe_rules]: "safe I (prints ls)" "safe I (done_with a)"
  by (simp_all add: safe_def prints_def done_with_def)

lemma fails_then_do: "fails f \<Longrightarrow> fails (then_do f g)" "(\<And>a. fails (g a)) \<Longrightarrow> fails (then_do f g)"
  unfolding fails_def then_do_def by (auto split: option.splits prod.splits sum.splits)

section \<open>The read benchmarks as programs\<close>

lemma generate_total: "(0 < n \<longrightarrow> limit \<noteq> 0) \<Longrightarrow> \<exists>lbas. generate_random_lbas gen n limit seed = Some lbas"
  by (simp add: generate_random_lbas_def)

lemma safe_direct [safe_rules]:
  assumes env: "\<And>fd. env_ok E disk fd"
  shows "safe (pristine_engine disk d) (direct (\<lambda>w m. Some (bench_sequential_read_direct E fd bs n w m)))"
    "0 < n \<longrightarrow> limit \<noteq> 0 \<Longrightarrow> safe (pristine_engine disk d) (direct (bench_random_read_direct E gen fd bs n limit))"
proof -
  have gen: "safe (pristine_engine disk d) (direct f)"
    if "\<And>w m. f w m \<noteq> None" "\<And>w m r w' m'. f w m = Some (r, w', m') \<Longrightarrow> disk w' = disk w"
    for f :: "'a \<Rightarrow> store \<Rightarrow> ('b cache_result \<times> 'a \<times> store) option"
    using that put_world_pristine [of disk] unfolding safe_def direct_def
    by (fastforce split: option.splits prod.splits)
  show "safe (pristine_engine disk d) (direct (\<lambda>w m. Some (bench_sequential_read_direct E fd bs n w m)))"
    using direct_read_disk(1) [OF env] by (intro gen) auto
  show "safe (pristine_engine disk d) (direct (bench_random_read_direct E gen fd bs n limit))" if "0 < n \<longrightarrow> limit \<noteq> 0"
    using direct_read_disk(2) [OF env] generate_total [OF that]
    by (intro gen) (auto simp: bench_random_read_direct_def split: option.splits prod.splits sum.splits)
qed

lemma safe_cached [safe_rules]:
  assumes env: "\<And>fd. env_ok E disk fd"
  shows "safe (pristine_engine disk d) (cached_run (\<lambda>eg. Some (bench_sequential_read_cached E ticks n eg)))"
    "0 < n \<longrightarrow> limit \<noteq> 0 \<Longrightarrow> safe (pristine_engine disk d) (cached_run (bench_random_read_cached E gen ticks n limit))"
    "safe (pristine_engine disk d) (cached_run (engine_stop E panicked))"
proof -
  note keep = cached_read_pristine_run [OF env]
  have gen: "safe (pristine_engine disk d) (cached_run f)"
    if "\<And>eg. pristine_engine disk d eg \<Longrightarrow> \<exists>r eg'. f eg = Some (r, eg') \<and> pristine_engine disk d eg'"
    for f :: "'a engine \<Rightarrow> ('b cache_result \<times> 'a engine) option"
    using that unfolding safe_def cached_run_def by fastforce
  show "safe (pristine_engine disk d) (cached_run (\<lambda>eg. Some (bench_sequential_read_cached E ticks n eg)))"
    using keep(1) by (intro gen) (metis surj_pair)
  show "safe (pristine_engine disk d) (cached_run (engine_stop E panicked))"
    unfolding safe_def cached_run_def using engine_stop_pristine [OF env] by fastforce
  have total: "bench_random_read_cached E gen ticks n limit eg \<noteq> None" if "0 < n \<longrightarrow> limit \<noteq> 0" for eg
    using generate_total [OF that]
    by (auto simp: bench_random_read_cached_def split: option.splits prod.splits sum.splits)
  show "safe (pristine_engine disk d) (cached_run (bench_random_read_cached E gen ticks n limit))"
    if "0 < n \<longrightarrow> limit \<noteq> 0"
    using keep(2) total [OF that] unfolding safe_def cached_run_def by fastforce
qed

lemma bench_suite_safe:
  assumes env: "\<And>fd. env_ok E disk fd" and ro: "\<not> bc_include_writes cfg" and n: "0 < n \<longrightarrow> limit \<noteq> 0"
  shows "safe (pristine_engine disk d) (bench_suite E gen ticks panicked cfg fd n limit)"
  unfolding bench_suite_def seq_benchmarks_def rnd_benchmarks_def if_not_P [OF ro]
  by (intro safe_rules env n)

section \<open>The write benchmarks against the direct descriptor\<close>

lemma direct_write_fails:
  assumes ref: "pwrite_refused E fd" and n: "0 < n"
  shows "fails (direct (\<lambda>w m. Some (bench_sequential_write_direct E fd 4096 n w m)))"
    "fails (direct (bench_random_write_direct E gen fd 4096 n limit))"
proof -
  have loop: "write_direct_loop E fd 4096 (aligned_buffer_as_ref buf m) lbas w \<noteq> (Inr u, w')"
    if new: "aligned_buffer_new E 4096 w0 m0 = (Inr buf, w1, m1)" and ne: "lbas \<noteq> []" for buf m lbas w u w' w0 m0 w1 m1
  proof -
    have "length (aligned_buffer_as_ref buf m) = unat (4096 :: usize)"
      using aligned_buffer_new_Inr(1) [OF new] by (simp add: aligned_buffer_as_ref_def)
    moreover have "0 < unat (4096 :: usize)" by simp
    ultimately obtain e where "write_direct_loop E fd 4096 (aligned_buffer_as_ref buf m) lbas w = (Inl e, w)"
      using write_direct_refused [OF ref ne] by blast
    then show ?thesis by simp
  qed
  have ne: "lba_range n \<noteq> []" "generate_random_lbas gen n limit BENCH_SEED = Some lbas \<Longrightarrow> lbas \<noteq> []" for lbas
    using n by (auto simp: lba_range_def generate_random_lbas_def unat_gt_0 unat_eq_zero split: if_splits)
  show "fails (direct (\<lambda>w m. Some (bench_sequential_write_direct E fd 4096 n w m)))"
    using loop ne(1)
    by (auto simp: fails_def direct_def bench_sequential_write_direct_def Let_def split: prod.splits sum.splits)
  show "fails (direct (bench_random_write_direct E gen fd 4096 n limit))"
    using loop ne(2)
    by (auto simp: fails_def direct_def bench_random_write_direct_def Let_def
        split: option.splits prod.splits sum.splits)
qed

lemma bench_suite_fails:
  assumes "pwrite_refused E fd" "0 < n" "bc_include_writes cfg"
  shows "fails (bench_suite E gen ticks panicked cfg fd n limit)"
proof -
  have w: "fails (seq_writes E t fd 4096 n)" "fails (rnd_writes E gen t fd 4096 n limit)" for t
    unfolding seq_writes_def rnd_writes_def
    by (rule fails_then_do(2), rule fails_then_do(1), rule direct_write_fails [OF assms(1,2)])+
  have "fails (seq_benchmarks E ticks fd 4096 n True)" "fails (rnd_benchmarks E gen ticks fd 4096 n limit True)"
    unfolding seq_benchmarks_def rnd_benchmarks_def if_True by (intro fails_then_do(2) w)+
  then show ?thesis
    using assms(3) unfolding bench_suite_def
    by (cases "bc_mode cfg") (simp_all add: fails_then_do)
qed

lemma run_benchmarks_pristine:
  assumes "\<And>fd. env_ok E disk fd" "\<not> bc_include_writes cfg"
  shows "\<exists>r out w' m'. run_benchmarks E gen ticks panicked cfg w m = Some (r, out, w', m') \<and> disk w' = disk w"
proof -
  note env = assms(1) and q = env_okD(3) [OF assms(1)]
  obtain rd w1 where dev: "device_open E (bc_device_path cfg) True w = (rd, w1)" by fastforce
  note d1 = device_open_disk [OF q dev]
  show ?thesis
  proof (cases rd)
    case (Inl e)
    then show ?thesis using dev d1 by (simp add: run_benchmarks_def)
  next
    case (Inr direct_device)
    define limit where "limit = max_lba (bd_info direct_device) 4096"
    define n where "n = min (bc_block_count cfg) limit"
    have n: "0 < n \<longrightarrow> limit \<noteq> 0" by (auto simp: n_def)
    note unfold = run_benchmarks_def dev Inr limit_def [symmetric] n_def [symmetric] Let_def
    obtain new where new: "engine_new E (bench_engine_config cfg) w1 m = Some new"
      using engine_new_total [of E "bench_engine_config cfg" w1 m] by blast
    show ?thesis
    proof (cases new)
      case (Inl ewm)
      obtain e w2 m2 where ewm: "ewm = (e, w2, m2)" by (metis prod_cases3)
      have "disk w2 = disk w" using engine_new_pristine(2) [OF env new [unfolded Inl ewm]] d1 by simp
      then show ?thesis using new Inl ewm device_drop_disk [OF q] by (simp add: unfold)
    next
      case (Inr eg)
      have "pristine_engine disk (disk w) (engine_start E eg)"
        using engine_start_pristine [OF env engine_new_pristine(1) [OF env new [unfolded Inr]]] d1 by simp
      then obtain r eg' out where suite: "pristine_engine disk (disk w) eg'"
        "bench_suite E gen ticks panicked cfg (bd_fd direct_device) n limit (engine_start E eg) = Some (r, eg', out)"
        using bench_suite_safe [OF env assms(2) n] unfolding safe_def by blast
      obtain s where "engine_drop E panicked eg' = Some s" "disk (cs_world s) = disk w"
        using engine_drop_pristine [OF env suite(1)] by blast
      then show ?thesis using new Inr suite(2) device_drop_disk [OF q] by (simp add: unfold)
    qed
  qed
qed

section \<open>Properties\<close>

text \<open>
  A run without write benchmarks, whatever the mode, the sizes, the generator and the schedule
  of the flush thread, returns (with a result or an error, never with a panic) and leaves every
  byte of the device as it was: what \<open>--confirm-write\<close> guards is the only way to a write.
\<close>

theorem read_only_bench_keeps_device:
  assumes "\<And>fd. env_ok E disk fd" "\<not> bc_include_writes cfg"
  shows "\<exists>r out w' m'. run_benchmarks E gen ticks panicked cfg w m = Some (r, out, w', m') \<and> disk w' = disk w"
  by (rule run_benchmarks_pristine [OF assms])

text \<open>
  Two descriptors: 3 is opened for writing, 4 read-only, and \<open>pwrite\<close> on 4 fails.
\<close>

definition two_fd_env :: "sim_world env" where
  "two_fd_env = sim_env\<lparr>env_open := (\<lambda>p f w. (Inr (if f = O_RDWR_DIRECT then 3 else 4), w))\<rparr>"

lemma two_fd_env_ok: "env_ok two_fd_env sim_disk fd"
  using sim_env_ok [of fd]
  by (simp add: env_ok_def pread_ok_def pwrite_ok_def quiet_ok_def hash_ok_def two_fd_env_def)

definition sample_bench :: bench_config where
  "sample_bench = \<lparr>bc_device_path = ''/dev/sdb'', bc_mode = All, bc_block_count = 4, bc_cache_size_mb = 1,
     bc_include_writes = False\<rparr>"

theorem read_only_bench_keeps_device_witness:
  "\<exists>r out w' m'. run_benchmarks two_fd_env (\<lambda>seed limit i. of_nat i) (\<lambda>_ i. i) False sample_bench
     (sim_init\<lparr>sim_disk := \<lambda>_. 5\<rparr>) (\<lambda>_. 0) = Some (r, out, w', m') \<and> sim_disk w' = (\<lambda>_. 5)"
  using read_only_bench_keeps_device [OF two_fd_env_ok, where cfg = sample_bench and w = "sim_init\<lparr>sim_disk := \<lambda>_. 5\<rparr>"]
  by (simp add: sample_bench_def)

text \<open>
  C40. A run with write benchmarks of at least one block, on a device of at least one block,
  never succeeds: the direct baseline writes through a descriptor that was opened read-only, on
  which \<open>pwrite\<close> fails.
\<close>

theorem write_bench_never_succeeds:
  assumes "bc_include_writes cfg" "device_open E (bc_device_path cfg) True w = (Inr dev, v)"
    "pwrite_refused E (bd_fd dev)" "0 < bc_block_count cfg" "0 < max_lba (bd_info dev) 4096"
  shows "run_benchmarks E gen ticks panicked cfg w m \<noteq> Some (Inr (), out, w', m')"
proof -
  have "0 < min (bc_block_count cfg) (max_lba (bd_info dev) 4096)" using assms(4,5) by (simp add: min_def)
  from bench_suite_fails [OF assms(3) this assms(1)] show ?thesis
    unfolding fails_def
    by (auto simp: run_benchmarks_def assms(2) Let_def split: option.splits sum.splits prod.splits)
qed

theorem write_bench_never_succeeds_witness:
  "\<forall>out w' m'. run_benchmarks two_fd_env (\<lambda>seed limit i. of_nat i) (\<lambda>_ i. i) False (sample_bench\<lparr>bc_include_writes := True\<rparr>)
     sim_init (\<lambda>_. 0) \<noteq> Some (Inr (), out, w', m')"
proof -
  obtain dev w1 where dev: "device_open two_fd_env ''/dev/sdb'' True sim_init = (Inr dev, w1)"
    "bd_fd dev = 4" "di_total_bytes (bd_info dev) = 1048576"
    by (auto simp: device_open_def query_def open_readonly_def has_nul_def ioctl_get_size_def
        ioctl_get_sector_size_def close_fd_def two_fd_env_def sim_defs Let_def)
  have "pwrite_refused two_fd_env 4" by (simp add: pwrite_refused_def two_fd_env_def sim_defs)
  with write_bench_never_succeeds [where cfg = "sample_bench\<lparr>bc_include_writes := True\<rparr>" and E = two_fd_env
      and w = sim_init and dev = dev and v = w1] dev
  show ?thesis by (simp add: sample_bench_def max_lba_def)
qed

end
