(* ===== verification/Cli.thy ===== *)
theory Cli
  imports Runner
begin

text \<open>
  The command line: the arguments of the three subcommands with their defaults
  (\<open>src/src/cli/args.rs\<close>), the command handlers (\<open>src/src/cli/commands.rs\<close>) and \<open>main\<close>
  (\<open>src/src/main.rs\<close>). What happens around the process is one parameter: whether the
  \<open>ctrlc\<close> crate installs the handler, what the handler's flag holds at each poll, how many
  iterations the flush thread makes meanwhile, the random generator, and whether \<open>join\<close>
  reports a panic. A run that panics or never ends has the value \<open>None\<close>. The output of a
  command is what it prints itself, in the order of printing; the records that the \<open>env_logger\<close>
  crate writes to the standard error beside it are not part of it.
\<close>

section \<open>Arguments\<close>

record cache_args =
  ca_device :: string
  ca_cache_size :: usize
  ca_block_size :: usize
  ca_flush_interval :: u64
  ca_dirty_watermark :: f64
  ca_read_only :: bool

record bench_args =
  ba_device :: string
  ba_mode :: string
  ba_block_count :: usize
  ba_cache_size :: usize
  ba_confirm_write :: bool

record info_args =
  ia_device :: string

datatype command = Cache cache_args | Bench bench_args | Info info_args

record cli =
  cli_command :: command
  cli_verbose :: u8

text \<open>The \<open>default_value\<close>s: what the parser fills in when only the device is given.\<close>

definition cache_args_default :: "string \<Rightarrow> cache_args" where
  "cache_args_default device = \<lparr>ca_device = device, ca_cache_size = 256, ca_block_size = 4096, ca_flush_interval = 5,
     ca_dirty_watermark = Fin (3 / 4), ca_read_only = False\<rparr>"

definition bench_args_default :: "string \<Rightarrow> bench_args" where
  "bench_args_default device = \<lparr>ba_device = device, ba_mode = ''all'', ba_block_count = 1000, ba_cache_size = 256,
     ba_confirm_write = False\<rparr>"

section \<open>Commands\<close>

record runtime =
  rt_handler_ok :: bool
  rt_running :: "nat \<Rightarrow> bool"
  rt_wait_ticks :: "nat \<Rightarrow> nat"
  rt_bench_ticks :: "nat \<Rightarrow> nat \<Rightarrow> nat"
  rt_rand :: "u64 \<Rightarrow> u64 \<Rightarrow> nat \<Rightarrow> u64"
  rt_panicked :: bool

definition cache_config_of :: "cache_args \<Rightarrow> cache_config" where
  "cache_config_of args = \<lparr>cfg_device_path = ca_device args, cfg_cache_size_mb = ca_cache_size args,
     cfg_block_size = ca_block_size args, cfg_flush_interval_secs = ca_flush_interval args,
     cfg_dirty_watermark = ca_dirty_watermark args, cfg_read_only = ca_read_only args\<rparr>"

definition config_line :: "nat \<Rightarrow> string \<Rightarrow> string \<Rightarrow> printed" where
  "config_line i name text = Stdout [Plain (''  '' @ show_nat i @ '' |   '' @ pad_right 17 name @ '' '' @ text @ '','')]"

definition injecting_lines :: "cache_args \<Rightarrow> printed list" where
  "injecting_lines args =
     status ''Injecting'' (''cache-engine onto `'' @ ca_device args @ ''`'') @
     [Stdout [arrow, Plain ('' '' @ ca_device args)],
      Stdout [gutter],
      Stdout [Plain ''  1 | CacheConfig {''],
      config_line 2 ''cache_size:'' (show_word (ca_cache_size args) @ '' MiB''),
      config_line 3 ''block_size:'' (show_word (ca_block_size args) @ '' B''),
      config_line 4 ''flush_interval:'' (show_word (ca_flush_interval args) @ '' s''),
      config_line 5 ''dirty_watermark:'' (f64_fixed 0 (f64_scale (ca_dirty_watermark args) 100) @ ''%''),
      config_line 6 ''read_only:'' (show_bool (ca_read_only args)),
      Stdout [Plain ''  7 | }''],
      Stdout [gutter],
      Stdout (note_line ''cache engine successfully running''),
      Stdout (help_line ''press `Ctrl+C` to gracefully shut down and commit all dirty blocks''),
      Stdout []]"

definition stopping_lines :: "cache_args \<Rightarrow> printed list" where
  "stopping_lines args =
     status ''Stopping'' ''cache engine'' @
     [Stdout [arrow, Plain ('' '' @ ca_device args)],
      Stdout [gutter],
      Stdout (note_line ''flushing all remaining dirty blocks from RAM cache to disk'')]"

definition finished_lines :: "printed list" where
  "finished_lines = status ''Finished'' ''shutdown cleanly (all blocks committed)'' @ [Stdout []]"

text \<open>The loop that polls the flag; the flush thread runs while the main thread sleeps.\<close>

partial_function (option) wait_signal ::
  "'w env \<Rightarrow> (nat \<Rightarrow> bool) \<Rightarrow> (nat \<Rightarrow> nat) \<Rightarrow> nat \<Rightarrow> 'w engine \<Rightarrow> 'w engine option" where
  "wait_signal E flag ticks i eg =
     (if flag i then wait_signal E flag ticks (Suc i) ((engine_background E ^^ ticks i) eg) else Some eg)"

type_synonym 'w outcome = "(unit cache_result \<times> printed list \<times> 'w \<times> store) option"

definition exec_cache :: "'w env \<Rightarrow> runtime \<Rightarrow> cache_args \<Rightarrow> 'w \<Rightarrow> store \<Rightarrow> 'w outcome" where
  "exec_cache E rt args w m =
     (case engine_new E (cache_config_of args) w m of
        None \<Rightarrow> None
      | Some (Inl (e, w', m')) \<Rightarrow> Some (Inl e, [], w', m')
      | Some (Inr eg) \<Rightarrow>
          (if \<not> rt_handler_ok rt then None
           else case wait_signal E (rt_running rt) (rt_wait_ticks rt) 0 (engine_start E eg) of
             None \<Rightarrow> None
           | Some eg1 \<Rightarrow>
               (case engine_stop E (rt_panicked rt) eg1 of
                  None \<Rightarrow> None
                | Some (r, eg2) \<Rightarrow>
                    (case engine_drop E (rt_panicked rt) eg2 of
                       None \<Rightarrow> None
                     | Some s \<Rightarrow>
                         Some (r, injecting_lines args @ stopping_lines args @
                             (case r of Inl _ \<Rightarrow> [] | Inr _ \<Rightarrow> finished_lines),
                           cs_world s, cs_mem s)))))"

definition exec_bench :: "'w env \<Rightarrow> runtime \<Rightarrow> bench_args \<Rightarrow> 'w \<Rightarrow> store \<Rightarrow> 'w outcome" where
  "exec_bench E rt args w m =
     (case bench_mode_from_str (ba_mode args) of
        Inl e \<Rightarrow> Some (Inl (config_err e), [], w, m)
      | Inr mode \<Rightarrow>
          (let warn = (if ba_confirm_write args
                 then warning ''destructive write benchmarks enabled'' (Some (ba_device args))
                   [''caution: data on the device WILL be overwritten!'',
                    ''help: ensure you have backed up any important data before proceeding.'']
                 else []);
               cfg = \<lparr>bc_device_path = ba_device args, bc_mode = mode, bc_block_count = ba_block_count args,
                 bc_cache_size_mb = ba_cache_size args, bc_include_writes = ba_confirm_write args\<rparr>
           in map_option (\<lambda>(r, out, w', m'). (r, warn @ out, w', m'))
                (run_benchmarks E (rt_rand rt) (rt_bench_ticks rt) (rt_panicked rt) cfg w m)))"

definition exec_info :: "'w env \<Rightarrow> info_args \<Rightarrow> 'w \<Rightarrow> store \<Rightarrow> 'w outcome" where
  "exec_info E args w m =
     (case query E (ia_device args) w of
        (Inl e, w') \<Rightarrow> Some (Inl e, [], w', m)
      | (Inr info, w') \<Rightarrow> Some (Inr (), emit_device_info info, w', m))"

section \<open>The entry point\<close>

definition log_level :: "u8 \<Rightarrow> string" where
  "log_level verbose =
     (if verbose = 0 then ''warn'' else if verbose = 1 then ''info'' else if verbose = 2 then ''debug'' else ''trace'')"

definition dispatch :: "'w env \<Rightarrow> runtime \<Rightarrow> command \<Rightarrow> 'w \<Rightarrow> store \<Rightarrow> 'w outcome" where
  "dispatch E rt cmd =
     (case cmd of Cache args \<Rightarrow> exec_cache E rt args | Bench args \<Rightarrow> exec_bench E rt args | Info args \<Rightarrow> exec_info E args)"

text \<open>
  The result has the default filter with which the logger is initialised before the dispatch
  (the crate behind it may take another one from its environment variable), the exit status
  and the printed lines: an error is reported and turned into status 1.
\<close>

definition main_run ::
  "'w env \<Rightarrow> runtime \<Rightarrow> cli \<Rightarrow> 'w \<Rightarrow> store \<Rightarrow> (string \<times> nat \<times> printed list \<times> 'w \<times> store) option" where
  "main_run E rt c w m =
     (let filter = log_level (cli_verbose c)
      in map_option
           (\<lambda>(r, out, w', m'). case r of
                Inl e \<Rightarrow> (filter, 1, out @ emit_error e, w', m')
              | Inr _ \<Rightarrow> (filter, 0, out, w', m'))
           (dispatch E rt (cli_command c) w m))"

section \<open>Facts\<close>

text \<open>The arguments a user does not give are the defaults of the engine and of the suite.\<close>

lemma defaults_agree:
  "cache_config_of (cache_args_default device) = config_new device"
  "bench_mode_from_str (ba_mode (bench_args_default device)) = Inr All"
  by (simp_all add: cache_config_of_def cache_args_default_def config_new_def DEFAULT_CACHE_SIZE_MB_def
      DEFAULT_BLOCK_SIZE_def DEFAULT_FLUSH_INTERVAL_SECS_def DEFAULT_DIRTY_WATERMARK_def bench_args_default_def
      bench_mode_from_str_def ascii_lower_def)

definition waits_forever :: "(nat \<Rightarrow> bool) \<Rightarrow> nat \<Rightarrow> bool" where
  "waits_forever flag i \<longleftrightarrow> (\<forall>j\<ge>i. flag j)"

lemma wait_signal_returns:
  assumes "\<not> flag (i + k)"
  shows "\<exists>eg'. wait_signal E flag ticks i eg = Some eg'"
  using assms
proof (induction k arbitrary: i eg)
  case 0
  then show ?case by (simp add: wait_signal.simps)
next
  case (Suc k)
  then show ?case by (subst wait_signal.simps) simp
qed

lemma wait_signal_some:
  assumes "wait_signal E flag ticks i eg = Some eg'"
  shows "\<not> waits_forever flag i \<and> (\<exists>k. eg' = (engine_background E ^^ k) eg)"
proof (rule wait_signal.raw_induct [OF _ assms])
  fix wait :: "'a env \<Rightarrow> (nat \<Rightarrow> bool) \<Rightarrow> (nat \<Rightarrow> nat) \<Rightarrow> nat \<Rightarrow> 'a engine \<Rightarrow> 'a engine option"
    and E flag ticks i eg eg'
  assume IH: "\<And>E flag ticks i eg eg'. wait E flag ticks i eg = Some eg' \<Longrightarrow>
      \<not> waits_forever flag i \<and> (\<exists>k. eg' = (engine_background E ^^ k) eg)"
    and body: "(if flag i then wait E flag ticks (Suc i) ((engine_background E ^^ ticks i) eg) else Some eg) = Some eg'"
  show "\<not> waits_forever flag i \<and> (\<exists>k. eg' = (engine_background E ^^ k) eg)"
  proof (cases "flag i")
    case True
    with body IH obtain k where k: "\<not> waits_forever flag (Suc i)"
      "eg' = (engine_background E ^^ k) ((engine_background E ^^ ticks i) eg)" by force
    then have "eg' = (engine_background E ^^ (k + ticks i)) eg" by (simp add: funpow_add)
    moreover have "\<not> waits_forever flag i" using k(1) unfolding waits_forever_def by (meson Suc_leD)
    ultimately show ?thesis by blast
  next
    case False
    then have "eg' = (engine_background E ^^ 0) eg" "\<not> waits_forever flag i" using body by (auto simp: waits_forever_def)
    then show ?thesis by blast
  qed
qed

lemma wait_signal_pristine:
  assumes env: "\<And>fd. env_ok E disk fd" and inv: "pristine_engine disk d eg" and stops: "\<not> waits_forever flag 0"
  shows "\<exists>eg'. wait_signal E flag ticks 0 eg = Some eg' \<and> pristine_engine disk d eg'"
proof -
  obtain k where "\<not> flag (0 + k)" using stops by (auto simp: waits_forever_def)
  from wait_signal_returns [where flag = flag, OF this] obtain eg' where w: "wait_signal E flag ticks 0 eg = Some eg'" by blast
  with wait_signal_some [OF w] engine_background_pristine [OF env inv] show ?thesis by auto
qed

lemma exec_cache_pristine:
  assumes env: "\<And>fd. env_ok E disk fd" and rt: "rt_handler_ok rt" "\<not> waits_forever (rt_running rt) 0"
  shows "\<exists>r out w' m'. exec_cache E rt args w m = Some (r, out, w', m') \<and> disk w' = disk w"
proof -
  obtain new where new: "engine_new E (cache_config_of args) w m = Some new"
    using engine_new_total [of E "cache_config_of args" w m] by blast
  show ?thesis
  proof (cases new)
    case (Inl ewm)
    obtain e w2 m2 where ewm: "ewm = (e, w2, m2)" by (metis prod_cases3)
    then show ?thesis
      using new Inl engine_new_pristine(2) [OF env new [unfolded Inl ewm]] by (simp add: exec_cache_def)
  next
    case (Inr eg)
    from engine_start_pristine [OF env engine_new_pristine(1) [OF env new [unfolded Inr]]]
    obtain eg1 where eg1: "wait_signal E (rt_running rt) (rt_wait_ticks rt) 0 (engine_start E eg) = Some eg1"
      "pristine_engine disk (disk w) eg1" using wait_signal_pristine [OF env _ rt(2)] by blast
    obtain r eg2 where eg2: "engine_stop E (rt_panicked rt) eg1 = Some (r, eg2)" "pristine_engine disk (disk w) eg2"
      using engine_stop_pristine [OF env eg1(2)] by blast
    obtain s where "engine_drop E (rt_panicked rt) eg2 = Some s" "disk (cs_world s) = disk w"
      using engine_drop_pristine [OF env eg2(2)] by blast
    then show ?thesis using new Inr rt(1) eg1(1) eg2(1) by (simp add: exec_cache_def)
  qed
qed

lemma exec_bench_pristine:
  assumes env: "\<And>fd. env_ok E disk fd" and ro: "\<not> ba_confirm_write args"
  shows "\<exists>r out w' m'. exec_bench E rt args w m = Some (r, out, w', m') \<and> disk w' = disk w"
proof (cases "bench_mode_from_str (ba_mode args)")
  case (Inr mode)
  let ?cfg = "\<lparr>bc_device_path = ba_device args, bc_mode = mode, bc_block_count = ba_block_count args,
    bc_cache_size_mb = ba_cache_size args, bc_include_writes = ba_confirm_write args\<rparr>"
  have "\<not> bc_include_writes ?cfg" using ro by simp
  from run_benchmarks_pristine [OF env this, where gen = "rt_rand rt" and ticks = "rt_bench_ticks rt" and w = w and m = m]
  show ?thesis using Inr ro by (fastforce simp: exec_bench_def Let_def)
qed (simp add: exec_bench_def)

lemma exec_info_pristine:
  assumes env: "\<And>fd. env_ok E disk fd"
  shows "\<exists>r out w' m'. exec_info E args w m = Some (r, out, w', m') \<and> disk w' = disk w"
  using query_disk [OF env_okD(3) [OF env], of "ia_device args" w]
  by (auto simp: exec_info_def split: prod.splits sum.splits)

section \<open>The two output channels\<close>

definition clean_out :: "printed list \<Rightarrow> bool" where
  "clean_out out \<longleftrightarrow> (\<forall>l \<in> set out. \<not> is_stderr l)"

text \<open>A program that writes to the standard output only.\<close>

definition outputs_clean :: "('w, 'a) program \<Rightarrow> bool" where
  "outputs_clean p \<longleftrightarrow> (\<forall>eg r eg' out. p eg = Some (r, eg', out) \<longrightarrow> clean_out out)"

named_theorems clean_rules

lemma clean_then_do [clean_rules]:
  assumes "outputs_clean f" "\<And>a. outputs_clean (g a)"
  shows "outputs_clean (then_do f g)"
  using assms unfolding outputs_clean_def then_do_def clean_out_def
  by (fastforce split: option.splits sum.splits)

lemma clean_basic [clean_rules]:
  "clean_out ls \<Longrightarrow> outputs_clean (prints ls)" "outputs_clean (done_with a)" "outputs_clean (direct h)"
  "outputs_clean (cached_run k)"
  "(b \<Longrightarrow> outputs_clean p) \<Longrightarrow> (\<not> b \<Longrightarrow> outputs_clean q) \<Longrightarrow> outputs_clean (if b then p else q)"
  by (auto simp: outputs_clean_def prints_def done_with_def direct_def cached_run_def clean_out_def split: option.splits)

lemma clean_texts [clean_rules]:
  "clean_out (status action msg)" "clean_out (print_comparison a b)" "clean_out print_footer"
  "clean_out (print_header p s n)"
  by (auto simp: clean_out_def status_def print_comparison_def print_footer_def print_header_def)

lemma bench_suite_clean: "outputs_clean (bench_suite E gen ticks panicked cfg fd n limit)"
  unfolding bench_suite_def seq_benchmarks_def seq_writes_def rnd_benchmarks_def rnd_writes_def
  by (intro clean_rules)

lemma run_benchmarks_clean:
  assumes "run_benchmarks E gen ticks panicked cfg w m = Some (r, out, w', m')"
  shows "clean_out out"
  using assms bench_suite_clean clean_texts(4) unfolding outputs_clean_def
  by (fastforce simp: run_benchmarks_def Let_def clean_out_def split: prod.splits sum.splits option.splits)

text \<open>Whether the arguments ask for the destructive benchmarks.\<close>

definition confirms_write :: "command \<Rightarrow> bool" where
  "confirms_write cmd \<longleftrightarrow> (case cmd of Bench args \<Rightarrow> ba_confirm_write args | _ \<Rightarrow> False)"

lemma dispatch_pristine:
  assumes env: "\<And>fd. env_ok E disk fd" and rt: "rt_handler_ok rt" "\<not> waits_forever (rt_running rt) 0"
    and "\<not> confirms_write cmd"
  shows "\<exists>r out w' m'. dispatch E rt cmd w m = Some (r, out, w', m') \<and> disk w' = disk w"
  using exec_cache_pristine [OF env rt] exec_bench_pristine [OF env] exec_info_pristine [OF env] assms(4)
  by (cases cmd) (simp_all add: dispatch_def confirms_write_def)

lemma dispatch_clean:
  assumes "dispatch E rt cmd w m = Some (r, out, w', m')" "\<not> confirms_write cmd"
  shows "clean_out out"
proof (cases cmd)
  case (Cache args)
  then show ?thesis
    using assms(1)
    by (auto simp: dispatch_def exec_cache_def clean_out_def injecting_lines_def stopping_lines_def
        finished_lines_def status_def config_line_def split: option.splits sum.splits if_splits)
next
  case (Bench args)
  then show ?thesis
    using assms run_benchmarks_clean
    by (fastforce simp: dispatch_def exec_bench_def confirms_write_def Let_def clean_out_def split: sum.splits)
next
  case (Info args)
  then show ?thesis
    using assms(1)
    by (auto simp: dispatch_def exec_info_def clean_out_def emit_device_info_def info_item_def Let_def
        split: prod.splits sum.splits)
qed

lemma exec_cache_waits:
  assumes "engine_new E (cache_config_of args) w m = Some (Inr eg)" "waits_forever (rt_running rt) 0"
  shows "exec_cache E rt args w m = None"
proof -
  have "wait_signal E (rt_running rt) (rt_wait_ticks rt) 0 (engine_start E eg) = None"
    using wait_signal_some assms(2) by (metis option.exhaust)
  then show ?thesis using assms(1) by (simp add: exec_cache_def)
qed

section \<open>Properties\<close>

text \<open>
  C13. The cache command runs exactly as long as it should: with the engine up and the handler
  installed it returns if and only if the flag is cleared at some poll. It serves no request,
  so whatever the flush thread does meanwhile, the device is left as it was, with a result
  or an error.
\<close>

theorem cache_command_until_signal:
  assumes "\<And>fd. env_ok E disk fd" "engine_new E (cache_config_of args) w m = Some (Inr eg)" "rt_handler_ok rt"
  shows "case exec_cache E rt args w m of
      None \<Rightarrow> \<forall>i. rt_running rt i
    | Some (r, out, w', m') \<Rightarrow> (\<exists>i. \<not> rt_running rt i) \<and> disk w' = disk w"
proof (cases "waits_forever (rt_running rt) 0")
  case True
  then show ?thesis using exec_cache_waits [OF assms(2) True] by (simp add: waits_forever_def)
next
  case False
  with exec_cache_pristine [OF assms(1,3) False, where args = args and w = w and m = m] show ?thesis
    by (auto simp: waits_forever_def)
qed

definition sample_runtime :: runtime where
  "sample_runtime = \<lparr>rt_handler_ok = True, rt_running = (\<lambda>i. i < 3), rt_wait_ticks = (\<lambda>i. 2), rt_bench_ticks = (\<lambda>_ i. i),
     rt_rand = (\<lambda>seed limit i. of_nat i mod limit), rt_panicked = False\<rparr>"

theorem cache_command_until_signal_witness:
  "\<exists>r out w' m'. exec_cache sim_env sample_runtime (cache_args_default ''/dev/sdb''\<lparr>ca_cache_size := 1\<rparr>)
     (sim_init\<lparr>sim_closed := [3]\<rparr>) (\<lambda>_. 0) = Some (r, out, w', m') \<and> sim_disk w' = (\<lambda>_. 0)"
proof -
  have "cache_config_of (cache_args_default ''/dev/sdb''\<lparr>ca_cache_size := 1\<rparr>) = sample_config"
    unfolding sample_config_def defaults_agree(1) [symmetric] by (simp add: cache_config_of_def cache_args_default_def)
  then obtain eg where eg: "engine_new sim_env (cache_config_of (cache_args_default ''/dev/sdb''\<lparr>ca_cache_size := 1\<rparr>))
      (sim_init\<lparr>sim_closed := [3]\<rparr>) (\<lambda>_. 0) = Some (Inr eg)" using sample_new by auto
  have "rt_handler_ok sample_runtime" "\<not> (\<forall>i. rt_running sample_runtime i)" by (auto simp: sample_runtime_def)
  with cache_command_until_signal [OF sim_env_ok eg] show ?thesis
    by (fastforce simp: sim_init_def split: option.splits)
qed

text \<open>
  A benchmark mode other than \<open>sequential\<close>, \<open>seq\<close>, \<open>random\<close>, \<open>rand\<close> and \<open>all\<close>, in any
  mixture of cases, is refused before anything is opened or allocated: the process exits
  with status 1 after a configuration diagnostic, and the world and memory are as they were.
\<close>

theorem unknown_mode_refused:
  assumes "cli_command c = Bench args"
    "map ascii_lower (ba_mode args) \<notin> {''sequential'', ''seq'', ''random'', ''rand'', ''all''}"
  shows "main_run E rt c w m =
    Some (log_level (cli_verbose c), 1, emit_error (Config (''unknown bench mode: '' @ ba_mode args)), w, m)"
  using assms by (simp add: main_run_def dispatch_def exec_bench_def bench_mode_from_str_def Let_def config_err_def)

theorem unknown_mode_refused_witness:
  "main_run sim_env sample_runtime \<lparr>cli_command = Bench (bench_args_default ''/dev/sdb''\<lparr>ba_mode := ''write''\<rparr>),
     cli_verbose = 0\<rparr> sim_init (\<lambda>_. 0) =
   Some (''warn'', 1, emit_error (Config ''unknown bench mode: write''), sim_init, (\<lambda>_. 0))"
  by (subst unknown_mode_refused [where args = "bench_args_default ''/dev/sdb''\<lparr>ba_mode := ''write''\<rparr>"])
    (simp_all add: ascii_lower_def log_level_def)

end
