(* ===== verification/Spec2Isabelle.thy ===== *)
theory Spec2Isabelle
  imports Orderly_Stop Torn Unit_Tests Cli
begin

text \<open>
  A verification library for \<open>asm-cache-inject\<close>, a write-back cache for raw block devices.

  \<^bold>\<open>The program.\<close> The \<open>CacheEngine\<close> (\<open>src/src/engine\<close>) serves reads and writes of
  fixed-size blocks, addressed by LBA, from a pool of page-aligned RAM blocks
  (\<open>src/src/memory\<close>). A hash table maps LBAs to pool slots (\<open>src/src/cache\<close>); a miss takes a
  free slot or evicts the least recently used block, clean ones first; a dirty victim is
  written back before. Data moves with non-temporal SSE2 copies into the pool and with
  \<open>rep movsb\<close> or \<open>memcpy\<close> out of it (\<open>src/src/asm\<close>), and to and from the device with
  \<open>pread\<close> and \<open>pwrite\<close> (\<open>src/src/io\<close>). A background thread (\<open>src/src/flush\<close>) writes dirty
  blocks back periodically, when a share of dirty blocks is exceeded, and once more when the
  engine stops.

  \<^bold>\<open>Theories\<close>, in the order of import:
  \<^item> \<open>Prelude\<close>: word types and the facts about words that do not wrap, the byte store with
    \<open>load_bytes\<close>, \<open>store_bytes\<close> and frames, printing of numbers.
  \<^item> \<open>Errors\<close> (\<open>error/types.rs\<close>, parts of \<open>cli/emit.rs\<close>): the error enum, its constructors,
    texts and codes.
  \<^item> \<open>Runtime_Env\<close>: system calls, clock, allocator, channel and hash order as one record
    parameter \<open>E\<close> acting on a world, and the hypotheses on them (\<open>env_ok\<close>, \<open>pread_live\<close>,
    \<open>pwrite_live\<close>, \<open>fd_ok\<close> and others); \<open>Sim_Env\<close>: a concrete environment that meets them, at
    which the theorems are exercised.
  \<^item> \<open>Memory\<close> (\<open>aligned_allocator.rs\<close>, \<open>block_buffer.rs\<close>) and \<open>Pool\<close> (\<open>pool.rs\<close>): aligned
    buffers and the pool; the locale \<open>slot_pool\<close> is the contract of the free-list.
  \<^item> \<open>Asm_Copy\<close> (\<open>src/src/asm\<close>): the copy routines down to 16-byte loads and stores, with the
    alignment fault as \<open>None\<close>; the locale \<open>copy_routine\<close> is their contract. \<open>Portable\<close>: the
    bodies for other processors, which meet it too.
  \<^item> \<open>Lba_Table\<close> (\<open>entry.rs\<close>, \<open>lba_table.rs\<close>) and \<open>Eviction\<close> (\<open>eviction.rs\<close>): the table as an
    association list behind the locale \<open>entry_map\<close>, and the choice of a victim.
  \<^item> \<open>Block_IO\<close> (\<open>reader.rs\<close>, \<open>writer.rs\<close>): the transfer loops. They terminate because every
    round transfers at least one byte; a zero-length transfer is an error.
  \<^item> \<open>Float64\<close> and \<open>Flush_Control\<close> (\<open>scheduler.rs\<close>, \<open>sync.rs\<close>): exact double rounding, the
    watermark test, the one-place channel and the stop flag; \<open>Fmt\<close>: formatting and paths.
  \<^item> \<open>Cache_State\<close>: the shared state, the invariant \<open>cache_inv\<close> (pool and table well-formed,
    slots owned once, clean entries equal to the device) and the \<open>view\<close>, the content of every
    block as clients see it.
  \<^item> \<open>Read_Path\<close> and \<open>Write_Path\<close> (\<open>read_path.rs\<close>, \<open>write_path.rs\<close>), \<open>Flusher\<close>
    (\<open>flusher.rs\<close>): the operations on that state, each with a post-condition for every path.
    The flush thread's loop may run forever and is a partial function; that it ends exactly
    when it is told to, by a signal or by the flag, is a theorem.
  \<^item> \<open>Engine_Config\<close> (\<open>config.rs\<close>), \<open>Device\<close> (\<open>device.rs\<close>, \<open>device_info.rs\<close>), \<open>Engine\<close>
    (\<open>cache_engine.rs\<close>): validation, opening, and the engine, which refines the locale
    \<open>block_store\<close>.
  \<^item> \<open>Interleave\<close> and \<open>Races\<close>: the same operations cut at every lock, device transfer and copy,
    as the steps of any number of clients, of the flush thread and of the caller of \<open>stop\<close>;
    the relation \<open>sys_step\<close> interleaves them. Run alone, a thread computes exactly the
    functions of the theories above.
  \<^item> \<open>Claims\<close>: clients that overlap. The locale \<open>claiming\<close> is the contract of parties that
    respect each other's claims; a client claims its block and the victim it evicts.
  \<^item> \<open>Calm\<close>, \<open>Others\<close>, \<open>Orderly\<close> and \<open>Orderly_Stop\<close>: the atomic block store as a step
    relation, the condition \<open>apart\<close> on the blocks that a client and the flush thread hold, what
    one step does to the data of its client and leaves to the others, the refinement mapping
    of the locale \<open>step_refinement\<close>, and the stop of a running system.
  \<^item> \<open>Copy_Steps\<close> and \<open>Torn\<close>: the copies cut at every memory access, behind the locale
    \<open>footprint\<close> of machines that stay within bounds, and the copies of clients that run at the
    same time.
  \<^item> \<open>Bench\<close> (\<open>sequential.rs\<close>, \<open>random.rs\<close>): the benchmark loops and their figures, with flush
    iterations between the operations.
  \<^item> \<open>Emit\<close> (\<open>cli/emit.rs\<close>) and \<open>Report\<close> (\<open>report.rs\<close>): the lines that are printed, as styled
    text on the standard output or the standard error.
  \<^item> \<open>Quiescent\<close>: without a dirty entry nothing is ever written; \<open>Runner\<close> (\<open>runner.rs\<close>) and
    \<open>Cli\<close> (\<open>args.rs\<close>, \<open>commands.rs\<close>, \<open>main.rs\<close>): the suite and the three commands as programs
    over the engine, up to the exit status. The loop that waits for the signal is a partial
    function.
  \<^item> \<open>Unit_Tests\<close>: the tests of the crate as predicates on the model.

  \<^bold>\<open>What is shown.\<close> Every operation keeps \<open>cache_inv\<close> on every
  path. Reads return the view, writes change it at one block, flushing and eviction do not change
  it, and any sequence of requests with flush iterations in between behaves as an abstract store;
  after \<open>stop\<close> the device holds the view if it accepts writes. Operations succeed
  when the device does. With the threads interleaved step by step, any number of overlapping
  client operations keep the pool and the table well-formed as long as no two of them claim the
  same block. If moreover no block is in the hands of a client and of the flush thread at the same
  time, every interleaving is a run of an atomic store, whatever the device does, and a stop at
  rest leaves the contents of that store on the device; a stop at any other moment ends the flush
  thread within a number of steps given by the size of the pool and misses exactly the blocks
  that became dirty after the thread's last list. The races below are the ways in which the code
  leaves this case. That a copy counts as one step is justified access by access for clients with
  different slots and buffers. The copies behave alike on all processors where their conditions are met, and the tests
  of the crate hold of the model. The figures of a benchmark add up, and unless destructive
  benchmarks are confirmed no command changes the device. The library also states where the code
  falls short: slots lost by failed reads, write errors hidden by \<open>stop\<close>, dirty
  blocks lost when an engine is dropped, updates lost and blocks overwritten when a flush races
  with a write or an eviction, one slot given to two blocks by overlapping evictions, a slot lost
  by overlapping misses of one block, reads torn by a write of the same block, write benchmarks
  that cannot succeed, a wrapping size, a leaked descriptor, a test that depends on the resolution
  of the clock.

  \<^bold>\<open>Conventions.\<close> The model is the release build for x86-64
  (\<open>Portable\<close> apart): debug assertions are predicates beside the definitions,
  \<open>usize\<close> arithmetic wraps, an assertion failure or a fault is \<open>None\<close>. A
  method that takes a lock once is one step; \<open>FlushNotifier::shutdown\<close>, which sets the flag and
  sends a message, is one too. \<open>flush_thread_main\<close> takes the values its tests read of the stop
  flag as a sequence, so the flag may be set by others at any time. \<open>main_run\<close> carries the
  filter with which the logger is initialised; log records, which the \<open>env_logger\<close> crate
  writes to the standard error, are left out but for the processor report, and theorems about what
  is printed are about the lines the program prints itself.
  Every function is total except the two loops that may wait forever; no fuel is used.

  \<^bold>\<open>Not modelled.\<close> The inside of a device transfer when threads interleave (it
  is one step), and streaming stores that wait in a buffer for the fence (a store is visible at
  once). The parsing of arguments by \<open>clap\<close> (the model starts from the parsed values
  and their defaults), the delivery of signals, the rendering of colours and most log records. The
  engine on processors other than x86-64 beyond its copies. For operations that claim the same
  block only the schedules of \<open>Races\<close>, \<open>Claims\<close> and \<open>Torn\<close>
  are followed: the code promises nothing for them that holds.
\<close>

section \<open>The program as a whole\<close>



end
